(* ===== verification/Prelude.thy ===== *)
theory Prelude
  imports Main "HOL-Library.Word" "HOL-Library.Monad_Syntax" "HOL-Library.Multiset"
begin

text \<open>
  The base of the library: the machine integers of the Rust code, the two build modes in which
  its arithmetic and its \<^verbatim>\<open>debug_assert!\<close>s differ, checked array access, and the
  modular addressing of the two windows.

  A panic of the code is the value \<open>None\<close> of an option; the operations are written in the
  option monad, so that a panic anywhere ends the operation, as it does in Rust.
\<close>

named_theorems build_mono
  \<open>each operation: what a debug build computes without a panic, a release build computes too\<close>

section \<open>Integers\<close>

type_synonym u32 = "32 word"
type_synonym i64 = "64 word"
type_synonym seq_no = "u32"

text \<open>
  \<^verbatim>\<open>i64\<close> values are 64-bit words, compared through their two's complement reading
  \<^const>\<open>sint\<close>. \<^verbatim>\<open>usize\<close> values are natural numbers: every one of them in
  this code is a length, an index or a count below a length (64-bit targets).
\<close>

definition i64_max :: i64 where
  "i64_max = 0x7FFFFFFFFFFFFFFF"

definition i64_min_of :: "i64 \<Rightarrow> i64 \<Rightarrow> i64" where
  "i64_min_of x y = (if sint y < sint x then y else x)"

text \<open>\<^verbatim>\<open>x as u32\<close> of a \<^verbatim>\<open>usize\<close> truncates.\<close>

definition u32_of_usize :: "nat \<Rightarrow> u32" where
  "u32_of_usize n = of_nat n"

section \<open>Build modes\<close>

text \<open>
  Cargo's \<^verbatim>\<open>dev\<close> profile compiles with debug assertions and overflow checks,
  its \<^verbatim>\<open>release\<close> profile with neither (integers wrap). Every operation takes the
  build mode as its first argument.
\<close>

datatype build = Debug | Release

definition debug_assert :: "build \<Rightarrow> bool \<Rightarrow> unit option" where
  "debug_assert b P = (if b = Debug \<and> \<not> P then None else Some ())"

definition i64_in_range :: "int \<Rightarrow> bool" where
  "i64_in_range x \<longleftrightarrow> - (2 ^ 63) \<le> x \<and> x < 2 ^ 63"

definition i64_add :: "build \<Rightarrow> i64 \<Rightarrow> i64 \<Rightarrow> i64 option" where
  "i64_add b x y =
     (if b = Debug \<and> \<not> i64_in_range (sint x + sint y) then None else Some (x + y))"

definition i64_sub :: "build \<Rightarrow> i64 \<Rightarrow> i64 \<Rightarrow> i64 option" where
  "i64_sub b x y =
     (if b = Debug \<and> \<not> i64_in_range (sint x - sint y) then None else Some (x - y))"

definition usize_sub :: "build \<Rightarrow> nat \<Rightarrow> nat \<Rightarrow> nat option" where
  "usize_sub b m n =
     (if n \<le> m then Some (m - n) else if b = Debug then None else Some (2 ^ 64 + m - n))"

definition u32_add :: "build \<Rightarrow> u32 \<Rightarrow> u32 \<Rightarrow> u32 option" where
  "u32_add b x y = (if b = Debug \<and> 2 ^ 32 \<le> unat x + unat y then None else Some (x + y))"

text \<open>Evaluation counts in binary: the integer reading of a word instead of a unary number.\<close>

lemma u32_add_code [code]:
  "u32_add b x y = (if b = Debug \<and> 2 ^ 32 \<le> uint x + uint y then None else Some (x + y))"
  using of_nat_le_iff [of "2 ^ 32" "unat x + unat y", where 'a = int]
  by (simp add: u32_add_def)

section \<open>Arrays\<close>

text \<open>Indexing out of bounds panics in both build modes.\<close>

definition arr_get :: "'a list \<Rightarrow> nat \<Rightarrow> 'a option" where
  "arr_get xs i = (if i < length xs then Some (xs ! i) else None)"

definition arr_set :: "'a list \<Rightarrow> nat \<Rightarrow> 'a \<Rightarrow> 'a list option" where
  "arr_set xs i v = (if i < length xs then Some (xs[i := v]) else None)"

lemma arr_get_Some [simp]: "i < length xs \<Longrightarrow> arr_get xs i = Some (xs ! i)"
  by (simp add: arr_get_def)

lemma arr_set_Some [simp]: "i < length xs \<Longrightarrow> arr_set xs i v = Some (xs[i := v])"
  by (simp add: arr_set_def)

lemma clear_nth:
  shows clear_nth_Some: "xs[j := None] ! i = Some e \<Longrightarrow> xs ! i = Some e"
    and clear_nth_None: "xs ! i = None \<Longrightarrow> xs[j := None] ! i = None"
  by (cases "i = j"; cases "j < length xs"; simp add: list_update_beyond)+

lemma unat_u32_of_nat: "k < 2 ^ 32 \<Longrightarrow> unat (of_nat k :: u32) = k"
  by (simp add: unat_of_nat)

lemma debug_assert_True [simp]: "debug_assert b True = Some ()"
  by (simp add: debug_assert_def)

lemma debug_assert_holds [simp]: "P \<Longrightarrow> debug_assert b P = Some ()"
  by (simp add: debug_assert_def)

lemma usize_sub_le [simp]: "n \<le> m \<Longrightarrow> usize_sub b m n = Some (m - n)"
  by (simp add: usize_sub_def)

lemma i64_add_ok [simp]: "i64_in_range (sint x + sint y) \<Longrightarrow> i64_add b x y = Some (x + y)"
  by (simp add: i64_add_def)

lemma i64_sub_ok [simp]: "i64_in_range (sint x - sint y) \<Longrightarrow> i64_sub b x y = Some (x - y)"
  by (simp add: i64_sub_def)

lemma release_simps [simp]:
  "debug_assert Release P = Some ()"
  "i64_add Release x y = Some (x + y)"
  "i64_sub Release x y = Some (x - y)"
  "u32_add Release v w = Some (v + w)"
  by (simp_all add: debug_assert_def i64_add_def i64_sub_def u32_add_def)

lemma u32_add_ok [simp]: "unat x + unat y < 2 ^ 32 \<Longrightarrow> u32_add b x y = Some (x + y)"
  by (simp add: u32_add_def)

text \<open>Emptying one slot lowers the number of slots with a property.\<close>

lemma filter_update_less:
  assumes "i < length xs" and "P (xs ! i)" and "\<not> P y"
  shows "length (filter P (xs[i := y])) < length (filter P xs)"
proof -
  have "filter P xs = filter P (take i xs) @ xs ! i # filter P (drop (Suc i) xs)"
    using assms(1,2) by (subst id_take_nth_drop [of i xs]) simp_all
  moreover have "filter P (xs[i := y]) = filter P (take i xs) @ filter P (drop (Suc i) xs)"
    using assms(1,3) by (simp add: upd_conv_take_nth_drop)
  ultimately show ?thesis by simp
qed

section \<open>Debug and release\<close>

text \<open>
  \<open>agrees x y\<close>: where \<open>x\<close> (a debug computation) does not panic, \<open>y\<close> (the release one)
  returns the same. The rules in \<open>build_mono\<close> follow the structure of a \<open>do\<close> block.
\<close>

definition agrees :: "'a option \<Rightarrow> 'a option \<Rightarrow> bool" where
  "agrees x y \<longleftrightarrow> (\<forall>r. x = Some r \<longrightarrow> y = Some r)"

lemma agrees_refl [build_mono]: "agrees x x"
  by (simp add: agrees_def)

lemma agrees_bind [build_mono]:
  assumes "agrees x y" and "\<And>r. agrees (f r) (g r)"
  shows "agrees (Option.bind x f) (Option.bind y g)"
  using assms by (cases x) (auto simp: agrees_def)

lemma agrees_if [build_mono]:
  "agrees x1 y1 \<Longrightarrow> agrees x2 y2 \<Longrightarrow> agrees (if c then x1 else x2) (if c then y1 else y2)"
  by simp

lemma agrees_Let [build_mono]:
  "(\<And>v. agrees (f v) (g v)) \<Longrightarrow> agrees (Let v f) (Let v g)"
  by simp

lemma agrees_case [build_mono]:
  "(\<And>a. agrees (f1 a) (f2 a)) \<Longrightarrow> (\<And>c. agrees (g1 c) (g2 c)) \<Longrightarrow>
     agrees (case_sum f1 g1 x) (case_sum f2 g2 x)"
  "agrees n1 n2 \<Longrightarrow> (\<And>a. agrees (h1 a) (h2 a)) \<Longrightarrow>
     agrees (case_option n1 h1 y) (case_option n2 h2 y)"
  "(\<And>a d. agrees (k1 a d) (k2 a d)) \<Longrightarrow> agrees (case_prod k1 z) (case_prod k2 z)"
  by (simp_all split: sum.split option.split prod.split)

lemma agrees_primitives [build_mono]:
  "agrees (debug_assert Debug P) (debug_assert Release P)"
  "agrees (i64_add Debug x y) (i64_add Release x y)"
  "agrees (i64_sub Debug x y) (i64_sub Release x y)"
  "agrees (usize_sub Debug m n) (usize_sub Release m n)"
  "agrees (u32_add Debug v w) (u32_add Release v w)"
  by (simp_all add: agrees_def debug_assert_def i64_add_def i64_sub_def usize_sub_def u32_add_def)

lemma agreesD: "agrees x y \<Longrightarrow> x = Some r \<Longrightarrow> y = Some r"
  by (simp add: agrees_def)

section \<open>Offsets between sequence numbers\<close>

lemma offset_pred: "m \<noteq> n \<Longrightarrow> unat (m - n) = Suc (unat (m - (n + 1)))" for m n :: seq_no
proof -
  assume "m \<noteq> n"
  then have "m - n \<noteq> 0" by simp
  then have "unat (m - n - 1) = unat (m - n) - 1" and "unat (m - n) \<noteq> 0"
    by (simp_all add: unat_minus_one unat_eq_0)
  then show ?thesis by (simp add: diff_diff_eq)
qed

lemma offset_of_nat: "k < 2 ^ 32 \<Longrightarrow> unat ((n :: seq_no) + of_nat k - n) = k"
  by (simp add: unat_u32_of_nat)

section \<open>Window addressing\<close>

text \<open>
  Both windows are arrays indexed by \<^verbatim>\<open>seq_no as usize % len\<close>. For an empty
  array the code's remainder panics; here the index is out of bounds and the access that
  follows panics.
\<close>

definition slot :: "nat \<Rightarrow> seq_no \<Rightarrow> nat" where
  "slot cap n = unat n mod cap"

lemma slot_code [code]: "slot cap n = nat (uint n mod int cap)"
  by (simp add: slot_def nat_mod_distrib)

text \<open>
  The addressing is a ring only when the capacity divides \<open>2 ^ 32\<close>, so that the index
  stays continuous where sequence numbers wrap around. The contract also bounds the capacity
  by \<open>2 ^ 31\<close>, the half range the code splits sequence numbers into.
\<close>

lemma mod_shift_inj:
  fixes a u v c :: nat
  assumes "(a + u) mod c = (a + v) mod c" and "u < c" and "v < c"
  shows "u = v"
proof (cases "u \<le> v")
  case True
  with assms(1) have "c dvd v - u"
    by (metis add_diff_cancel_left add_le_cancel_left mod_eq_dvd_iff_nat)
  with True assms(3) show ?thesis
    by (auto dest: dvd_imp_le)
next
  case False
  with assms(1) have "c dvd u - v"
    by (metis add_diff_cancel_left add_le_cancel_left mod_eq_dvd_iff_nat nat_le_linear)
  with False assms(2) show ?thesis
    by (auto dest: dvd_imp_le)
qed

locale window_ring =
  fixes cap :: nat
  assumes cap_ge: "2 \<le> cap"
    and cap_dvd: "cap dvd 2 ^ 32"
    and cap_le: "cap \<le> 2 ^ 31"
begin

lemma cap_pos: "0 < cap"
  using cap_ge by simp

lemma slot_less: "slot cap n < cap"
  using cap_pos by (simp add: slot_def)

lemma slot_add: "slot cap (n + of_nat i) = (slot cap n + i) mod cap"
proof -
  have "unat (n + of_nat i) = (unat n + i) mod 2 ^ 32"
    by (simp add: unat_word_ariths unat_of_nat mod_simps)
  then have "slot cap (n + of_nat i) = (unat n + i) mod 2 ^ 32 mod cap"
    by (simp add: slot_def)
  also have "\<dots> = (unat n + i) mod cap"
    using cap_dvd by (simp add: mod_mod_cancel)
  finally show ?thesis
    by (simp add: slot_def mod_add_left_eq)
qed

lemma slot_offset: "slot cap m = (slot cap n + unat (m - n)) mod cap"
  using slot_add [of n "unat (m - n)"] by simp

lemma slot_ahead:
  assumes "0 < i" and "i < cap"
  shows "slot cap (n + of_nat i) \<noteq> slot cap n"
proof
  assume "slot cap (n + of_nat i) = slot cap n"
  then have "(slot cap n + i) mod cap = (slot cap n + 0) mod cap"
    using slot_less [of n] by (simp add: slot_add)
  then have "i = 0"
    using assms(2) cap_pos by (rule mod_shift_inj)
  with assms(1) show False by simp
qed

lemma slot_inj_back:
  assumes "unat (n - x) < cap" and "unat (n - y) < cap" and "slot cap x = slot cap y"
  shows "x = y"
proof -
  have "(slot cap x + unat (n - x)) mod cap = (slot cap x + unat (n - y)) mod cap"
    using slot_offset [of n x] slot_offset [of n y] assms(3) by simp
  then have "unat (n - x) = unat (n - y)"
    using assms(1,2) by (rule mod_shift_inj)
  then have "n - x = n - y"
    by (rule word_unat_eq_iff [THEN iffD2])
  then show ?thesis by simp
qed

text \<open>Two sequence numbers of one window of length \<open>cap\<close> have different indices.\<close>

lemma slot_inj:
  assumes "unat (x - n) < cap" and "unat (y - n) < cap" and "slot cap x = slot cap y"
  shows "x = y"
proof -
  have "(slot cap n + unat (x - n)) mod cap = (slot cap n + unat (y - n)) mod cap"
    using assms(3) slot_offset by metis
  then have "unat (x - n) = unat (y - n)"
    using assms(1,2) by (rule mod_shift_inj)
  then have "x - n = y - n"
    by (rule word_unat_eq_iff [THEN iffD2])
  then show ?thesis by simp
qed

end

interpretation default_ring: window_ring 64
  by unfold_locales simp_all

end
