(* ===== verification/Transport_Layer.thy ===== *)
theory Transport_Layer
  imports Prelude
begin

text \<open>
  The packets that two peers exchange (\<^verbatim>\<open>src/transport_layer.rs\<close>): the
  \<^verbatim>\<open>Packet\<close> enum with its constructors and accessors, and the crate's default
  parameters. The \<^verbatim>\<open>TransportLayer\<close> trait is implemented by the user: where an
  operation reads \<^verbatim>\<open>tl.time()\<close> the model takes the time as an argument, and where
  it calls \<^verbatim>\<open>tl.send(p)\<close> the model returns the packet in the list of packets sent.
\<close>

section \<open>Defaults\<close>

definition DEFAULT_RESEND_INTERVAL_MS :: i64 where
  "DEFAULT_RESEND_INTERVAL_MS = 250"

definition DEFAULT_INITIAL_SEQ_NO :: seq_no where
  "DEFAULT_INITIAL_SEQ_NO = 0"

definition DEFAULT_WINDOW_CAP :: nat where
  "DEFAULT_WINDOW_CAP = 64"

section \<open>Packets\<close>

datatype 'd packet =
    Payload seq_no 'd
  | SeqCstPayload seq_no 'd
  | Reply seq_no seq_no 'd
  | SeqCstReply seq_no seq_no 'd
  | Ack seq_no

text \<open>\<^verbatim>\<open>Packet::new\<close>: the match arms in their order, \<open>None\<close> for the wildcard.\<close>

fun packet_new :: "seq_no option \<Rightarrow> seq_no option \<Rightarrow> bool \<Rightarrow> 'd option \<Rightarrow> 'd packet option" where
  "packet_new (Some s) None False (Some d) = Some (Payload s d)"
| "packet_new (Some s) None True (Some d) = Some (SeqCstPayload s d)"
| "packet_new (Some s) (Some r) False (Some d) = Some (Reply s r d)"
| "packet_new (Some s) (Some r) True (Some d) = Some (SeqCstReply s r d)"
| "packet_new None (Some r) False None = Some (Ack r)"
| "packet_new _ _ _ _ = None"

text \<open>\<^verbatim>\<open>new_with_data\<close> unwraps, so \<open>None\<close> here would be a panic.\<close>

definition new_with_data :: "seq_no \<Rightarrow> seq_no option \<Rightarrow> bool \<Rightarrow> 'd \<Rightarrow> 'd packet option" where
  "new_with_data s r c d = packet_new (Some s) r c (Some d)"

text \<open>
  A reference to data is modelled by the data it refers to, so \<^verbatim>\<open>as_ref\<close> rebuilds
  the packet around the same data.
\<close>

fun as_ref :: "'d packet \<Rightarrow> 'd packet" where
  "as_ref (Payload s d) = Payload s d"
| "as_ref (SeqCstPayload s d) = SeqCstPayload s d"
| "as_ref (Reply s r d) = Reply s r d"
| "as_ref (SeqCstReply s r d) = SeqCstReply s r d"
| "as_ref (Ack r) = Ack r"

fun packet_map :: "('d \<Rightarrow> 'e) \<Rightarrow> 'd packet \<Rightarrow> 'e packet" where
  "packet_map f (Payload s d) = Payload s (f d)"
| "packet_map f (SeqCstPayload s d) = SeqCstPayload s (f d)"
| "packet_map f (Reply s r d) = Reply s r (f d)"
| "packet_map f (SeqCstReply s r d) = SeqCstReply s r (f d)"
| "packet_map f (Ack r) = Ack r"

text \<open>\<^verbatim>\<open>cloned\<close> maps with the data's own \<^verbatim>\<open>clone\<close>, a parameter.\<close>

definition cloned :: "('d \<Rightarrow> 'd) \<Rightarrow> 'd packet \<Rightarrow> 'd packet" where
  "cloned clone p = packet_map clone p"

text \<open>A \<^verbatim>\<open>Result\<close> is a sum with \<^verbatim>\<open>Err\<close> on the left.\<close>

fun consume :: "'d packet \<Rightarrow> seq_no + 'd" where
  "consume (Payload _ d) = Inr d"
| "consume (SeqCstPayload _ d) = Inr d"
| "consume (Reply _ _ d) = Inr d"
| "consume (SeqCstReply _ _ d) = Inr d"
| "consume (Ack r) = Inl r"

definition payload :: "'d packet \<Rightarrow> 'd option" where
  "payload p = (case consume p of Inr d \<Rightarrow> Some d | Inl _ \<Rightarrow> None)"

fun is_seq_cst :: "'d packet \<Rightarrow> bool" where
  "is_seq_cst (SeqCstPayload _ _) = True"
| "is_seq_cst (SeqCstReply _ _ _) = True"
| "is_seq_cst _ = False"

fun set_seq_cst :: "'d packet \<Rightarrow> bool \<Rightarrow> 'd packet" where
  "set_seq_cst (Payload s d) c = (if c then SeqCstPayload s d else Payload s d)"
| "set_seq_cst (SeqCstPayload s d) c = (if c then SeqCstPayload s d else Payload s d)"
| "set_seq_cst (Reply s r d) c = (if c then SeqCstReply s r d else Reply s r d)"
| "set_seq_cst (SeqCstReply s r d) c = (if c then SeqCstReply s r d else Reply s r d)"
| "set_seq_cst (Ack r) c = Ack r"

section \<open>The raw parts of a packet\<close>

text \<open>
  Two projections that the code does not have, to state what \<^verbatim>\<open>Packet::new\<close>
  promises: with \<open>is_seq_cst\<close> and \<open>payload\<close> they take a packet apart.
\<close>

fun seq_part :: "'d packet \<Rightarrow> seq_no option" where
  "seq_part (Payload s _) = Some s"
| "seq_part (SeqCstPayload s _) = Some s"
| "seq_part (Reply s _ _) = Some s"
| "seq_part (SeqCstReply s _ _) = Some s"
| "seq_part (Ack _) = None"

fun reply_part :: "'d packet \<Rightarrow> seq_no option" where
  "reply_part (Payload _ _) = None"
| "reply_part (SeqCstPayload _ _) = None"
| "reply_part (Reply _ r _) = Some r"
| "reply_part (SeqCstReply _ r _) = Some r"
| "reply_part (Ack r) = Some r"

lemma payload_simps [simp]:
  "payload (Payload s d) = Some d"
  "payload (SeqCstPayload s d) = Some d"
  "payload (Reply s r d) = Some d"
  "payload (SeqCstReply s r d) = Some d"
  "payload (Ack r) = None"
  by (simp_all add: payload_def)

lemma packet_eq_parts:
  "p = q \<longleftrightarrow> seq_part p = seq_part q \<and> reply_part p = reply_part q
     \<and> is_seq_cst p = is_seq_cst q \<and> payload p = payload q"
  by (cases p; cases q) auto

lemma packet_new_of_parts:
  "packet_new (seq_part p) (reply_part p) (is_seq_cst p) (payload p) = Some p"
  by (cases p) simp_all

lemma packet_new_parts:
  "packet_new s r c d = Some p \<Longrightarrow>
     seq_part p = s \<and> reply_part p = r \<and> is_seq_cst p = c \<and> payload p = d"
  by (induction s r c d rule: packet_new.induct) auto

lemma set_seq_cst_parts [simp]:
  "seq_part (set_seq_cst p c) = seq_part p"
  "reply_part (set_seq_cst p c) = reply_part p"
  "payload (set_seq_cst p c) = payload p"
  "is_seq_cst (set_seq_cst p c) = (c \<and> payload p \<noteq> None)"
  by (cases p; simp)+

lemma packet_map_parts [simp]:
  "seq_part (packet_map f p) = seq_part p"
  "reply_part (packet_map f p) = reply_part p"
  "is_seq_cst (packet_map f p) = is_seq_cst p"
  "payload (packet_map f p) = map_option f (payload p)"
  by (cases p; simp)+

section \<open>Properties\<close>

text \<open>
  C40. \<^verbatim>\<open>Packet::new\<close> is a bijection between the raw parts it accepts and the packets:
  it returns \<open>p\<close> exactly on the parts of \<open>p\<close>, so no packet is built from two different sets
  of parts and every packet is built from its own.
\<close>

theorem packet_new_iff_parts:
  "packet_new s r c d = Some p \<longleftrightarrow>
     seq_part p = s \<and> reply_part p = r \<and> is_seq_cst p = c \<and> payload p = d"
  using packet_new_of_parts [of p] packet_new_parts [of s r c d p] by auto

text \<open>
  \<^verbatim>\<open>new_with_data\<close> never panics: whatever its arguments, its
  \<^verbatim>\<open>unwrap\<close> succeeds, and the packet is a payload exactly when \<open>reply_no\<close> is
  absent and a reply exactly when it is present (the comment above the function says the reverse),
  with \<^verbatim>\<open>set_seq_cst\<close> giving the same packet as the flag.
\<close>

theorem new_with_data_total:
  "new_with_data s r c d =
     Some (set_seq_cst (case r of None \<Rightarrow> Payload s d | Some r' \<Rightarrow> Reply s r' d) c)"
  by (cases r; cases c) (simp_all add: new_with_data_def)

end
