(* ===== verification/Seq_Types.thy ===== *)
theory Seq_Types
  imports Transport_Layer
begin

text \<open>
  The data of the low-level instance (\<^verbatim>\<open>src/no_std.rs\<close>): send and receive window
  entries, the \<^verbatim>\<open>SeqEx\<close> struct, its constructor, and the iterators over the send
  window. Operations on the struct are in the theories that follow.
\<close>

section \<open>Entries\<close>

datatype 'r recv_entry =
    Occupied (re_seq_no: seq_no) (re_reply_no: "seq_no option") (re_seq_cst: bool) (re_data: 'r)
  | Unlocked (re_seq_no: seq_no)
  | Empty

record 's send_entry =
  entry_seq_no :: seq_no
  entry_reply_no :: "seq_no option"
  entry_seq_cst :: bool
  next_resend_time :: i64
  entry_data :: 's

definition to_packet :: "'s send_entry \<Rightarrow> 's packet" where
  "to_packet e =
     (let p = (case entry_reply_no e of
                 Some reply_no \<Rightarrow> Reply (entry_seq_no e) reply_no (entry_data e)
               | None \<Rightarrow> Payload (entry_seq_no e) (entry_data e))
      in set_seq_cst p (entry_seq_cst e))"

text \<open>What a receive hands to the caller: \<^verbatim>\<open>RecvOkRaw\<close>.\<close>

datatype ('s, 'r) recv_ok_raw =
    RawPayload (raw_reply_no: seq_no) (raw_seq_cst: bool) (raw_recv_data: 'r)
  | RawReply (raw_reply_no: seq_no) (raw_seq_cst: bool) (raw_recv_data: 'r) (raw_send_data: 's)
  | RawAck (raw_send_data: 's)

datatype try_error = WaitingForRecv | WaitingForReply

datatype try_raw_recv_error =
    RawDroppedTooEarly
  | RawDroppedDuplicate
  | RawDroppedDuplicateResendAck seq_no
  | RawWaitingForRecv
  | RawWaitingForReply

section \<open>The instance\<close>

text \<open>
  The const generic \<^verbatim>\<open>CAP\<close> is the length of the three arrays. Slots of
  \<open>concurrent_replies\<close> at and above \<open>concurrent_replies_total\<close> are stale.
\<close>

record ('s, 'r) seqex =
  resend_interval :: i64
  next_service_timestamp :: i64
  next_send_seq_no :: seq_no
  next_recv_seq_no :: seq_no
  send_window :: "'s send_entry option list"
  recv_window :: "'r recv_entry list"
  concurrent_replies :: "seq_no list"
  concurrent_replies_total :: nat
  is_locked :: bool

record service_iter =
  iter_seq_no :: seq_no
  iter_next_time :: i64

definition new_seqex :: "build \<Rightarrow> nat \<Rightarrow> i64 \<Rightarrow> seq_no \<Rightarrow> ('s, 'r) seqex option" where
  "new_seqex b cap retry_interval initial_seq_no = do {
     debug_assert b (1 < cap);
     Some \<lparr> resend_interval = retry_interval,
            next_service_timestamp = i64_max,
            next_send_seq_no = initial_seq_no,
            next_recv_seq_no = initial_seq_no,
            send_window = replicate cap None,
            recv_window = replicate cap Empty,
            concurrent_replies = replicate cap 0,
            concurrent_replies_total = 0,
            is_locked = False \<rparr>
   }"

definition default_seqex :: "build \<Rightarrow> nat \<Rightarrow> ('s, 'r) seqex option" where
  "default_seqex b cap = new_seqex b cap DEFAULT_RESEND_INTERVAL_MS DEFAULT_INITIAL_SEQ_NO"

definition seq_no_of :: "('s, 'r) seqex \<Rightarrow> seq_no" where
  "seq_no_of s = next_send_seq_no s"

section \<open>Iterators over the send window\<close>

text \<open>
  A slice iterator is the list of elements it has still to yield: \<^verbatim>\<open>next\<close> takes
  from the front, \<^verbatim>\<open>next_back\<close> from the back, and both skip empty slots.
\<close>

type_synonym 's seq_iter = "'s send_entry option list"

definition iter :: "('s, 'r) seqex \<Rightarrow> 's seq_iter" where
  "iter s = send_window s"

fun iter_next :: "'s seq_iter \<Rightarrow> 's option \<times> 's seq_iter" where
  "iter_next [] = (None, [])"
| "iter_next (Some e # es) = (Some (entry_data e), es)"
| "iter_next (None # es) = iter_next es"

function iter_next_back :: "'s seq_iter \<Rightarrow> 's option \<times> 's seq_iter" where
  "iter_next_back es =
     (if es = [] then (None, [])
      else case last es of
             Some e \<Rightarrow> (Some (entry_data e), butlast es)
           | None \<Rightarrow> iter_next_back (butlast es))"
  by pat_completeness auto
termination
  by (relation "measure length") auto

declare iter_next_back.simps [simp del]

text \<open>A \<^verbatim>\<open>for\<close> loop over an iterator calls \<^verbatim>\<open>next\<close> until it is \<open>None\<close>.\<close>

lemma iter_next_length: "iter_next es = (Some d, es') \<Longrightarrow> length es' < length es"
  by (induction es rule: iter_next.induct) auto

function iter_collect :: "'s seq_iter \<Rightarrow> 's list" where
  "iter_collect es =
     (case iter_next es of (None, _) \<Rightarrow> [] | (Some d, es') \<Rightarrow> d # iter_collect es')"
  by pat_completeness auto
termination
  by (relation "measure length") (auto dest: iter_next_length [OF sym])

declare iter_collect.simps [simp del]

text \<open>The entries in the window, in slot order.\<close>

definition entries :: "'s send_entry option list \<Rightarrow> 's send_entry list" where
  "entries w = concat (map (\<lambda>x. case x of Some e \<Rightarrow> [e] | None \<Rightarrow> []) w)"

lemma entries_simps [simp]:
  "entries [] = []"
  "entries (None # w) = entries w"
  "entries (Some e # w) = e # entries w"
  "entries (v @ w) = entries v @ entries w"
  by (simp_all add: entries_def)

lemma set_entries: "set (entries w) = {e. Some e \<in> set w}"
  by (induction w) (auto simp: entries_def split: option.splits)

lemma iter_collect_Nil [simp]: "iter_collect [] = []"
  by (simp add: iter_collect.simps)

lemma iter_collect_Cons:
  "iter_collect (None # es) = iter_collect es"
  "iter_collect (Some e # es) = entry_data e # iter_collect es"
  by (simp_all add: iter_collect.simps [of "None # es"] iter_collect.simps [of "Some e # es"]
      iter_collect.simps [of es])

lemma iter_collect_entries: "iter_collect es = map entry_data (entries es)"
proof (induction es)
  case (Cons x es)
  then show ?case by (cases x) (simp_all add: iter_collect_Cons)
qed simp

lemma iter_next_back_snoc:
  "iter_next_back [] = (None, [])"
  "iter_next_back (es @ [None]) = iter_next_back es"
  "iter_next_back (es @ [Some e]) = (Some (entry_data e), es)"
  by (simp_all add: iter_next_back.simps [of "[]"] iter_next_back.simps [of "es @ [None]"]
      iter_next_back.simps [of "es @ [Some e]"])

lemma iter_next_back_rev:
  "iter_next_back es = (case iter_next (rev es) of (d, rest) \<Rightarrow> (d, rev rest))"
proof (induction es rule: rev_induct)
  case Nil
  show ?case by (simp add: iter_next_back_snoc)
next
  case (snoc x es)
  then show ?case by (cases x) (simp_all add: iter_next_back_snoc)
qed

end
