(* ===== verification/Window_Inv.thy ===== *)
theory Window_Inv
  imports Seq_Types
begin

text \<open>
  What holds of an instance between two calls: the shape of its arrays, where the entries of the
  two windows lie and how far their sequence numbers are from the next ones, and the free send
  slots that the issued reply numbers have reserved. The abstract views of the windows that the
  refinement lemmas speak of are here too.
\<close>

section \<open>Invariants\<close>

abbreviation cap_of :: "('s, 'r) seqex \<Rightarrow> nat" where
  "cap_of s \<equiv> length (send_window s)"

definition shape :: "('s, 'r) seqex \<Rightarrow> bool" where
  "shape s \<longleftrightarrow> window_ring (cap_of s) \<and> length (recv_window s) = cap_of s
     \<and> length (concurrent_replies s) = cap_of s"

text \<open>Every unacknowledged packet is among the last \<open>cap\<close> sent, in its own slot.\<close>

definition send_ok :: "('s, 'r) seqex \<Rightarrow> bool" where
  "send_ok s \<longleftrightarrow> (\<forall>i < cap_of s. \<forall>e. send_window s ! i = Some e \<longrightarrow>
     slot (cap_of s) (entry_seq_no e) = i
     \<and> unat (next_send_seq_no s - 1 - entry_seq_no e) < cap_of s)"

text \<open>Every received entry is among the \<open>cap\<close> sequence numbers expected next, in its own slot.\<close>

definition recv_ok :: "('s, 'r) seqex \<Rightarrow> bool" where
  "recv_ok s \<longleftrightarrow> (\<forall>i < length (recv_window s). recv_window s ! i \<noteq> Empty \<longrightarrow>
     slot (length (recv_window s)) (re_seq_no (recv_window s ! i)) = i
     \<and> unat (re_seq_no (recv_window s ! i) - next_recv_seq_no s) < length (recv_window s))"

fun is_unlocked :: "'r recv_entry \<Rightarrow> bool" where
  "is_unlocked (Unlocked _) = True"
| "is_unlocked _ = False"

fun is_occupied :: "'r recv_entry \<Rightarrow> bool" where
  "is_occupied (Occupied _ _ _ _) = True"
| "is_occupied _ = False"

text \<open>The entry of the next expected packet.\<close>

definition recv_head :: "('s, 'r) seqex \<Rightarrow> 'r recv_entry" where
  "recv_head s = recv_window s ! slot (length (recv_window s)) (next_recv_seq_no s)"

definition head_ok :: "('s, 'r) seqex \<Rightarrow> bool" where
  "head_ok s \<longleftrightarrow> \<not> is_unlocked (recv_head s)"

text \<open>
  Each issued reply number has a free slot ahead of \<open>next_send_seq_no\<close>, and at most
  \<open>cap - 2\<close> are issued.
\<close>

definition reserved_ok :: "('s, 'r) seqex \<Rightarrow> bool" where
  "reserved_ok s \<longleftrightarrow> concurrent_replies_total s + 2 \<le> cap_of s
     \<and> (\<forall>i < concurrent_replies_total s.
          send_window s ! slot (cap_of s) (next_send_seq_no s + of_nat i) = None)"

definition seq_inv :: "('s, 'r) seqex \<Rightarrow> bool" where
  "seq_inv s \<longleftrightarrow> shape s \<and> send_ok s \<and> recv_ok s \<and> head_ok s \<and> reserved_ok s"

lemma wf_parts:
  assumes "seq_inv s"
  shows "shape s" and "send_ok s" and "recv_ok s" and "head_ok s" and "reserved_ok s"
  using assms by (simp_all add: seq_inv_def)

lemma wfI:
  "shape s \<Longrightarrow> send_ok s \<Longrightarrow> recv_ok s \<Longrightarrow> head_ok s \<Longrightarrow> reserved_ok s \<Longrightarrow> seq_inv s"
  by (simp add: seq_inv_def)

text \<open>
  The part that no packet can break, whatever a peer sends: the arrays keep their shape, the
  receive window stays in range, and the number of issued reply numbers stays below the capacity.
\<close>

definition core_inv :: "('s, 'r) seqex \<Rightarrow> bool" where
  "core_inv s \<longleftrightarrow> shape s \<and> recv_ok s \<and> head_ok s \<and> concurrent_replies_total s + 2 \<le> cap_of s"

lemma core_parts:
  assumes "core_inv s"
  shows "shape s" and "recv_ok s" and "head_ok s" and "concurrent_replies_total s + 2 \<le> cap_of s"
    and "concurrent_replies_total s \<le> cap_of s"
  using assms by (simp_all add: core_inv_def)

lemma seq_inv_core [simp]: "seq_inv s \<Longrightarrow> core_inv s"
  by (simp add: seq_inv_def core_inv_def reserved_ok_def)

lemma shape_ring: "shape s \<Longrightarrow> window_ring (cap_of s)"
  by (simp add: shape_def)

lemma shape_lengths:
  assumes "shape s"
  shows "length (recv_window s) = cap_of s" and "length (concurrent_replies s) = cap_of s"
  using assms by (simp_all add: shape_def)

lemma shape_bounds:
  assumes "shape s"
  shows "2 \<le> cap_of s" and "cap_of s \<le> 2 ^ 31" and "0 < cap_of s"
    and "slot (cap_of s) n < cap_of s"
  using assms window_ring.slot_less [of "cap_of s" n] window_ring.cap_pos [of "cap_of s"]
  by (auto simp: shape_def window_ring_def)

lemma send_okD:
  assumes "send_ok s" and "i < cap_of s" and "send_window s ! i = Some e"
  shows "slot (cap_of s) (entry_seq_no e) = i"
    and "unat (next_send_seq_no s - 1 - entry_seq_no e) < cap_of s"
  using assms by (auto simp: send_ok_def)

text \<open>Each invariant reads only some of the fields.\<close>

lemma shape_cong:
  "cap_of t = cap_of s \<Longrightarrow> length (recv_window t) = length (recv_window s) \<Longrightarrow>
   length (concurrent_replies t) = length (concurrent_replies s) \<Longrightarrow> shape t = shape s"
  by (simp add: shape_def)

lemma recv_cong:
  assumes "recv_window t = recv_window s" and "next_recv_seq_no t = next_recv_seq_no s"
  shows "recv_ok t = recv_ok s" and "head_ok t = head_ok s" and "recv_head t = recv_head s"
  using assms by (simp_all add: recv_ok_def head_ok_def recv_head_def)

lemma core_cong:
  fixes s t :: "('s, 'r) seqex"
  assumes "core_inv s" and "recv_window t = recv_window s" and "next_recv_seq_no t = next_recv_seq_no s"
    and "cap_of t = cap_of s" and "length (concurrent_replies t) = length (concurrent_replies s)"
    and "concurrent_replies_total t + 2 \<le> cap_of s"
  shows "core_inv t"
  using assms by (simp add: core_inv_def shape_def recv_cong [of t s])

lemma send_cong:
  assumes "send_window t = send_window s" and "next_send_seq_no t = next_send_seq_no s"
  shows "send_ok t = send_ok s"
  using assms by (simp add: send_ok_def)

section \<open>Abstract views\<close>

text \<open>
  The send window as a map from the sequence numbers of unacknowledged packets to their entries.
\<close>

definition sent :: "('s, 'r) seqex \<Rightarrow> seq_no \<Rightarrow> 's send_entry option" where
  "sent s r = (case send_window s ! slot (cap_of s) r of
                 Some e \<Rightarrow> if entry_seq_no e = r then Some e else None
               | None \<Rightarrow> None)"

text \<open>The issued reply numbers as a multiset.\<close>

definition reserved :: "('s, 'r) seqex \<Rightarrow> seq_no multiset" where
  "reserved s = mset (take (concurrent_replies_total s) (concurrent_replies s))"

text \<open>The receive window as a map from sequence numbers to non-empty entries.\<close>

definition received :: "('s, 'r) seqex \<Rightarrow> seq_no \<Rightarrow> 'r recv_entry option" where
  "received s n = (let x = recv_window s ! slot (length (recv_window s)) n in
     if x \<noteq> Empty \<and> re_seq_no x = n then Some x else None)"

lemma sent_SomeD:
  "sent s r = Some e \<Longrightarrow> send_window s ! slot (cap_of s) r = Some e \<and> entry_seq_no e = r"
  by (auto simp: sent_def split: option.splits if_splits)

lemma size_reserved:
  "shape s \<Longrightarrow> reserved_ok s \<Longrightarrow> size (reserved s) = concurrent_replies_total s"
  by (simp add: reserved_def shape_def reserved_ok_def)

lemma received_cong:
  "recv_window t = recv_window s \<Longrightarrow> received t = received s"
  by (simp add: received_def fun_eq_iff)

section \<open>The initial state\<close>

lemma new_seqex_Some:
  "1 < cap \<Longrightarrow> new_seqex b cap iv n =
     Some \<lparr> resend_interval = iv, next_service_timestamp = i64_max,
            next_send_seq_no = n, next_recv_seq_no = n,
            send_window = replicate cap None, recv_window = replicate cap Empty,
            concurrent_replies = replicate cap 0, concurrent_replies_total = 0,
            is_locked = False \<rparr>"
  by (simp add: new_seqex_def)

lemma new_seqex_wf:
  assumes "window_ring cap" and "new_seqex b cap iv n = Some s"
  shows "seq_inv s"
proof -
  from assms(1) have "1 < cap" and "0 < cap"
    by (auto simp: window_ring_def)
  with assms show ?thesis
    by (auto simp: new_seqex_Some seq_inv_def shape_def send_ok_def recv_ok_def head_ok_def
        recv_head_def reserved_ok_def window_ring_def slot_def)
qed

lemma new_seqex_views:
  assumes "0 < cap" and "new_seqex b cap iv n = Some s"
  shows "sent s = Map.empty" and "reserved s = {#}" and "received s = Map.empty"
    and "is_locked s = False" and "next_recv_seq_no s = n" and "next_send_seq_no s = n"
  using assms
  by (auto simp: new_seqex_def debug_assert_def sent_def reserved_def received_def slot_def
      fun_eq_iff split: if_splits)

section \<open>Concrete instances\<close>

text \<open>
  A new instance holding numbers, with a resend interval of 250 and sequence numbers from 0: the
  concrete state that the witnesses start from.
\<close>

definition fresh :: "nat \<Rightarrow> (nat, nat) seqex" where
  "fresh cap = the (new_seqex Release cap 250 0)"

lemma fresh_new: "1 < cap \<Longrightarrow> new_seqex b cap 250 0 = Some (fresh cap)"
  by (simp add: fresh_def new_seqex_Some)

lemma fresh_new_small:
  "new_seqex b 4 250 0 = Some (fresh 4)" "new_seqex b 8 250 0 = Some (fresh 8)"
  by (rule fresh_new, simp)+

lemma small_rings: "window_ring 4" "window_ring 8"
  by unfold_locales simp_all

lemma fresh_inv: "seq_inv (fresh 4)" "seq_inv (fresh 8)"
  by (rule new_seqex_wf [OF _ fresh_new [where b = Release]]; simp add: small_rings)+

end
