(* ===== verification/Send_Window.thy ===== *)
theory Send_Window
  imports Window_Inv
begin

text \<open>
  Sending and acknowledging on the low-level instance: the fullness test that protects the slots
  reserved for replies, taking an acknowledged packet out of the send window, and
  \<^verbatim>\<open>try_send_direct\<close> with its closure variant.
\<close>

section \<open>Operations\<close>

definition send_window_slot :: "('s, 'r) seqex \<Rightarrow> seq_no \<Rightarrow> nat" where
  "send_window_slot s n = slot (cap_of s) n"

text \<open>
  The loop of \<^verbatim>\<open>is_full_inner\<close> from index \<open>i\<close>, with \<open>k\<close> iterations left.
\<close>

fun is_full_loop ::
  "'s send_entry option list \<Rightarrow> nat \<Rightarrow> seq_no \<Rightarrow> nat \<Rightarrow> nat \<Rightarrow> (try_error + unit) option" where
  "is_full_loop w reply_idx n i 0 = Some (Inr ())"
| "is_full_loop w reply_idx n i (Suc k) = do {
     let idx = slot (length w) (n + of_nat i);
     x \<leftarrow> arr_get w idx;
     if x \<noteq> None \<and> reply_idx \<noteq> idx
     then Some (Inl (if i = 0 then WaitingForRecv else WaitingForReply))
     else is_full_loop w reply_idx n (Suc i) k
   }"

definition is_full_inner ::
  "build \<Rightarrow> ('s, 'r) seqex \<Rightarrow> seq_no option \<Rightarrow> (try_error + unit) option" where
  "is_full_inner b s reply_no = do {
     limit \<leftarrow> usize_sub b (length (concurrent_replies s)) 2;
     if limit \<le> concurrent_replies_total s then Some (Inl WaitingForReply)
     else do {
       let reply_idx = (case reply_no of None \<Rightarrow> cap_of s | Some r \<Rightarrow> slot (cap_of s) r);
       n \<leftarrow> u32_add b 1 (u32_of_usize (concurrent_replies_total s));
       is_full_loop (send_window s) reply_idx (next_send_seq_no s) 0 (unat n)
     }
   }"

definition take_send :: "seq_no \<Rightarrow> ('s, 'r) seqex \<Rightarrow> ('s option \<times> ('s, 'r) seqex) option" where
  "take_send reply_no s = do {
     let i = send_window_slot s reply_no;
     x \<leftarrow> arr_get (send_window s) i;
     case x of
       Some e \<Rightarrow>
         if entry_seq_no e = reply_no
         then Some (Some (entry_data e), s\<lparr>send_window := (send_window s)[i := None]\<rparr>)
         else Some (None, s)
     | None \<Rightarrow> Some (None, s)
   }"

text \<open>\<^verbatim>\<open>next_service_timestamp\<close> after a packet is to be resent at time \<open>t\<close>.\<close>

definition lower_timestamp :: "i64 \<Rightarrow> ('s, 'r) seqex \<Rightarrow> ('s, 'r) seqex" where
  "lower_timestamp t s =
     (if sint t < sint (next_service_timestamp s) then s\<lparr>next_service_timestamp := t\<rparr> else s)"

text \<open>
  The closure is called with the sequence number only when the packet is sent; otherwise it is
  handed back. On success the packet is returned for the caller to put on the wire.
\<close>

definition try_send_direct_with ::
  "build \<Rightarrow> i64 \<Rightarrow> bool \<Rightarrow> (seq_no \<Rightarrow> 's) \<Rightarrow> ('s, 'r) seqex \<Rightarrow>
   (((try_error \<times> (seq_no \<Rightarrow> 's)) + 's packet) \<times> ('s, 'r) seqex) option" where
  "try_send_direct_with b current_time seq_cst f s = do {
     full \<leftarrow> is_full_inner b s None;
     case full of
       Inl e \<Rightarrow> Some (Inl (e, f), s)
     | Inr _ \<Rightarrow> do {
         let seq_no = next_send_seq_no s;
         let s = s\<lparr>next_send_seq_no := next_send_seq_no s + 1\<rparr>;
         resend_time \<leftarrow> i64_add b current_time (resend_interval s);
         let s = lower_timestamp resend_time s;
         let i = send_window_slot s seq_no;
         x \<leftarrow> arr_get (send_window s) i;
         debug_assert b (x = None);
         let entry = \<lparr> entry_seq_no = seq_no, entry_reply_no = None, entry_seq_cst = seq_cst,
                       next_resend_time = resend_time, entry_data = f seq_no \<rparr>;
         Some (Inr (to_packet entry), s\<lparr>send_window := (send_window s)[i := Some entry]\<rparr>)
       }
   }"

definition try_send_direct ::
  "build \<Rightarrow> i64 \<Rightarrow> bool \<Rightarrow> 's \<Rightarrow> ('s, 'r) seqex \<Rightarrow>
   (((try_error \<times> 's) + 's packet) \<times> ('s, 'r) seqex) option" where
  "try_send_direct b current_time seq_cst packet_data s = do {
     (res, s) \<leftarrow> try_send_direct_with b current_time seq_cst (\<lambda>_. packet_data) s;
     case res of
       Inr p \<Rightarrow> Some (Inr p, s)
     | Inl (e, _) \<Rightarrow> Some (Inl (e, packet_data), s)
   }"

section \<open>The fullness test\<close>

text \<open>
  Slot \<open>next_send_seq_no + i\<close> is blocked for a packet that replies to \<open>ro\<close>: it holds an entry,
  and not at the index of \<open>ro\<close>.
\<close>

definition blocked :: "('s, 'r) seqex \<Rightarrow> seq_no option \<Rightarrow> nat \<Rightarrow> bool" where
  "blocked s ro i \<longleftrightarrow> send_window s ! slot (cap_of s) (next_send_seq_no s + of_nat i) \<noteq> None
     \<and> (case ro of None \<Rightarrow> True
        | Some r \<Rightarrow> slot (cap_of s) r \<noteq> slot (cap_of s) (next_send_seq_no s + of_nat i))"

definition room :: "('s, 'r) seqex \<Rightarrow> seq_no option \<Rightarrow> bool" where
  "room s ro \<longleftrightarrow> concurrent_replies_total s + 2 < cap_of s
     \<and> (\<forall>i \<le> concurrent_replies_total s. \<not> blocked s ro i)"

lemma room_code [code]:
  "room s ro = (concurrent_replies_total s + 2 < cap_of s
     \<and> list_all (\<lambda>i. \<not> blocked s ro i) [0..<Suc (concurrent_replies_total s)])"
  by (auto simp: room_def list_all_iff)

definition blk :: "'s send_entry option list \<Rightarrow> nat \<Rightarrow> seq_no \<Rightarrow> nat \<Rightarrow> bool" where
  "blk w reply_idx n j \<longleftrightarrow> w ! slot (length w) (n + of_nat j) \<noteq> None
     \<and> reply_idx \<noteq> slot (length w) (n + of_nat j)"

lemma is_full_loop_Suc:
  "0 < length w \<Longrightarrow> is_full_loop w ridx n i (Suc k) =
     (if blk w ridx n i then Some (Inl (if i = 0 then WaitingForRecv else WaitingForReply))
      else is_full_loop w ridx n (Suc i) k)"
  by (simp add: blk_def slot_def)

lemma is_full_loop_free:
  "0 < length w \<Longrightarrow> (\<And>j. j < k \<Longrightarrow> \<not> blk w ridx n (i + j)) \<Longrightarrow>
   is_full_loop w ridx n i k = Some (Inr ())"
proof (induction k arbitrary: i)
  case (Suc k)
  then have "\<not> blk w ridx n i" and "\<And>j. j < k \<Longrightarrow> \<not> blk w ridx n (Suc i + j)"
    by (metis add_0_right zero_less_Suc, metis Suc_less_eq add_Suc_shift)
  with Suc.IH [of "Suc i"] Suc.prems(1) show ?case
    by (simp del: is_full_loop.simps(2) add: is_full_loop_Suc)
qed simp

lemma is_full_loop_later:
  "0 < length w \<Longrightarrow> 0 < i \<Longrightarrow> j < k \<Longrightarrow> blk w ridx n (i + j) \<Longrightarrow>
   is_full_loop w ridx n i k = Some (Inl WaitingForReply)"
proof (induction k arbitrary: i j)
  case (Suc k)
  show ?case
  proof (cases "blk w ridx n i")
    case False
    with Suc.prems(4) obtain j' where "j = Suc j'"
      by (cases j) auto
    with Suc.prems False Suc.IH [of "Suc i" j'] show ?thesis
      by (simp only: is_full_loop_Suc if_False) simp
  qed (use Suc.prems in \<open>simp only: is_full_loop_Suc, simp\<close>)
qed simp

lemma blk_blocked:
  assumes "0 < cap_of s"
  shows "blk (send_window s) (case ro of None \<Rightarrow> cap_of s | Some r \<Rightarrow> slot (cap_of s) r)
           (next_send_seq_no s) j \<longleftrightarrow> blocked s ro j"
proof -
  have "slot (cap_of s) n < cap_of s" for n
    using assms by (simp add: slot_def)
  then show ?thesis
    by (auto simp: blk_def blocked_def split: option.splits) (metis less_irrefl)
qed

text \<open>
  The test in one equation: it does not panic, it succeeds exactly when there is room, and its
  error says whether the slot of the next packet itself is taken.
\<close>

lemma is_full_inner_eq:
  assumes "shape s"
  shows "is_full_inner b s ro = Some
    (if cap_of s \<le> concurrent_replies_total s + 2 then Inl WaitingForReply
     else if blocked s ro 0 then Inl WaitingForRecv
     else if room s ro then Inr () else Inl WaitingForReply)"
proof (cases "cap_of s \<le> concurrent_replies_total s + 2")
  case True
  with assms shape_bounds [OF assms] show ?thesis
    by (simp add: is_full_inner_def shape_lengths) arith
next
  case False
  let ?t = "concurrent_replies_total s"
  let ?ridx = "case ro of None \<Rightarrow> cap_of s | Some r \<Rightarrow> slot (cap_of s) r"
  let ?loop = "is_full_loop (send_window s) ?ridx (next_send_seq_no s)"
  note bounds = shape_bounds [OF assms]
  from False bounds have t: "1 + ?t < 2 ^ 32" by simp
  then have n: "u32_add b 1 (u32_of_usize ?t) = Some (of_nat (Suc ?t))"
    by (simp add: u32_of_usize_def unat_of_nat)
  from t have un: "unat (of_nat (Suc ?t) :: u32) = Suc ?t"
    by (simp add: unat_of_nat del: of_nat_Suc)
  from False have lim: "\<not> cap_of s - 2 \<le> ?t" by simp
  have "is_full_inner b s ro = ?loop 0 (Suc ?t)"
    using lim assms bounds(1) n un
    by (simp add: is_full_inner_def shape_lengths del: is_full_loop.simps)
  also have "\<dots> = Some (if blocked s ro 0 then Inl WaitingForRecv
     else if room s ro then Inr () else Inl WaitingForReply)"
  proof (cases "blocked s ro 0")
    case True
    then show ?thesis
      using bounds by (simp only: is_full_loop_Suc blk_blocked) simp
  next
    case nb: False
    show ?thesis
    proof (cases "room s ro")
      case True
      then have "?loop 0 (Suc ?t) = Some (Inr ())"
        using bounds by (intro is_full_loop_free) (simp_all add: blk_blocked room_def)
      with True nb show ?thesis by simp
    next
      case nr: False
      with False nb obtain i where "i \<le> ?t" and "blocked s ro i" and "0 < i"
        by (auto simp: room_def intro: gr0I)
      then have "?loop (Suc 0) ?t = Some (Inl WaitingForReply)"
        using bounds by (intro is_full_loop_later [where j = "i - 1"]) (simp_all add: blk_blocked)
      with nb nr bounds show ?thesis
        by (simp add: is_full_loop_Suc blk_blocked del: is_full_loop.simps(2))
    qed
  qed
  finally show ?thesis using False by simp
qed

section \<open>Taking and adding entries\<close>

definition drop_sent :: "seq_no \<Rightarrow> ('s, 'r) seqex \<Rightarrow> ('s, 'r) seqex" where
  "drop_sent r s =
     (if sent s r = None then s
      else s\<lparr>send_window := (send_window s)[slot (cap_of s) r := None]\<rparr>)"

lemma take_send_eq:
  "shape s \<Longrightarrow> take_send r s = Some (map_option entry_data (sent s r), drop_sent r s)"
  by (auto simp: take_send_def send_window_slot_def drop_sent_def sent_def shape_bounds
      split: option.splits)

lemma drop_sent_fields [simp]:
  "resend_interval (drop_sent r s) = resend_interval s"
  "next_service_timestamp (drop_sent r s) = next_service_timestamp s"
  "next_send_seq_no (drop_sent r s) = next_send_seq_no s"
  "next_recv_seq_no (drop_sent r s) = next_recv_seq_no s"
  "recv_window (drop_sent r s) = recv_window s"
  "concurrent_replies (drop_sent r s) = concurrent_replies s"
  "concurrent_replies_total (drop_sent r s) = concurrent_replies_total s"
  "is_locked (drop_sent r s) = is_locked s"
  "cap_of (drop_sent r s) = cap_of s"
  by (simp_all add: drop_sent_def)

text \<open>A slot of the smaller window is a slot of the larger one, or empty.\<close>

lemma drop_sent_nth:
  "send_window (drop_sent r s) ! i = Some e \<Longrightarrow> send_window s ! i = Some e"
  "send_window s ! i = None \<Longrightarrow> send_window (drop_sent r s) ! i = None"
  by (auto simp: drop_sent_def clear_nth_None dest: clear_nth_Some split: if_splits)

lemma drop_sent_sent:
  assumes "shape s"
  shows "sent (drop_sent r s) = (sent s)(r := None)"
proof
  fix q
  show "sent (drop_sent r s) q = ((sent s)(r := None)) q"
    using shape_bounds [OF assms]
    by (cases "slot (cap_of s) q = slot (cap_of s) r")
      (auto simp: drop_sent_def sent_def split: option.splits if_splits)
qed

lemma drop_sent_wf:
  assumes "seq_inv s"
  shows "seq_inv (drop_sent r s)"
proof (rule wfI)
  note parts = wf_parts [OF assms]
  note bounds = shape_bounds [OF parts(1)]
  show "shape (drop_sent r s)"
    using parts(1) by (simp add: shape_def)
  show "recv_ok (drop_sent r s)" and "head_ok (drop_sent r s)"
    using parts(3,4) by (simp_all add: recv_cong [of "drop_sent r s" s])
  show "send_ok (drop_sent r s)"
    using parts(2) by (auto simp: send_ok_def dest!: drop_sent_nth(1))
  show "reserved_ok (drop_sent r s)"
    using parts(5) by (simp add: reserved_ok_def drop_sent_nth(2))
qed

lemma lower_timestamp_fields [simp]:
  "resend_interval (lower_timestamp t s) = resend_interval s"
  "next_send_seq_no (lower_timestamp t s) = next_send_seq_no s"
  "next_recv_seq_no (lower_timestamp t s) = next_recv_seq_no s"
  "send_window (lower_timestamp t s) = send_window s"
  "recv_window (lower_timestamp t s) = recv_window s"
  "concurrent_replies (lower_timestamp t s) = concurrent_replies s"
  "concurrent_replies_total (lower_timestamp t s) = concurrent_replies_total s"
  "is_locked (lower_timestamp t s) = is_locked s"
  by (simp_all add: lower_timestamp_def)

text \<open>The state after an entry for the next sequence number is written.\<close>

definition push_entry :: "'s send_entry \<Rightarrow> ('s, 'r) seqex \<Rightarrow> ('s, 'r) seqex" where
  "push_entry e s = (lower_timestamp (next_resend_time e) s)
     \<lparr>next_send_seq_no := next_send_seq_no s + 1,
      send_window := (send_window s)[slot (cap_of s) (next_send_seq_no s) := Some e]\<rparr>"

lemma push_entry_fields [simp]:
  "resend_interval (push_entry e s) = resend_interval s"
  "next_send_seq_no (push_entry e s) = next_send_seq_no s + 1"
  "next_recv_seq_no (push_entry e s) = next_recv_seq_no s"
  "recv_window (push_entry e s) = recv_window s"
  "concurrent_replies (push_entry e s) = concurrent_replies s"
  "concurrent_replies_total (push_entry e s) = concurrent_replies_total s"
  "is_locked (push_entry e s) = is_locked s"
  "cap_of (push_entry e s) = cap_of s"
  by (simp_all add: push_entry_def)

lemma push_entry_sent:
  assumes "shape s" and "entry_seq_no e = next_send_seq_no s"
    and "send_window s ! slot (cap_of s) (next_send_seq_no s) = None"
  shows "sent (push_entry e s) = (sent s)(next_send_seq_no s \<mapsto> e)"
proof
  fix q
  show "sent (push_entry e s) q = ((sent s)(next_send_seq_no s \<mapsto> e)) q"
    using shape_bounds [OF assms(1)] assms(2,3)
    by (cases "slot (cap_of s) q = slot (cap_of s) (next_send_seq_no s)")
      (auto simp: push_entry_def sent_def split: option.splits if_splits)
qed

lemma age_step:
  assumes ring: "window_ring cap" and age: "unat (n - 1 - q) < cap"
    and other: "slot cap q \<noteq> slot cap n"
  shows "unat (n - q) < cap"
proof -
  let ?a = "unat (n - 1 - q)"
  have "cap \<le> 2 ^ 31" using ring by (rule window_ring.cap_le)
  with age have "?a + 1 < 2 ^ 32" by simp
  have "n - q = of_nat (?a + 1)" by simp
  then have u: "unat (n - q) = ?a + 1"
    using \<open>?a + 1 < 2 ^ 32\<close> by (simp only: unat_u32_of_nat)
  have "?a + 1 \<noteq> cap"
  proof
    assume "?a + 1 = cap"
    with u have "unat (n - q) = cap" by simp
    with window_ring.slot_offset [OF ring, of n q] window_ring.slot_less [OF ring, of q]
    have "slot cap n = slot cap q" by (simp only: mod_add_self2 mod_less)
    with other show False by simp
  qed
  with age u show ?thesis by simp
qed

lemma push_entry_send_ok:
  assumes "shape s" and "send_ok s" and "entry_seq_no e = next_send_seq_no s"
  shows "send_ok (push_entry e s)"
  unfolding send_ok_def push_entry_fields
proof (intro allI impI)
  fix i e' assume i: "i < cap_of s" and e': "send_window (push_entry e s) ! i = Some e'"
  note ring = shape_ring [OF assms(1)]
  show "slot (cap_of s) (entry_seq_no e') = i
      \<and> unat (next_send_seq_no s + 1 - 1 - entry_seq_no e') < cap_of s"
  proof (cases "i = slot (cap_of s) (next_send_seq_no s)")
    case True
    with i e' have "e' = e" by (simp add: push_entry_def)
    with True assms(3) shape_bounds(3) [OF assms(1)] show ?thesis by simp
  next
    case False
    with i e' have "send_window s ! i = Some e'" by (simp add: push_entry_def)
    with assms(2) i have "slot (cap_of s) (entry_seq_no e') = i"
      and "unat (next_send_seq_no s - 1 - entry_seq_no e') < cap_of s"
      by (simp_all add: send_ok_def)
    with False age_step [OF ring] show ?thesis by simp
  qed
qed

text \<open>Of \<open>k + 1\<close> free slots ahead, one is used and \<open>k\<close> are left.\<close>

lemma push_entry_free:
  assumes "shape s" and "Suc i < cap_of s"
    and "send_window s ! slot (cap_of s) (next_send_seq_no s + 1 + of_nat i) = None"
  shows "send_window (push_entry e s) ! slot (cap_of s) (next_send_seq_no s + 1 + of_nat i) = None"
proof -
  have eq: "next_send_seq_no s + of_nat (Suc i) = next_send_seq_no s + 1 + of_nat i" by simp
  have "slot (cap_of s) (next_send_seq_no s + of_nat (Suc i)) \<noteq> slot (cap_of s) (next_send_seq_no s)"
    using window_ring.slot_ahead [OF shape_ring [OF assms(1)], of "Suc i"] assms(2) by simp
  with assms(3) show ?thesis by (simp only: eq) (simp add: push_entry_def)
qed

lemma push_entry_wf:
  assumes "seq_inv s" and "entry_seq_no e = next_send_seq_no s"
    and "\<And>i. i \<le> concurrent_replies_total s \<Longrightarrow>
      send_window s ! slot (cap_of s) (next_send_seq_no s + of_nat i) = None"
  shows "seq_inv (push_entry e s)"
proof (rule wfI)
  note parts = wf_parts [OF assms(1)]
  show "shape (push_entry e s)"
    using parts(1) by (simp add: shape_def)
  show "send_ok (push_entry e s)"
    using parts(1,2) assms(2) by (rule push_entry_send_ok)
  show "recv_ok (push_entry e s)" and "head_ok (push_entry e s)"
    using parts(3,4) by (simp_all add: recv_cong [of "push_entry e s" s])
  have total: "concurrent_replies_total s + 2 \<le> cap_of s"
    using parts(5) by (simp add: reserved_ok_def)
  moreover have "send_window (push_entry e s)
      ! slot (cap_of s) (next_send_seq_no s + 1 + of_nat i) = None"
    if "i < concurrent_replies_total s" for i
    using that total assms(3) [of "Suc i"] push_entry_free [OF parts(1), of i]
    by (simp add: add.assoc)
  ultimately show "reserved_ok (push_entry e s)"
    by (simp add: reserved_ok_def)
qed

section \<open>Sending\<close>

text \<open>
  A debug build panics when the resend time overflows; the other calls are unaffected by the time.
\<close>

definition time_ok :: "build \<Rightarrow> i64 \<Rightarrow> ('s, 'r) seqex \<Rightarrow> bool" where
  "time_ok b t s \<longleftrightarrow> b = Release \<or> i64_in_range (sint t + sint (resend_interval s))"

lemma time_ok_add: "time_ok b t s \<Longrightarrow> i64_add b t (resend_interval s) = Some (t + resend_interval s)"
  by (auto simp: time_ok_def)

definition new_entry ::
  "i64 \<Rightarrow> bool \<Rightarrow> seq_no option \<Rightarrow> 's \<Rightarrow> ('s, 'r) seqex \<Rightarrow> 's send_entry" where
  "new_entry t seq_cst ro d s =
     \<lparr> entry_seq_no = next_send_seq_no s, entry_reply_no = ro, entry_seq_cst = seq_cst,
       next_resend_time = t + resend_interval s, entry_data = d \<rparr>"

lemma new_entry_fields [simp]:
  "entry_seq_no (new_entry t c ro d s) = next_send_seq_no s"
  "entry_reply_no (new_entry t c ro d s) = ro"
  "entry_seq_cst (new_entry t c ro d s) = c"
  "next_resend_time (new_entry t c ro d s) = t + resend_interval s"
  "entry_data (new_entry t c ro d s) = d"
  by (simp_all add: new_entry_def)

definition full_error :: "('s, 'r) seqex \<Rightarrow> seq_no option \<Rightarrow> try_error" where
  "full_error s ro =
     (if concurrent_replies_total s + 2 < cap_of s \<and> blocked s ro 0 then WaitingForRecv
      else WaitingForReply)"

lemma is_full_inner_room:
  "shape s \<Longrightarrow> is_full_inner b s ro = Some (if room s ro then Inr () else Inl (full_error s ro))"
  by (auto simp: is_full_inner_eq room_def full_error_def)

lemma room_free:
  "room s None \<Longrightarrow> i \<le> concurrent_replies_total s \<Longrightarrow>
   send_window s ! slot (cap_of s) (next_send_seq_no s + of_nat i) = None"
  by (auto simp: room_def blocked_def)

lemma try_send_direct_with_eq:
  assumes "shape s" and "time_ok b t s"
  shows "try_send_direct_with b t c f s = Some
    (if room s None
     then let e = new_entry t c None (f (next_send_seq_no s)) s in (Inr (to_packet e), push_entry e s)
     else (Inl (full_error s None, f), s))"
proof (cases "room s None")
  case True
  then have "send_window s ! slot (cap_of s) (next_send_seq_no s) = None"
    using room_free [of s 0] by simp
  moreover have "i64_add b t (resend_interval s) = Some (t + resend_interval s)"
    using assms(2) by (rule time_ok_add)
  ultimately show ?thesis
    using True shape_bounds [OF assms(1)]
    by (simp add: try_send_direct_with_def is_full_inner_room [OF assms(1)] Let_def
        send_window_slot_def push_entry_def new_entry_def lower_timestamp_def)
next
  case False
  then show ?thesis
    by (simp add: try_send_direct_with_def is_full_inner_room [OF assms(1)])
qed

lemma try_send_direct_eq:
  assumes "shape s" and "time_ok b t s"
  shows "try_send_direct b t c d s = Some
    (if room s None
     then let e = new_entry t c None d s in (Inr (to_packet e), push_entry e s)
     else (Inl (full_error s None, d), s))"
  by (simp add: try_send_direct_def try_send_direct_with_eq [OF assms] Let_def)

lemma push_new_entry_wf:
  "seq_inv s \<Longrightarrow> room s None \<Longrightarrow> seq_inv (push_entry (new_entry t c None d s) s)"
  by (rule push_entry_wf) (simp_all add: room_free)

lemma push_entry_views:
  "reserved (push_entry e s) = reserved s" "received (push_entry e s) = received s"
  "recv_head (push_entry e s) = recv_head s"
  by (simp_all add: reserved_def received_def recv_head_def fun_eq_iff)

lemma drop_sent_views:
  "reserved (drop_sent r s) = reserved s" "received (drop_sent r s) = received s"
  "recv_head (drop_sent r s) = recv_head s"
  by (simp_all add: reserved_def received_def recv_head_def fun_eq_iff)

section \<open>Debug and release\<close>

lemma is_full_inner_mono [build_mono]:
  "agrees (is_full_inner Debug s ro) (is_full_inner Release s ro)"
  unfolding is_full_inner_def by (intro build_mono)

lemma try_send_direct_with_mono [build_mono]:
  "agrees (try_send_direct_with Debug t c f s) (try_send_direct_with Release t c f s)"
  unfolding try_send_direct_with_def by (intro build_mono)

lemma try_send_direct_mono [build_mono]:
  "agrees (try_send_direct Debug t c d s) (try_send_direct Release t c d s)"
  unfolding try_send_direct_def by (intro build_mono)

section \<open>Properties\<close>

text \<open>
  C16. \<^verbatim>\<open>try_send\<close> refines insertion into a map. On a well-formed instance it never
  panics. If there is room it returns the packet of a new entry for \<open>next_send_seq_no\<close>, maps that
  sequence number to the entry without touching any other unacknowledged packet, and keeps the
  instance well-formed; otherwise it hands the data back, leaves the instance as it was and
  reports which event to wait for.
\<close>

theorem try_send_refines_insert:
  assumes "seq_inv s" and "time_ok b t s"
  shows "if room s None
    then \<exists>s'. try_send_direct b t c d s = Some (Inr (to_packet (new_entry t c None d s)), s')
      \<and> seq_inv s' \<and> sent s' = (sent s)(next_send_seq_no s \<mapsto> new_entry t c None d s)
      \<and> next_send_seq_no s' = next_send_seq_no s + 1
      \<and> reserved s' = reserved s \<and> received s' = received s
    else try_send_direct b t c d s = Some (Inl (full_error s None, d), s)"
proof -
  have "shape s" using assms(1) by (rule wf_parts)
  show ?thesis
    using assms \<open>shape s\<close> room_free [of s 0]
    by (simp add: try_send_direct_eq Let_def push_new_entry_wf push_entry_sent push_entry_views)
qed

lemma fresh_room: "room (fresh 8) None"
  by (simp add: room_def blocked_def fresh_def new_seqex_Some slot_def)

theorem try_send_refines_insert_witness:
  "room (fresh 8) None \<and> (\<exists>s'. try_send_direct Debug 10 True 7 (fresh 8)
        = Some (Inr (to_packet (new_entry 10 True None 7 (fresh 8))), s')
      \<and> sent s' = (sent (fresh 8))(0 \<mapsto> new_entry 10 True None 7 (fresh 8)))"
proof -
  have "time_ok Debug 10 (fresh 8)" and "next_send_seq_no (fresh 8) = 0"
    by code_simp+
  with fresh_room show ?thesis
    using try_send_refines_insert [OF fresh_inv(2), of Debug 10 True 7] by auto
qed

end
