(* ===== verification/Recv_Window.thy ===== *)
theory Recv_Window
  imports Send_Window
begin

text \<open>
  Receiving on the low-level instance: \<^verbatim>\<open>fast_forward\<close>,
  \<^verbatim>\<open>try_receive_raw_and_direct\<close> and \<^verbatim>\<open>try_pump_raw\<close>, with
  their behaviour on every branch and the invariant they keep.
\<close>

section \<open>Operations\<close>

text \<open>
  Each iteration that goes on empties one \<open>Unlocked\<close> slot, so the loop ends whatever the window.
\<close>

function fast_forward :: "build \<Rightarrow> ('s, 'r) seqex \<Rightarrow> (bool \<times> ('s, 'r) seqex) option" where
  "fast_forward b s =
     (let next_seq_no = next_recv_seq_no s;
          i = slot (length (recv_window s)) next_seq_no
      in case arr_get (recv_window s) i of
           None \<Rightarrow> None
         | Some (Unlocked seq_no) \<Rightarrow>
             (case debug_assert b (seq_no = next_seq_no) of
                None \<Rightarrow> None
              | Some _ \<Rightarrow> fast_forward b
                  (s\<lparr>recv_window := (recv_window s)[i := Empty], next_recv_seq_no := next_seq_no + 1\<rparr>))
         | Some (Occupied _ _ _ _) \<Rightarrow> Some (True, s)
         | Some Empty \<Rightarrow> Some (False, s))"
  by pat_completeness auto
termination
  by (relation "measure (\<lambda>(b, s). length (filter is_unlocked (recv_window s)))")
    (auto simp: arr_get_def intro!: filter_update_less split: if_splits)

declare fast_forward.simps [simp del]

text \<open>The scan of the issued reply numbers from index \<open>i\<close>, with \<open>k\<close> iterations left.\<close>

fun find_reply :: "seq_no list \<Rightarrow> seq_no \<Rightarrow> nat \<Rightarrow> nat \<Rightarrow> nat option option" where
  "find_reply xs r i 0 = Some None"
| "find_reply xs r i (Suc k) = do {
     x \<leftarrow> arr_get xs i;
     if x = r then Some (Some i) else find_reply xs r (Suc i) k
   }"

text \<open>
  The common end of a receive and a pump: issue the reply number, take the SeqCst lock, and match
  the packet with the one it replies to.
\<close>

definition deliver ::
  "build \<Rightarrow> seq_no \<Rightarrow> seq_no option \<Rightarrow> bool \<Rightarrow> 'p \<Rightarrow> ('s, 'r) seqex \<Rightarrow>
   (('s, 'p) recv_ok_raw \<times> ('s, 'r) seqex) option" where
  "deliver b seq_no reply_no seq_cst recv_data s = do {
     replies \<leftarrow> arr_set (concurrent_replies s) (concurrent_replies_total s) seq_no;
     let s = s\<lparr>concurrent_replies := replies,
               concurrent_replies_total := concurrent_replies_total s + 1\<rparr>;
     debug_assert b (seq_cst \<longrightarrow> \<not> is_locked s);
     let s = (if seq_cst then s\<lparr>is_locked := True\<rparr> else s);
     (taken, s) \<leftarrow> (case reply_no of None \<Rightarrow> Some (None, s) | Some r \<Rightarrow> take_send r s);
     case taken of
       Some send_data \<Rightarrow> Some (RawReply seq_no seq_cst recv_data send_data, s)
     | None \<Rightarrow> Some (RawPayload seq_no seq_cst recv_data, s)
   }"

definition receive_data ::
  "build \<Rightarrow> ('p \<Rightarrow> 'r) \<Rightarrow> bool \<Rightarrow> seq_no \<Rightarrow> seq_no option \<Rightarrow> 'p \<Rightarrow> ('s, 'r) seqex \<Rightarrow>
   ((try_raw_recv_error + (('s, 'p) recv_ok_raw \<times> bool)) \<times> ('s, 'r) seqex) option" where
  "receive_data b into seq_cst seq_no reply_no recv_data s = (
     let normalized_seq_no = seq_no - next_recv_seq_no s;
         is_below_range = 0x7FFFFFFF < normalized_seq_no;
         is_above_range = \<not> is_below_range
           \<and> u32_of_usize (length (recv_window s)) \<le> normalized_seq_no;
         is_next = (normalized_seq_no = 0)
     in if is_below_range then
          if \<exists>e \<in> set (entries (send_window s)). entry_reply_no e = Some seq_no
          then Some (Inl RawDroppedDuplicate, s)
          else do {
            found \<leftarrow> find_reply (concurrent_replies s) seq_no 0 (concurrent_replies_total s);
            if found \<noteq> None then Some (Inl RawDroppedDuplicate, s)
            else Some (Inl (RawDroppedDuplicateResendAck seq_no), s)
          }
        else if is_above_range then Some (Inl RawDroppedTooEarly, s)
        else do {
          let i = slot (length (recv_window s)) seq_no;
          x \<leftarrow> arr_get (recv_window s) i;
          debug_assert b (x \<noteq> Empty \<longrightarrow> re_seq_no x = seq_no);
          let is_duplicate = (x \<noteq> Empty);
          full \<leftarrow> is_full_inner b s reply_no;
          let (wait_recv, wait_reply) =
            (case full of
               Inr _ \<Rightarrow> (seq_cst \<and> \<not> is_next, seq_cst \<and> is_locked s)
             | Inl WaitingForRecv \<Rightarrow> (True, False)
             | Inl WaitingForReply \<Rightarrow> (False, True));
          if wait_recv \<or> wait_reply then
            let s = (if is_duplicate then s
                     else s\<lparr>recv_window := (recv_window s)
                              [i := Occupied seq_no reply_no seq_cst (into recv_data)]\<rparr>)
            in Some (Inl (if wait_recv then RawWaitingForRecv else RawWaitingForReply), s)
          else do {
            (do_pump, s) \<leftarrow>
              (if is_next
               then fast_forward b
                 (s\<lparr>recv_window := (recv_window s)[i := Empty], next_recv_seq_no := seq_no + 1\<rparr>)
               else do {
                 debug_assert b (\<not> seq_cst);
                 Some (False, s\<lparr>recv_window := (recv_window s)[i := Unlocked seq_no]\<rparr>)
               });
            (ret, s) \<leftarrow> deliver b seq_no reply_no seq_cst recv_data s;
            Some (Inr (ret, do_pump), s)
          }
        })"

definition try_receive_raw_and_direct ::
  "build \<Rightarrow> ('p \<Rightarrow> 'r) \<Rightarrow> 'p packet \<Rightarrow> ('s, 'r) seqex \<Rightarrow>
   ((try_raw_recv_error + (('s, 'p) recv_ok_raw \<times> bool)) \<times> ('s, 'r) seqex) option" where
  "try_receive_raw_and_direct b into packet s = (
     let seq_cst = is_seq_cst packet
     in case packet of
          Payload seq_no recv_data \<Rightarrow> receive_data b into seq_cst seq_no None recv_data s
        | SeqCstPayload seq_no recv_data \<Rightarrow> receive_data b into seq_cst seq_no None recv_data s
        | Reply seq_no reply_no recv_data \<Rightarrow>
            receive_data b into seq_cst seq_no (Some reply_no) recv_data s
        | SeqCstReply seq_no reply_no recv_data \<Rightarrow>
            receive_data b into seq_cst seq_no (Some reply_no) recv_data s
        | Ack reply_no \<Rightarrow> do {
            (taken, s) \<leftarrow> take_send reply_no s;
            case taken of
              Some send_data \<Rightarrow> Some (Inr (RawAck send_data, False), s)
            | None \<Rightarrow> Some (Inl RawDroppedDuplicate, s)
          })"

definition try_pump_raw ::
  "build \<Rightarrow> ('s, 'r) seqex \<Rightarrow>
   ((try_error + (('s, 'r) recv_ok_raw \<times> bool)) \<times> ('s, 'r) seqex) option" where
  "try_pump_raw b s = do {
     let next_seq_no = next_recv_seq_no s;
     let i = slot (length (recv_window s)) next_seq_no;
     x \<leftarrow> arr_get (recv_window s) i;
     case x of
       Occupied seq_no reply_no seq_cst data \<Rightarrow> do {
         debug_assert b (seq_no = next_seq_no);
         full \<leftarrow> is_full_inner b s reply_no;
         case full of
           Inl e \<Rightarrow> Some (Inl e, s)
         | Inr _ \<Rightarrow>
             if \<not> seq_cst \<or> \<not> is_locked s then do {
               (do_pump, s) \<leftarrow> fast_forward b
                 (s\<lparr>recv_window := (recv_window s)[i := Empty],
                    next_recv_seq_no := next_seq_no + 1\<rparr>);
               (ret, s) \<leftarrow> deliver b seq_no reply_no seq_cst data s;
               Some (Inr (ret, do_pump), s)
             }
             else Some (Inl WaitingForReply, s)
       }
     | _ \<Rightarrow> Some (Inl WaitingForRecv, s)
   }"

section \<open>Fast forward\<close>

text \<open>
  \<open>advance k rw s\<close>: the instance after the receive side has moved on by \<open>k\<close>, to window \<open>rw\<close>.
\<close>

definition advance :: "nat \<Rightarrow> 'r recv_entry list \<Rightarrow> ('s, 'r) seqex \<Rightarrow> ('s, 'r) seqex" where
  "advance k rw s = s\<lparr>recv_window := rw, next_recv_seq_no := next_recv_seq_no s + of_nat k\<rparr>"

lemma advance_fields [simp]:
  "resend_interval (advance k rw s) = resend_interval s"
  "next_service_timestamp (advance k rw s) = next_service_timestamp s"
  "next_send_seq_no (advance k rw s) = next_send_seq_no s"
  "next_recv_seq_no (advance k rw s) = next_recv_seq_no s + of_nat k"
  "send_window (advance k rw s) = send_window s"
  "recv_window (advance k rw s) = rw"
  "concurrent_replies (advance k rw s) = concurrent_replies s"
  "concurrent_replies_total (advance k rw s) = concurrent_replies_total s"
  "is_locked (advance k rw s) = is_locked s"
  by (simp_all add: advance_def)

lemma advance_advance [simp]: "advance j rw (advance k rv s) = advance (k + j) rw s"
  by (simp add: advance_def add.assoc)

lemma received_head:
  assumes "shape s" and "recv_ok s" and "recv_head s \<noteq> Empty"
  shows "re_seq_no (recv_head s) = next_recv_seq_no s"
proof -
  note ring = shape_ring [OF assms(1)]
  let ?i = "slot (cap_of s) (next_recv_seq_no s)"
  have i: "?i < cap_of s" using shape_bounds(4) [OF assms(1)] .
  with assms have "slot (cap_of s) (re_seq_no (recv_head s)) = ?i"
    and "unat (re_seq_no (recv_head s) - next_recv_seq_no s) < cap_of s"
    by (simp_all add: recv_ok_def recv_head_def shape_lengths)
  then show ?thesis
    using window_ring.slot_inj [OF ring, of _ "next_recv_seq_no s" "next_recv_seq_no s"]
      shape_bounds(3) [OF assms(1)] by simp
qed

text \<open>Emptying the head slot and moving on by one keeps the window in range.\<close>

lemma advance_head:
  assumes "shape s" and "recv_ok s"
  defines "s1 \<equiv> advance (Suc 0) ((recv_window s)[slot (cap_of s) (next_recv_seq_no s) := Empty]) s"
  shows "shape s1" and "recv_ok s1"
    and "received s1 = (received s)(next_recv_seq_no s := None)"
proof -
  let ?i = "slot (cap_of s) (next_recv_seq_no s)"
  note bounds = shape_bounds [OF assms(1)]
  note len = shape_lengths [OF assms(1)]
  show "shape s1" using assms(1) by (simp add: s1_def shape_def)
  show "recv_ok s1"
    unfolding recv_ok_def
  proof (intro allI impI)
    fix j assume j: "j < length (recv_window s1)" and ne: "recv_window s1 ! j \<noteq> Empty"
    then have "j \<noteq> ?i" using bounds(4) len by (auto simp: s1_def)
    with j ne len have x: "recv_window s1 ! j = recv_window s ! j"
      and "recv_window s ! j \<noteq> Empty" and "j < length (recv_window s)"
      by (simp_all add: s1_def)
    with assms(2) len have "slot (cap_of s) (re_seq_no (recv_window s ! j)) = j"
      and off: "unat (re_seq_no (recv_window s ! j) - next_recv_seq_no s) < cap_of s"
      by (simp_all add: recv_ok_def)
    with \<open>j \<noteq> ?i\<close> have "re_seq_no (recv_window s ! j) \<noteq> next_recv_seq_no s" by auto
    from offset_pred [OF this] off \<open>slot (cap_of s) (re_seq_no (recv_window s ! j)) = j\<close>
    show "slot (length (recv_window s1)) (re_seq_no (recv_window s1 ! j)) = j
      \<and> unat (re_seq_no (recv_window s1 ! j) - next_recv_seq_no s1) < length (recv_window s1)"
      using x len by (simp add: s1_def)
  qed
  show "received s1 = (received s)(next_recv_seq_no s := None)"
  proof
    fix m
    show "received s1 m = ((received s)(next_recv_seq_no s := None)) m"
    proof (cases "slot (cap_of s) m = ?i")
      case True
      then show ?thesis
        using received_head [OF assms(1,2)] bounds(4) len
        by (auto simp: received_def s1_def Let_def recv_head_def)
    next
      case False
      then have "m \<noteq> next_recv_seq_no s" by auto
      with False show ?thesis using len by (simp add: received_def s1_def)
    qed
  qed
qed

text \<open>
  \<open>ff k s s'\<close>: what a fast forward by \<open>k\<close> has done. It passed exactly \<open>k\<close> unlocked entries and
  removed no other; the next entry is not unlocked.
\<close>

definition ff :: "nat \<Rightarrow> ('s, 'r) seqex \<Rightarrow> ('s, 'r) seqex \<Rightarrow> bool" where
  "ff k s s' \<longleftrightarrow> s' = advance k (recv_window s') s
     \<and> shape s' \<and> recv_ok s' \<and> head_ok s' \<and> k \<le> cap_of s
     \<and> (\<forall>j < k. received s (next_recv_seq_no s + of_nat j)
                = Some (Unlocked (next_recv_seq_no s + of_nat j)))
     \<and> (\<forall>m. received s' m = (if unat (m - next_recv_seq_no s) < k then None else received s m))"

lemma is_unlocked_re: "is_unlocked x \<Longrightarrow> x = Unlocked (re_seq_no x)"
  by (cases x) simp_all

lemma unlocked_prefix_bound:
  assumes "shape s" and "recv_ok s"
    and "\<forall>j < k. received s (next_recv_seq_no s + of_nat j) \<noteq> None"
  shows "k \<le> cap_of s"
proof (rule ccontr)
  assume "\<not> k \<le> cap_of s"
  with assms(3) have "received s (next_recv_seq_no s + of_nat (cap_of s)) \<noteq> None" by simp
  then have "unat (next_recv_seq_no s + of_nat (cap_of s) - next_recv_seq_no s) < cap_of s"
    using assms(2) shape_bounds(4) [OF assms(1)] shape_lengths [OF assms(1)]
    by (fastforce simp: received_def recv_ok_def Let_def split: if_splits)
  moreover have "cap_of s < 2 ^ 32" using shape_bounds(2) [OF assms(1)] by simp
  ultimately show False by (simp only: offset_of_nat)
qed

lemma fast_forward_step:
  assumes "shape s" and "recv_ok s"
  shows "fast_forward b s =
    (if is_unlocked (recv_head s)
     then fast_forward b
       (advance (Suc 0) ((recv_window s)[slot (cap_of s) (next_recv_seq_no s) := Empty]) s)
     else Some (is_occupied (recv_head s), s))"
proof (cases "recv_head s")
  case (Unlocked n)
  with received_head [OF assms] have n: "n = next_recv_seq_no s" by simp
  with Unlocked show ?thesis
    using shape_bounds(4) [OF assms(1)] shape_lengths [OF assms(1)]
    by (simp add: fast_forward.simps [of b s] recv_head_def advance_def Let_def)
qed (use shape_bounds(4) [OF assms(1)] shape_lengths [OF assms(1)] in
     \<open>simp_all add: fast_forward.simps [of b s] recv_head_def\<close>)

lemma ff_zero: "shape s \<Longrightarrow> recv_ok s \<Longrightarrow> head_ok s \<Longrightarrow> ff 0 s s"
  by (simp add: ff_def advance_def)

lemma ff_Suc:
  assumes "shape s" and "recv_ok s" and unl: "is_unlocked (recv_head s)"
    and ff: "ff k (advance (Suc 0) ((recv_window s)[slot (cap_of s) (next_recv_seq_no s) := Empty]) s) s'"
  shows "ff (Suc k) s s'"
proof -
  let ?n = "next_recv_seq_no s"
  let ?s1 = "advance (Suc 0) ((recv_window s)[slot (cap_of s) ?n := Empty]) s"
  note head = advance_head [OF assms(1,2)]
  from unl have "recv_head s \<noteq> Empty" by auto
  then have "re_seq_no (recv_head s) = ?n" by (rule received_head [OF assms(1,2)])
  with is_unlocked_re [OF unl] have "recv_head s = Unlocked ?n" by simp
  then have rn: "received s ?n = Some (Unlocked ?n)"
    by (simp add: received_def recv_head_def)
  from ff have eq: "s' = advance k (recv_window s') ?s1"
    and inv: "shape s'" "recv_ok s'" "head_ok s'"
    and pre: "\<And>j. j < k \<Longrightarrow> received ?s1 (?n + 1 + of_nat j) = Some (Unlocked (?n + 1 + of_nat j))"
    and post: "\<And>m. received s' m = (if unat (m - (?n + 1)) < k then None else received ?s1 m)"
    by (simp_all add: ff_def)
  from eq have "s' = advance (Suc k) (recv_window s') s" by simp
  moreover have prefix: "received s (?n + of_nat j) = Some (Unlocked (?n + of_nat j))"
    if "j < Suc k" for j
  proof (cases j)
    case 0
    with rn show ?thesis by simp
  next
    case (Suc j')
    with that pre [of j'] show ?thesis
      by (simp add: head(3) add.assoc split: if_splits)
  qed
  moreover have "received s' m = (if unat (m - ?n) < Suc k then None else received s m)" for m
  proof (cases "m = ?n")
    case True
    then show ?thesis by (simp add: post head(3))
  next
    case False
    then show ?thesis by (simp add: post head(3) offset_pred [OF False])
  qed
  moreover have "Suc k \<le> cap_of s"
    using assms(1,2) prefix by (intro unlocked_prefix_bound) simp_all
  ultimately show ?thesis
    unfolding ff_def using inv by blast
qed

lemma fast_forward_ff:
  assumes "shape s" and "recv_ok s"
  obtains k s' where "fast_forward b s = Some (is_occupied (recv_head s'), s')" and "ff k s s'"
proof -
  have "\<exists>k s'. fast_forward b s = Some (is_occupied (recv_head s'), s') \<and> ff k s s'"
    using assms
  proof (induction "length (filter is_unlocked (recv_window s))" arbitrary: s rule: less_induct)
    case less
    let ?i = "slot (cap_of s) (next_recv_seq_no s)"
    let ?s1 = "advance (Suc 0) ((recv_window s)[?i := Empty]) s"
    show ?case
    proof (cases "is_unlocked (recv_head s)")
      case True
      then have "length (filter is_unlocked (recv_window ?s1)) < length (filter is_unlocked (recv_window s))"
        using shape_bounds(4) [OF less.prems(1)] shape_lengths [OF less.prems(1)]
        by (auto simp: recv_head_def intro!: filter_update_less)
      with less.hyps advance_head(1,2) [OF less.prems]
      obtain k s' where "fast_forward b ?s1 = Some (is_occupied (recv_head s'), s')" and "ff k ?s1 s'"
        by blast
      with True ff_Suc [OF less.prems True] fast_forward_step [OF less.prems, of b] show ?thesis
        by (metis (full_types))
    next
      case False
      with less.prems show ?thesis
        using ff_zero [OF less.prems] fast_forward_step [OF less.prems, of b]
        by (auto simp: head_ok_def)
    qed
  qed
  with that show thesis by blast
qed

lemma fast_forward_mono: "agrees (fast_forward Debug s) (fast_forward Release s)"
proof -
  have "fast_forward b s = Some r \<Longrightarrow> b = Debug \<Longrightarrow> fast_forward Release s = Some r" for b r
  proof (induction b s rule: fast_forward.induct)
    case (1 b s)
    then show ?case
      by (subst fast_forward.simps, subst (asm) (2) fast_forward.simps)
        (auto simp: Let_def split: option.splits recv_entry.splits)
  qed
  then show ?thesis by (simp add: agrees_def)
qed

declare fast_forward_mono [build_mono]

section \<open>Issuing reply numbers\<close>

lemma find_reply_Some:
  "i + k \<le> length xs \<Longrightarrow> \<exists>x. find_reply xs r i k = Some x \<and>
     (case x of None \<Rightarrow> r \<notin> set (take k (drop i xs)) | Some j \<Rightarrow> i \<le> j \<and> j < i + k \<and> xs ! j = r)"
proof (induction xs r i k rule: find_reply.induct)
  case (2 xs r i k)
  show ?case
  proof (cases "xs ! i = r")
    case True
    with "2.prems" show ?thesis by simp
  next
    case False
    with "2.prems" have "take (Suc k) (drop i xs) = xs ! i # take k (drop (Suc i) xs)"
      by (simp add: Cons_nth_drop_Suc [symmetric])
    with False "2.IH" [of "xs ! i"] "2.prems" show ?thesis
      by (auto split: option.splits)
  qed
qed simp

lemma find_reply_reserved:
  assumes "shape s" and "concurrent_replies_total s \<le> cap_of s"
  obtains x where "find_reply (concurrent_replies s) r 0 (concurrent_replies_total s) = Some x"
    and "x = None \<longleftrightarrow> r \<notin># reserved s"
    and "\<And>j. x = Some j \<Longrightarrow> j < concurrent_replies_total s \<and> concurrent_replies s ! j = r"
proof -
  have len: "0 + concurrent_replies_total s \<le> length (concurrent_replies s)"
    using assms by (simp add: shape_lengths)
  from find_reply_Some [OF this, of r] obtain x where
    x: "find_reply (concurrent_replies s) r 0 (concurrent_replies_total s) = Some x"
    and cases: "case x of
      None \<Rightarrow> r \<notin> set (take (concurrent_replies_total s) (drop 0 (concurrent_replies s)))
    | Some j \<Rightarrow> 0 \<le> j \<and> j < 0 + concurrent_replies_total s \<and> concurrent_replies s ! j = r"
    by blast
  have "x = None \<longleftrightarrow> r \<notin># reserved s"
    using cases len by (auto simp: reserved_def in_set_conv_nth split: option.splits)
  with x cases show thesis
    by (intro that [of x]) (auto split: option.splits)
qed

definition issue :: "seq_no \<Rightarrow> bool \<Rightarrow> seq_no option \<Rightarrow> ('s, 'r) seqex \<Rightarrow> ('s, 'r) seqex" where
  "issue n c ro s =
     (let s' = s\<lparr>concurrent_replies := (concurrent_replies s)[concurrent_replies_total s := n],
                 concurrent_replies_total := Suc (concurrent_replies_total s),
                 is_locked := (c \<or> is_locked s)\<rparr>
      in case ro of None \<Rightarrow> s' | Some r \<Rightarrow> drop_sent r s')"

definition delivered_as ::
  "('s, 'r) seqex \<Rightarrow> seq_no \<Rightarrow> seq_no option \<Rightarrow> bool \<Rightarrow> 'p \<Rightarrow> ('s, 'p) recv_ok_raw" where
  "delivered_as s n ro c d =
     (case Option.bind ro (sent s) of
        Some e \<Rightarrow> RawReply n c d (entry_data e)
      | None \<Rightarrow> RawPayload n c d)"

lemma sent_cong:
  "send_window t = send_window s \<Longrightarrow> sent t = sent s"
  by (simp add: sent_def fun_eq_iff)

lemma issue_fields [simp]:
  "resend_interval (issue n c ro s) = resend_interval s"
  "next_service_timestamp (issue n c ro s) = next_service_timestamp s"
  "next_send_seq_no (issue n c ro s) = next_send_seq_no s"
  "next_recv_seq_no (issue n c ro s) = next_recv_seq_no s"
  "recv_window (issue n c ro s) = recv_window s"
  "concurrent_replies (issue n c ro s) = (concurrent_replies s)[concurrent_replies_total s := n]"
  "concurrent_replies_total (issue n c ro s) = Suc (concurrent_replies_total s)"
  "is_locked (issue n c ro s) = (c \<or> is_locked s)"
  "cap_of (issue n c ro s) = cap_of s"
  by (simp_all add: issue_def Let_def split: option.splits)

lemma issue_send_window:
  "send_window (issue n c ro s)
     = (case ro of None \<Rightarrow> send_window s | Some r \<Rightarrow> send_window (drop_sent r s))"
  by (simp add: issue_def drop_sent_def Let_def sent_def split: option.splits)

lemma issue_sent:
  assumes "shape s"
  shows "sent (issue n c ro s) = (case ro of None \<Rightarrow> sent s | Some r \<Rightarrow> (sent s)(r := None))"
proof (cases ro)
  case None
  then have "sent (issue n c ro s) = sent s"
    by (intro sent_cong) (simp add: issue_send_window)
  with None show ?thesis by simp
next
  case (Some r)
  then have "sent (issue n c ro s) = sent (drop_sent r s)"
    by (intro sent_cong) (simp add: issue_send_window)
  with Some show ?thesis by (simp add: drop_sent_sent [OF assms])
qed

lemma issue_reserved:
  assumes "shape s" and "concurrent_replies_total s < cap_of s"
  shows "reserved (issue n c ro s) = add_mset n (reserved s)"
proof -
  have "concurrent_replies_total s < length (concurrent_replies s)"
    using assms by (simp add: shape_lengths)
  then show ?thesis
    by (simp add: reserved_def take_Suc_conv_app_nth)
qed

lemma deliver_eq:
  assumes "shape s" and "concurrent_replies_total s < cap_of s" and "c \<Longrightarrow> \<not> is_locked s"
  shows "deliver b n ro c d s = Some (delivered_as s n ro c d, issue n c ro s)"
proof -
  let ?s1 = "s\<lparr>concurrent_replies := (concurrent_replies s)[concurrent_replies_total s := n],
               concurrent_replies_total := Suc (concurrent_replies_total s),
               is_locked := (c \<or> is_locked s)\<rparr>"
  have sh: "shape ?s1" using assms(1) by (simp add: shape_def)
  have lock: "(if c then t\<lparr>is_locked := True\<rparr> else t) = t\<lparr>is_locked := (c \<or> is_locked t)\<rparr>"
    for t :: "('a, 'b) seqex"
    by simp
  show ?thesis
    using assms take_send_eq [OF sh]
    by (simp add: deliver_def lock shape_lengths issue_def delivered_as_def Let_def
        sent_cong [of ?s1 s] split: option.splits)
qed

text \<open>
  A reply points at an entry of the send window only if that entry has its sequence number: the
  fullness test compares slots, and relies on this to free one.
\<close>

definition reply_ok :: "('s, 'r) seqex \<Rightarrow> seq_no option \<Rightarrow> bool" where
  "reply_ok s ro \<longleftrightarrow> (case ro of None \<Rightarrow> True
     | Some r \<Rightarrow> (case send_window s ! slot (cap_of s) r of
                   None \<Rightarrow> True
                 | Some e \<Rightarrow> entry_seq_no e = r))"

lemma issue_free:
  assumes "shape s" and "room s ro" and "reply_ok s ro" and "i \<le> concurrent_replies_total s"
  shows "send_window (issue n c ro s) ! slot (cap_of s) (next_send_seq_no s + of_nat i) = None"
proof (cases "send_window s ! slot (cap_of s) (next_send_seq_no s + of_nat i)")
  case None
  then show ?thesis
    by (simp add: issue_send_window drop_sent_nth(2) split: option.split)
next
  case (Some e)
  with assms(2,4) obtain r where r: "ro = Some r"
    and slot: "slot (cap_of s) r = slot (cap_of s) (next_send_seq_no s + of_nat i)"
    by (auto simp: room_def blocked_def split: option.splits)
  with Some assms(3) have "sent s r = Some e"
    by (simp add: reply_ok_def sent_def)
  with r slot show ?thesis
    using shape_bounds(4) [OF assms(1)] by (simp add: issue_send_window drop_sent_def)
qed

lemma issue_core: "core_inv s \<Longrightarrow> room s ro \<Longrightarrow> core_inv (issue n c ro s)"
  by (rule core_cong [of s]) (simp_all add: room_def Suc_le_eq)

lemma issue_wf:
  assumes "seq_inv s" and "room s ro" and "reply_ok s ro"
  shows "seq_inv (issue n c ro s)"
proof (rule wfI)
  note parts = wf_parts [OF assms(1)]
  show "shape (issue n c ro s)"
    using parts(1) by (simp add: shape_def)
  show "send_ok (issue n c ro s)"
    using parts(2) by (auto simp: send_ok_def issue_send_window split: option.splits
        dest!: drop_sent_nth(1))
  show "recv_ok (issue n c ro s)" and "head_ok (issue n c ro s)"
    using parts(3,4) by (simp_all add: recv_cong [of "issue n c ro s" s])
  show "reserved_ok (issue n c ro s)"
    using assms(2) issue_free [OF parts(1) assms(2,3)]
    by (simp add: reserved_ok_def room_def)
qed

section \<open>The receive window\<close>

definition put_recv :: "'r recv_entry \<Rightarrow> ('s, 'r) seqex \<Rightarrow> ('s, 'r) seqex" where
  "put_recv x s = s\<lparr>recv_window := (recv_window s)[slot (cap_of s) (re_seq_no x) := x]\<rparr>"

lemma put_recv_fields [simp]:
  "resend_interval (put_recv x s) = resend_interval s"
  "next_service_timestamp (put_recv x s) = next_service_timestamp s"
  "next_send_seq_no (put_recv x s) = next_send_seq_no s"
  "next_recv_seq_no (put_recv x s) = next_recv_seq_no s"
  "send_window (put_recv x s) = send_window s"
  "concurrent_replies (put_recv x s) = concurrent_replies s"
  "concurrent_replies_total (put_recv x s) = concurrent_replies_total s"
  "is_locked (put_recv x s) = is_locked s"
  by (simp_all add: put_recv_def)

definition in_window :: "('s, 'r) seqex \<Rightarrow> seq_no \<Rightarrow> bool" where
  "in_window s n \<longleftrightarrow> unat (n - next_recv_seq_no s) < cap_of s"

text \<open>In the window, a non-empty slot belongs to the sequence number that addresses it.\<close>

lemma received_slot:
  assumes "shape s" and "recv_ok s" and "in_window s n"
  shows "recv_window s ! slot (cap_of s) n \<noteq> Empty \<longleftrightarrow> received s n \<noteq> None"
    and "recv_window s ! slot (cap_of s) n \<noteq> Empty \<Longrightarrow>
      re_seq_no (recv_window s ! slot (cap_of s) n) = n"
proof -
  note len = shape_lengths [OF assms(1)]
  let ?x = "recv_window s ! slot (cap_of s) n"
  have eq: "re_seq_no ?x = n" if "?x \<noteq> Empty"
  proof (rule window_ring.slot_inj [OF shape_ring [OF assms(1)], of _ "next_recv_seq_no s"])
    from that assms(2) shape_bounds(4) [OF assms(1)] len
    show "unat (re_seq_no ?x - next_recv_seq_no s) < cap_of s"
      and "slot (cap_of s) (re_seq_no ?x) = slot (cap_of s) n"
      by (simp_all add: recv_ok_def)
    show "unat (n - next_recv_seq_no s) < cap_of s"
      using assms(3) by (simp add: in_window_def)
  qed
  show "?x \<noteq> Empty \<longleftrightarrow> received s n \<noteq> None"
    using eq len by (auto simp: received_def Let_def)
  show "?x \<noteq> Empty \<Longrightarrow> re_seq_no ?x = n" by (rule eq)
qed

lemma received_in_window:
  assumes "shape s" and "recv_ok s" and "received s n = Some x"
  shows "in_window s n" and "re_seq_no x = n" and "x \<noteq> Empty"
    and "recv_window s ! slot (cap_of s) n = x"
  using assms shape_bounds(4) [OF assms(1), of n] shape_lengths [OF assms(1)]
  by (auto simp: received_def recv_ok_def in_window_def Let_def split: if_splits)

lemma put_recv_received:
  assumes "shape s" and "recv_ok s" and "in_window s (re_seq_no x)" and "x \<noteq> Empty"
  shows "received (put_recv x s) = (received s)(re_seq_no x \<mapsto> x)"
proof
  fix m
  note len = shape_lengths [OF assms(1)]
  show "received (put_recv x s) m = ((received s)(re_seq_no x \<mapsto> x)) m"
  proof (cases "slot (cap_of s) m = slot (cap_of s) (re_seq_no x)")
    case True
    have "received s m = None" if "m \<noteq> re_seq_no x"
    proof (rule ccontr)
      assume "received s m \<noteq> None"
      then obtain y where y: "received s m = Some y" by auto
      from received_in_window [OF assms(1,2) y] True
      have "recv_window s ! slot (cap_of s) (re_seq_no x) = y" and "y \<noteq> Empty"
        and "re_seq_no y = m" by simp_all
      with received_slot(2) [OF assms(1,2,3)] that show False by simp
    qed
    with True show ?thesis
      using shape_bounds(4) [OF assms(1)] len assms(4)
      by (auto simp: received_def put_recv_def Let_def)
  next
    case False
    then have "m \<noteq> re_seq_no x" by auto
    with False show ?thesis using len by (simp add: received_def put_recv_def)
  qed
qed

lemma put_recv_core:
  assumes "core_inv s" and "in_window s (re_seq_no x)" and "x \<noteq> Empty"
    and "is_unlocked x \<Longrightarrow> re_seq_no x \<noteq> next_recv_seq_no s"
  shows "core_inv (put_recv x s)"
  unfolding core_inv_def
proof (intro conjI)
  note parts = core_parts [OF assms(1)]
  note len = shape_lengths [OF parts(1)] and bounds = shape_bounds [OF parts(1)]
  show "shape (put_recv x s)"
    using parts(1) by (simp add: shape_def put_recv_def)
  show "concurrent_replies_total (put_recv x s) + 2 \<le> cap_of (put_recv x s)"
    using parts(4) by simp
  show "recv_ok (put_recv x s)"
    using parts(2) assms(2) len bounds(4)
    by (auto simp: recv_ok_def put_recv_def in_window_def nth_list_update)
  have "slot (cap_of s) (re_seq_no x) = slot (cap_of s) (next_recv_seq_no s) \<Longrightarrow>
      re_seq_no x = next_recv_seq_no s"
    using window_ring.slot_inj [OF shape_ring [OF parts(1)], of _ "next_recv_seq_no s"]
      assms(2) bounds(3) by (simp add: in_window_def)
  then show "head_ok (put_recv x s)"
    using parts(3) assms(4) len bounds(4)
    by (auto simp: head_ok_def recv_head_def put_recv_def nth_list_update)
qed

section \<open>Moving past the next packet\<close>

text \<open>
  \<open>passed k s s2\<close>: the next expected packet has been consumed and \<open>k\<close> packets behind it, which
  had already been delivered, were skipped. Nothing else leaves the receive window.
\<close>

definition passed :: "nat \<Rightarrow> ('s, 'r) seqex \<Rightarrow> ('s, 'r) seqex \<Rightarrow> bool" where
  "passed k s s2 \<longleftrightarrow> s2 = advance (Suc k) (recv_window s2) s
     \<and> shape s2 \<and> recv_ok s2 \<and> head_ok s2 \<and> k \<le> cap_of s
     \<and> (\<forall>j < k. received s (next_recv_seq_no s + 1 + of_nat j)
                = Some (Unlocked (next_recv_seq_no s + 1 + of_nat j)))
     \<and> (\<forall>m. received s2 m
                = (if unat (m - next_recv_seq_no s) < Suc k then None else received s m))"

lemma consume_next:
  assumes "shape s" and "recv_ok s"
  obtains k s2 where
    "fast_forward b (s\<lparr>recv_window := (recv_window s)[slot (cap_of s) (next_recv_seq_no s) := Empty],
                       next_recv_seq_no := next_recv_seq_no s + 1\<rparr>)
       = Some (is_occupied (recv_head s2), s2)"
    and "passed k s s2"
proof -
  let ?n = "next_recv_seq_no s"
  let ?s1 = "advance (Suc 0) ((recv_window s)[slot (cap_of s) ?n := Empty]) s"
  note head = advance_head [OF assms]
  obtain k s2 where run: "fast_forward b ?s1 = Some (is_occupied (recv_head s2), s2)"
    and ff: "ff k ?s1 s2"
    using fast_forward_ff [OF head(1,2)] by blast
  have "received s (?n + 1 + of_nat j) = Some (Unlocked (?n + 1 + of_nat j))" if "j < k" for j
  proof -
    from ff that have "received ?s1 (?n + 1 + of_nat j) = Some (Unlocked (?n + 1 + of_nat j))"
      by (simp add: ff_def)
    then show ?thesis by (simp add: head(3) split: if_splits)
  qed
  moreover have "received s2 m = (if unat (m - ?n) < Suc k then None else received s m)" for m
    using ff offset_pred [of m ?n]
    by (cases "m = ?n") (simp_all add: ff_def head(3))
  moreover have "s2 = advance (Suc k) (recv_window s2) s"
    using ff unfolding ff_def by (metis advance_advance add_Suc plus_nat.add_0)
  ultimately have "passed k s s2"
    using ff by (simp add: passed_def ff_def)
  moreover have "?s1 = s\<lparr>recv_window := (recv_window s)[slot (cap_of s) ?n := Empty],
      next_recv_seq_no := ?n + 1\<rparr>"
    by (simp add: advance_def)
  ultimately show thesis using run that by metis
qed

lemma passed_fields:
  assumes "passed k s s2"
  shows "resend_interval s2 = resend_interval s"
    and "next_service_timestamp s2 = next_service_timestamp s"
    and "next_send_seq_no s2 = next_send_seq_no s"
    and "next_recv_seq_no s2 = next_recv_seq_no s + 1 + of_nat k"
    and "send_window s2 = send_window s"
    and "concurrent_replies s2 = concurrent_replies s"
    and "concurrent_replies_total s2 = concurrent_replies_total s"
    and "is_locked s2 = is_locked s"
proof -
  have s2: "s2 = advance (Suc k) (recv_window s2) s" using assms by (simp add: passed_def)
  show "resend_interval s2 = resend_interval s" by (subst s2) simp
  show "next_service_timestamp s2 = next_service_timestamp s" by (subst s2) simp
  show "next_send_seq_no s2 = next_send_seq_no s" by (subst s2) simp
  show "next_recv_seq_no s2 = next_recv_seq_no s + 1 + of_nat k"
    by (subst s2) (simp add: add.assoc)
  show "send_window s2 = send_window s" by (subst s2) simp
  show "concurrent_replies s2 = concurrent_replies s" by (subst s2) simp
  show "concurrent_replies_total s2 = concurrent_replies_total s" by (subst s2) simp
  show "is_locked s2 = is_locked s" by (subst s2) simp
qed

text \<open>What only depends on the send side.\<close>

lemma send_side_cong:
  assumes "send_window t = send_window s" and "next_send_seq_no t = next_send_seq_no s"
    and "concurrent_replies_total t = concurrent_replies_total s"
    and "concurrent_replies t = concurrent_replies s"
  shows "send_ok t = send_ok s" and "reserved_ok t = reserved_ok s" and "room t ro = room s ro"
    and "reply_ok t ro = reply_ok s ro" and "sent t = sent s"
    and "delivered_as t n ro c d = delivered_as s n ro c d" and "reserved t = reserved s"
  using assms
  by (cases ro; simp add: send_ok_def reserved_ok_def room_def blocked_def reply_ok_def
      delivered_as_def sent_cong [of t s] reserved_def)+

lemma seq_inv_iff: "seq_inv s \<longleftrightarrow> core_inv s \<and> send_ok s \<and> reserved_ok s"
  by (auto simp: seq_inv_def core_inv_def reserved_ok_def)

lemma put_recv_wf:
  assumes "seq_inv s" and "in_window s (re_seq_no x)" and "x \<noteq> Empty"
    and "is_unlocked x \<Longrightarrow> re_seq_no x \<noteq> next_recv_seq_no s"
  shows "seq_inv (put_recv x s)"
  using assms put_recv_core [of s x]
  by (simp add: seq_inv_iff send_side_cong [of "put_recv x s" s])

lemma passed_core:
  assumes "core_inv s" and "passed k s s2"
  shows "core_inv s2"
  using assms passed_fields [OF assms(2)] by (simp add: core_inv_def passed_def)

lemma passed_wf:
  assumes "seq_inv s" and "passed k s s2"
  shows "seq_inv s2"
proof (rule wfI)
  note parts = wf_parts [OF assms(1)] and fields = passed_fields [OF assms(2)]
  show "shape s2" and "recv_ok s2" and "head_ok s2"
    using assms(2) by (simp_all add: passed_def)
  show "send_ok s2" and "reserved_ok s2"
    using parts(2,5) fields by (simp_all add: send_side_cong [of s2 s])
qed

section \<open>Receiving data: every branch\<close>

definition below_window :: "('s, 'r) seqex \<Rightarrow> seq_no \<Rightarrow> bool" where
  "below_window s n \<longleftrightarrow> 2 ^ 31 \<le> unat (n - next_recv_seq_no s)"

lemma window_ranges:
  assumes "shape s"
  shows "0x7FFFFFFF < n - next_recv_seq_no s \<longleftrightarrow> below_window s n"
    and "u32_of_usize (cap_of s) \<le> n - next_recv_seq_no s \<longleftrightarrow> \<not> in_window s n"
    and "in_window s n \<Longrightarrow> \<not> below_window s n"
  using shape_bounds(2) [OF assms]
  by (auto simp: below_window_def in_window_def word_less_nat_alt word_le_nat_alt
      u32_of_usize_def unat_u32_of_nat)

lemma cap_nonzero:
  assumes "shape s"
  shows "u32_of_usize (cap_of s) \<noteq> 0"
proof -
  have "unat (u32_of_usize (cap_of s)) = cap_of s"
    using shape_bounds(2) [OF assms] by (simp add: u32_of_usize_def unat_u32_of_nat)
  with shape_bounds(3) [OF assms] show ?thesis by auto
qed

text \<open>When a data packet in the window can be handed to the caller at once.\<close>

definition deliverable ::
  "('s, 'r) seqex \<Rightarrow> bool \<Rightarrow> seq_no \<Rightarrow> seq_no option \<Rightarrow> bool" where
  "deliverable s c n ro \<longleftrightarrow> room s ro \<and> (c \<longrightarrow> n = next_recv_seq_no s \<and> \<not> is_locked s)"

definition wait_error ::
  "('s, 'r) seqex \<Rightarrow> bool \<Rightarrow> seq_no \<Rightarrow> seq_no option \<Rightarrow> try_raw_recv_error" where
  "wait_error s c n ro =
     (if room s ro then (if c \<and> n \<noteq> next_recv_seq_no s then RawWaitingForRecv else RawWaitingForReply)
      else case full_error s ro of
             WaitingForRecv \<Rightarrow> RawWaitingForRecv | WaitingForReply \<Rightarrow> RawWaitingForReply)"

text \<open>A reply to \<open>n\<close> is in flight or still to be made.\<close>

definition reply_pending :: "('s, 'r) seqex \<Rightarrow> seq_no \<Rightarrow> bool" where
  "reply_pending s n \<longleftrightarrow> n \<in># reserved s
     \<or> (\<exists>e \<in> set (entries (send_window s)). entry_reply_no e = Some n)"

lemma receive_below:
  assumes "core_inv s" and "below_window s n"
  shows "receive_data b into c n ro d s = Some
    (Inl (if reply_pending s n then RawDroppedDuplicate else RawDroppedDuplicateResendAck n), s)"
proof -
  note parts = core_parts [OF assms(1)]
  from parts(1,5) obtain x where
    x: "find_reply (concurrent_replies s) n 0 (concurrent_replies_total s) = Some x"
    and none: "x = None \<longleftrightarrow> n \<notin># reserved s"
    by (rule find_reply_reserved)
  show ?thesis
    using assms(2) x none
    by (auto simp: receive_data_def window_ranges [OF parts(1)] reply_pending_def Let_def)
qed

lemma receive_above:
  assumes "shape s" and "\<not> below_window s n" and "\<not> in_window s n"
  shows "receive_data b into c n ro d s = Some (Inl RawDroppedTooEarly, s)"
  using assms(2,3)
  by (simp add: receive_data_def window_ranges [OF assms(1)] shape_lengths [OF assms(1)] Let_def)

lemma receive_wait:
  assumes "core_inv s" and "in_window s n" and "\<not> deliverable s c n ro"
  shows "receive_data b into c n ro d s = Some
    (Inl (wait_error s c n ro),
     if received s n = None then put_recv (Occupied n ro c (into d)) s else s)"
proof -
  note parts = core_parts [OF assms(1)]
  note len = shape_lengths [OF parts(1)]
  note slot = received_slot [OF parts(1,2) assms(2)]
  show ?thesis
    using assms(2,3) slot
    by (auto simp: receive_data_def window_ranges [OF parts(1)] Let_def len shape_bounds [OF parts(1)]
        is_full_inner_room [OF parts(1)] deliverable_def wait_error_def put_recv_def
        split: try_error.splits)
qed

lemma receive_ahead:
  assumes "core_inv s" and "in_window s n" and "deliverable s c n ro" and "n \<noteq> next_recv_seq_no s"
  shows "receive_data b into c n ro d s = Some
    (Inr (delivered_as s n ro c d, False), issue n c ro (put_recv (Unlocked n) s))"
proof -
  note parts = core_parts [OF assms(1)]
  note len = shape_lengths [OF parts(1)]
  note slot = received_slot [OF parts(1,2) assms(2)]
  let ?s1 = "put_recv (Unlocked n) s"
  from assms(3,4) have c: "\<not> c" and room: "room s ro"
    by (auto simp: deliverable_def)
  have "shape ?s1" using parts(1) by (simp add: shape_def put_recv_def)
  moreover have "concurrent_replies_total ?s1 < cap_of ?s1"
    using room by (simp add: room_def)
  ultimately have "deliver b n ro c d ?s1 = Some (delivered_as ?s1 n ro c d, issue n c ro ?s1)"
    using c by (intro deliver_eq) simp_all
  moreover have "delivered_as ?s1 n ro c d = delivered_as s n ro c d"
    by (intro send_side_cong) simp_all
  ultimately show ?thesis
    using assms(2,4) slot c room
    by (simp add: receive_data_def window_ranges [OF parts(1)] Let_def len shape_bounds [OF parts(1)]
        is_full_inner_room [OF parts(1)] put_recv_def)
qed

lemma receive_next:
  assumes "core_inv s" and "deliverable s c (next_recv_seq_no s) ro"
  obtains k s2 where "passed k s s2"
    and "receive_data b into c (next_recv_seq_no s) ro d s = Some
      (Inr (delivered_as s (next_recv_seq_no s) ro c d, is_occupied (recv_head s2)),
       issue (next_recv_seq_no s) c ro s2)"
proof -
  let ?n = "next_recv_seq_no s"
  note parts = core_parts [OF assms(1)]
  note len = shape_lengths [OF parts(1)]
  have win: "in_window s ?n" using shape_bounds(3) [OF parts(1)] by (simp add: in_window_def)
  note slot = received_slot [OF parts(1,2) win]
  from assms(2) have lock: "c \<Longrightarrow> \<not> is_locked s" and room: "room s ro"
    by (auto simp: deliverable_def)
  obtain k s2 where ff: "fast_forward b (s\<lparr>recv_window := (recv_window s)[slot (cap_of s) ?n := Empty],
      next_recv_seq_no := ?n + 1\<rparr>) = Some (is_occupied (recv_head s2), s2)" and p: "passed k s s2"
    using consume_next [OF parts(1,2)] by blast
  note fields = passed_fields [OF p]
  have "shape s2" using p by (simp add: passed_def)
  then have "deliver b ?n ro c d s2 = Some (delivered_as s2 ?n ro c d, issue ?n c ro s2)"
    using lock room fields by (intro deliver_eq) (simp_all add: room_def)
  moreover have "delivered_as s2 ?n ro c d = delivered_as s ?n ro c d"
    by (intro send_side_cong) (simp_all add: fields)
  ultimately have "receive_data b into c ?n ro d s = Some
      (Inr (delivered_as s ?n ro c d, is_occupied (recv_head s2)), issue ?n c ro s2)"
    using win slot lock room ff cap_nonzero [OF parts(1)]
    by (auto simp: receive_data_def window_ranges [OF parts(1)] Let_def len shape_bounds [OF parts(1)]
        is_full_inner_room [OF parts(1)])
  with p show thesis by (rule that)
qed

section \<open>Pumping: every branch\<close>

lemma pump_nothing:
  "shape s \<Longrightarrow> \<not> is_occupied (recv_head s) \<Longrightarrow> try_pump_raw b s = Some (Inl WaitingForRecv, s)"
  using shape_bounds(4) [of s "next_recv_seq_no s"]
  by (cases "recv_head s") (simp_all add: try_pump_raw_def recv_head_def shape_lengths Let_def)

lemma pump_head:
  assumes "core_inv s" and "recv_head s = Occupied n ro c d"
  shows "n = next_recv_seq_no s"
    and "\<not> room s ro \<Longrightarrow> try_pump_raw b s = Some (Inl (full_error s ro), s)"
    and "room s ro \<Longrightarrow> c \<Longrightarrow> is_locked s \<Longrightarrow> try_pump_raw b s = Some (Inl WaitingForReply, s)"
proof -
  note parts = core_parts [OF assms(1)]
  show n: "n = next_recv_seq_no s"
    using received_head [OF parts(1,2)] assms(2) by simp
  note simps = try_pump_raw_def recv_head_def shape_lengths [OF parts(1)] Let_def
    shape_bounds [OF parts(1)] is_full_inner_room [OF parts(1)]
  show "\<not> room s ro \<Longrightarrow> try_pump_raw b s = Some (Inl (full_error s ro), s)"
    and "room s ro \<Longrightarrow> c \<Longrightarrow> is_locked s \<Longrightarrow> try_pump_raw b s = Some (Inl WaitingForReply, s)"
    using assms(2) n by (simp_all add: simps)
qed

lemma pump_deliver:
  assumes "core_inv s" and "recv_head s = Occupied n ro c d" and "deliverable s c n ro"
  obtains k s2 where "passed k s s2"
    and "try_pump_raw b s = Some
      (Inr (delivered_as s n ro c d, is_occupied (recv_head s2)), issue n c ro s2)"
proof -
  note parts = core_parts [OF assms(1)]
  note len = shape_lengths [OF parts(1)]
  have n: "n = next_recv_seq_no s" using pump_head(1) [OF assms(1,2)] .
  from assms(3) have lock: "c \<Longrightarrow> \<not> is_locked s" and room: "room s ro"
    by (auto simp: deliverable_def)
  obtain k s2 where ff: "fast_forward b (s\<lparr>recv_window := (recv_window s)[slot (cap_of s) n := Empty],
      next_recv_seq_no := n + 1\<rparr>) = Some (is_occupied (recv_head s2), s2)" and p: "passed k s s2"
    using consume_next [OF parts(1,2)] n by blast
  note fields = passed_fields [OF p]
  have "shape s2" using p by (simp add: passed_def)
  then have "deliver b n ro c d s2 = Some (delivered_as s2 n ro c d, issue n c ro s2)"
    using lock room fields by (intro deliver_eq) (simp_all add: room_def)
  moreover have "delivered_as s2 n ro c d = delivered_as s n ro c d"
    by (intro send_side_cong) (simp_all add: fields)
  ultimately have "try_pump_raw b s = Some
      (Inr (delivered_as s n ro c d, is_occupied (recv_head s2)), issue n c ro s2)"
    using assms(2) lock room ff n
    by (auto simp: try_pump_raw_def recv_head_def len Let_def shape_bounds [OF parts(1)]
        is_full_inner_room [OF parts(1)])
  with p show thesis by (rule that)
qed

lemma receive_data_mono [build_mono]:
  "agrees (receive_data Debug into c n ro d s) (receive_data Release into c n ro d s)"
  unfolding receive_data_def deliver_def by (intro build_mono)

lemma receive_mono [build_mono]:
  "agrees (try_receive_raw_and_direct Debug into p s) (try_receive_raw_and_direct Release into p s)"
  unfolding try_receive_raw_and_direct_def
  by (cases p) (simp_all add: Let_def receive_data_mono agrees_refl)

lemma pump_mono [build_mono]:
  "agrees (try_pump_raw Debug s) (try_pump_raw Release s)"
proof -
  have case_entry: "agrees (case x of Occupied n ro c d \<Rightarrow> f1 n ro c d | Unlocked n \<Rightarrow> g n | Empty \<Rightarrow> h)
      (case x of Occupied n ro c d \<Rightarrow> f2 n ro c d | Unlocked n \<Rightarrow> g n | Empty \<Rightarrow> h)"
    if "\<And>n ro c d. agrees (f1 n ro c d) (f2 n ro c d)" for x and f1 f2 g h
    using that by (cases x) (simp_all add: agrees_refl)
  show ?thesis
    unfolding try_pump_raw_def deliver_def by (intro build_mono case_entry)
qed

end
