(* ===== verification/Reply_Path.thy ===== *)
theory Reply_Path
  imports Recv_Window
begin

text \<open>
  Answering a received packet on the low-level instance: \<^verbatim>\<open>remove_reservation\<close>,
  \<^verbatim>\<open>reply_raw_and_direct\<close>, \<^verbatim>\<open>ack_raw_and_direct\<close> and
  \<^verbatim>\<open>unlock_raw\<close>. The contract between issuing and redeeming reply numbers is the
  locale \<open>reply_desk\<close>, interpreted on the two ways to redeem a number.
\<close>

section \<open>Operations\<close>

definition remove_reservation :: "seq_no \<Rightarrow> ('s, 'r) seqex \<Rightarrow> (bool \<times> ('s, 'r) seqex) option" where
  "remove_reservation reply_no s = do {
     found \<leftarrow> find_reply (concurrent_replies s) reply_no 0 (concurrent_replies_total s);
     case found of
       None \<Rightarrow> Some (False, s)
     | Some i \<Rightarrow> do {
         let total = concurrent_replies_total s - 1;
         moved \<leftarrow> arr_get (concurrent_replies s) total;
         replies \<leftarrow> arr_set (concurrent_replies s) i moved;
         Some (True, s\<lparr>concurrent_replies := replies, concurrent_replies_total := total\<rparr>)
       }
   }"

definition unlock_raw :: "('s, 'r) seqex \<Rightarrow> ('s, 'r) seqex" where
  "unlock_raw s = s\<lparr>is_locked := False\<rparr>"

definition unlock_if :: "build \<Rightarrow> bool \<Rightarrow> ('s, 'r) seqex \<Rightarrow> ('s, 'r) seqex option" where
  "unlock_if b unlock s =
     (if unlock then do { debug_assert b (is_locked s); Some (s\<lparr>is_locked := False\<rparr>) } else Some s)"

definition reply_raw_and_direct ::
  "build \<Rightarrow> i64 \<Rightarrow> seq_no \<Rightarrow> bool \<Rightarrow> bool \<Rightarrow> 's \<Rightarrow> ('s, 'r) seqex \<Rightarrow>
   ('s packet option \<times> ('s, 'r) seqex) option" where
  "reply_raw_and_direct b current_time reply_no unlock seq_cst packet_data s = do {
     (removed, s) \<leftarrow> remove_reservation reply_no s;
     if removed then do {
       let seq_no = next_send_seq_no s;
       let s = s\<lparr>next_send_seq_no := next_send_seq_no s + 1\<rparr>;
       resend_time \<leftarrow> i64_add b current_time (resend_interval s);
       let s = lower_timestamp resend_time s;
       s \<leftarrow> unlock_if b unlock s;
       let i = send_window_slot s seq_no;
       x \<leftarrow> arr_get (send_window s) i;
       debug_assert b (x = None);
       let entry = \<lparr> entry_seq_no = seq_no, entry_reply_no = Some reply_no,
                     entry_seq_cst = seq_cst, next_resend_time = resend_time,
                     entry_data = packet_data \<rparr>;
       Some (Some (to_packet entry), s\<lparr>send_window := (send_window s)[i := Some entry]\<rparr>)
     }
     else Some (None, s)
   }"

definition ack_raw_and_direct ::
  "build \<Rightarrow> seq_no \<Rightarrow> bool \<Rightarrow> ('s, 'r) seqex \<Rightarrow> ('s packet option \<times> ('s, 'r) seqex) option" where
  "ack_raw_and_direct b reply_no unlock s = do {
     (removed, s) \<leftarrow> remove_reservation reply_no s;
     if removed then do {
       s \<leftarrow> unlock_if b unlock s;
       Some (Some (Ack reply_no), s)
     }
     else Some (None, s)
   }"

section \<open>Redeeming a reply number\<close>

text \<open>The swap removal takes one occurrence out of the multiset.\<close>

lemma mset_swap_remove:
  assumes "i < t" and "t \<le> length xs"
  shows "mset (take (t - 1) (xs[i := xs ! (t - 1)])) = mset (take t xs) - {#xs ! i#}"
proof -
  let ?ys = "take t xs"
  let ?zs = "?ys[i := ?ys ! (t - 1)]"
  have len: "length ?ys = t" and ne: "?zs \<noteq> []" using assms by auto
  have "mset ?zs = add_mset (?ys ! (t - 1)) (mset ?ys - {#?ys ! i#})"
    using assms len by (simp add: mset_update)
  moreover have "mset ?zs = add_mset (last ?zs) (mset (butlast ?zs))"
    using ne by (metis append_butlast_last_id mset_append mset.simps add_mset_add_single)
  moreover have "last ?zs = ?ys ! (t - 1)"
    using ne assms len by (simp add: last_conv_nth nth_list_update)
  ultimately have "mset (butlast ?zs) = mset ?ys - {#?ys ! i#}" by simp
  moreover have "butlast ?zs = take (t - 1) (xs[i := xs ! (t - 1)])"
    using assms by (simp add: butlast_conv_take take_update_swap min_def)
  ultimately show ?thesis using assms by simp
qed

text \<open>\<open>redeemed r s s'\<close>: one occurrence of \<open>r\<close> was taken out, and nothing else changed.\<close>

definition redeemed :: "seq_no \<Rightarrow> ('s, 'r) seqex \<Rightarrow> ('s, 'r) seqex \<Rightarrow> bool" where
  "redeemed r s s' \<longleftrightarrow>
     s' = s\<lparr>concurrent_replies := concurrent_replies s',
            concurrent_replies_total := concurrent_replies_total s - 1\<rparr>
     \<and> length (concurrent_replies s') = length (concurrent_replies s)
     \<and> 0 < concurrent_replies_total s \<and> reserved s' = reserved s - {#r#}"

lemma remove_reservation_eq:
  assumes "shape s" and "concurrent_replies_total s \<le> cap_of s"
  shows "r \<notin># reserved s \<Longrightarrow> remove_reservation r s = Some (False, s)"
    and "r \<in># reserved s \<Longrightarrow> \<exists>s'. remove_reservation r s = Some (True, s') \<and> redeemed r s s'"
proof -
  obtain x where x: "find_reply (concurrent_replies s) r 0 (concurrent_replies_total s) = Some x"
    and none: "x = None \<longleftrightarrow> r \<notin># reserved s"
    and some: "\<And>j. x = Some j \<Longrightarrow> j < concurrent_replies_total s \<and> concurrent_replies s ! j = r"
    using find_reply_reserved [OF assms, of r] by blast
  show "r \<notin># reserved s \<Longrightarrow> remove_reservation r s = Some (False, s)"
    using x none by (simp add: remove_reservation_def)
  show "\<exists>s'. remove_reservation r s = Some (True, s') \<and> redeemed r s s'" if "r \<in># reserved s"
  proof -
    let ?t = "concurrent_replies_total s" and ?xs = "concurrent_replies s"
    from that none obtain j where j: "x = Some j" by auto
    from some [OF j] have "j < ?t" and r: "?xs ! j = r" by simp_all
    have len: "?t \<le> length ?xs" using assms by (simp add: shape_lengths)
    let ?s' = "s\<lparr>concurrent_replies := ?xs[j := ?xs ! (?t - 1)], concurrent_replies_total := ?t - 1\<rparr>"
    have "remove_reservation r s = Some (True, ?s')"
      using x j \<open>j < ?t\<close> len by (simp add: remove_reservation_def Let_def)
    moreover have "redeemed r s ?s'"
      using mset_swap_remove [OF \<open>j < ?t\<close> len] r \<open>j < ?t\<close>
      by (simp add: redeemed_def reserved_def)
    ultimately show ?thesis by blast
  qed
qed

lemma redeemed_fields:
  assumes "redeemed r s s'"
  shows "resend_interval s' = resend_interval s"
    and "next_service_timestamp s' = next_service_timestamp s"
    and "next_send_seq_no s' = next_send_seq_no s"
    and "next_recv_seq_no s' = next_recv_seq_no s"
    and "send_window s' = send_window s"
    and "recv_window s' = recv_window s"
    and "concurrent_replies_total s' = concurrent_replies_total s - 1"
    and "is_locked s' = is_locked s"
proof -
  have s': "s' = s\<lparr>concurrent_replies := concurrent_replies s',
      concurrent_replies_total := concurrent_replies_total s - 1\<rparr>"
    using assms by (simp add: redeemed_def)
  show "resend_interval s' = resend_interval s" by (subst s') simp
  show "next_service_timestamp s' = next_service_timestamp s" by (subst s') simp
  show "next_send_seq_no s' = next_send_seq_no s" by (subst s') simp
  show "next_recv_seq_no s' = next_recv_seq_no s" by (subst s') simp
  show "send_window s' = send_window s" by (subst s') simp
  show "recv_window s' = recv_window s" by (subst s') simp
  show "concurrent_replies_total s' = concurrent_replies_total s - 1" by (subst s') simp
  show "is_locked s' = is_locked s" by (subst s') simp
qed

definition set_lock :: "bool \<Rightarrow> ('s, 'r) seqex \<Rightarrow> ('s, 'r) seqex" where
  "set_lock unlock s = s\<lparr>is_locked := (is_locked s \<and> \<not> unlock)\<rparr>"

lemma set_lock_fields [simp]:
  "resend_interval (set_lock u s) = resend_interval s"
  "next_service_timestamp (set_lock u s) = next_service_timestamp s"
  "next_send_seq_no (set_lock u s) = next_send_seq_no s"
  "next_recv_seq_no (set_lock u s) = next_recv_seq_no s"
  "send_window (set_lock u s) = send_window s"
  "recv_window (set_lock u s) = recv_window s"
  "concurrent_replies (set_lock u s) = concurrent_replies s"
  "concurrent_replies_total (set_lock u s) = concurrent_replies_total s"
  "is_locked (set_lock u s) = (is_locked s \<and> \<not> u)"
  by (simp_all add: set_lock_def)

text \<open>Unlocking is checked in a debug build.\<close>

definition unlock_ok :: "build \<Rightarrow> bool \<Rightarrow> ('s, 'r) seqex \<Rightarrow> bool" where
  "unlock_ok b unlock s \<longleftrightarrow> b = Release \<or> (unlock \<longrightarrow> is_locked s)"

lemma unlock_if_eq: "unlock_ok b u s \<Longrightarrow> unlock_if b u s = Some (set_lock u s)"
  by (auto simp: unlock_ok_def unlock_if_def set_lock_def debug_assert_def)

lemma lock_only_wf:
  assumes "seq_inv s"
  shows "seq_inv (set_lock u s)" and "seq_inv (unlock_raw s)"
proof -
  note parts = wf_parts [OF assms]
  have "seq_inv (s\<lparr>is_locked := l\<rparr>)" for l
  proof (rule wfI)
    show "shape (s\<lparr>is_locked := l\<rparr>)" using parts(1) by (simp add: shape_def)
    show "send_ok (s\<lparr>is_locked := l\<rparr>)" using parts(2) by (simp add: send_ok_def)
    show "recv_ok (s\<lparr>is_locked := l\<rparr>)" using parts(3) by (simp add: recv_ok_def)
    show "head_ok (s\<lparr>is_locked := l\<rparr>)" using parts(4) by (simp add: head_ok_def recv_head_def)
    show "reserved_ok (s\<lparr>is_locked := l\<rparr>)" using parts(5) by (simp add: reserved_ok_def)
  qed
  then show "seq_inv (set_lock u s)" and "seq_inv (unlock_raw s)"
    by (simp_all add: set_lock_def unlock_raw_def)
qed

lemma redeemed_wf:
  assumes "seq_inv s" and "redeemed r s s'"
  shows "seq_inv s'"
proof (rule wfI)
  note parts = wf_parts [OF assms(1)] and fields = redeemed_fields [OF assms(2)]
  show "shape s'"
    using parts(1) assms(2) fields by (simp add: shape_def redeemed_def)
  show "send_ok s'"
    using parts(2) fields by (simp add: send_cong [of s' s])
  show "recv_ok s'" and "head_ok s'"
    using parts(3,4) fields by (simp_all add: recv_cong [of s' s])
  show "reserved_ok s'"
    using parts(5) fields by (auto simp: reserved_ok_def)
qed

lemma reserved_cong:
  "concurrent_replies t = concurrent_replies s \<Longrightarrow>
   concurrent_replies_total t = concurrent_replies_total s \<Longrightarrow> reserved t = reserved s"
  by (simp add: reserved_def)

text \<open>
  The free slots kept for issued reply numbers: after one is redeemed, the next slot and those of
  the remaining ones are free, so the reply overwrites nothing.
\<close>

lemma redeemed_free:
  assumes "seq_inv s" and "redeemed r s s'" and "i \<le> concurrent_replies_total s'"
  shows "send_window s ! slot (cap_of s) (next_send_seq_no s + of_nat i) = None"
proof -
  have "i < concurrent_replies_total s"
    using assms(2,3) redeemed_fields(7) [OF assms(2)] by (auto simp: redeemed_def)
  then show ?thesis
    using wf_parts(5) [OF assms(1)] by (simp add: reserved_ok_def)
qed

section \<open>Replies and acks\<close>

lemma set_lock_core: "core_inv s \<Longrightarrow> core_inv (set_lock u s)"
  by (rule core_cong [of s]) (simp_all add: core_inv_def)

lemma unlock_raw_core: "core_inv s \<Longrightarrow> core_inv (unlock_raw s)"
  by (rule core_cong [of s]) (simp_all add: core_inv_def unlock_raw_def)

lemma redeemed_core:
  assumes "core_inv s" and "redeemed r s s'"
  shows "core_inv s'"
proof (rule core_cong [OF assms(1)])
  note fields = redeemed_fields [OF assms(2)]
  show "concurrent_replies_total s' + 2 \<le> cap_of s"
    using core_parts(4) [OF assms(1)] fields(7) by simp
  show "length (concurrent_replies s') = length (concurrent_replies s)"
    using assms(2) by (simp add: redeemed_def)
qed (simp_all add: redeemed_fields [OF assms(2)])

lemma push_entry_core: "core_inv s \<Longrightarrow> core_inv (push_entry e s)"
  by (rule core_cong [of s]) (simp_all add: core_inv_def)

lemma reply_unknown:
  "core_inv s \<Longrightarrow> r \<notin># reserved s \<Longrightarrow> reply_raw_and_direct b t r u c d s = Some (None, s)"
  "core_inv s \<Longrightarrow> r \<notin># reserved s \<Longrightarrow> ack_raw_and_direct b r u s = Some (None, s)"
  using remove_reservation_eq(1) [of s r] core_parts(1,5) [of s]
  by (simp_all add: reply_raw_and_direct_def ack_raw_and_direct_def)

lemma ack_known:
  assumes "core_inv s" and "r \<in># reserved s" and "unlock_ok b u s"
  obtains s1 where "redeemed r s s1"
    and "ack_raw_and_direct b r u s = Some (Some (Ack r), set_lock u s1)"
proof -
  obtain s1 where run: "remove_reservation r s = Some (True, s1)" and red: "redeemed r s s1"
    using remove_reservation_eq(2) [OF core_parts(1,5) [OF assms(1)]] assms(2) by blast
  have "unlock_ok b u s1"
    using assms(3) redeemed_fields(8) [OF red] by (simp add: unlock_ok_def)
  with run have "ack_raw_and_direct b r u s = Some (Some (Ack r), set_lock u s1)"
    by (simp add: ack_raw_and_direct_def unlock_if_eq)
  with red show thesis by (rule that)
qed

lemma reply_known:
  assumes "core_inv s" and "r \<in># reserved s" and "unlock_ok b u s" and "time_ok b t s"
    and free: "b = Release \<or> send_window s ! slot (cap_of s) (next_send_seq_no s) = None"
  obtains s1 where "redeemed r s s1"
    and "reply_raw_and_direct b t r u c d s
      = Some (Some (to_packet (new_entry t c (Some r) d s)),
              push_entry (new_entry t c (Some r) d s) (set_lock u s1))"
proof -
  let ?e = "new_entry t c (Some r) d s"
  obtain s1 where run: "remove_reservation r s = Some (True, s1)" and red: "redeemed r s s1"
    using remove_reservation_eq(2) [OF core_parts(1,5) [OF assms(1)]] assms(2) by blast
  note fields = redeemed_fields [OF red]
  have empty: "debug_assert b (send_window s ! slot (cap_of s) (next_send_seq_no s) = None) = Some ()"
    using free by auto
  have time: "i64_add b t (resend_interval s) = Some (t + resend_interval s)"
    using assms(4) by (rule time_ok_add)
  have unl: "unlock_if b u (lower_timestamp (t + resend_interval s)
        (s1\<lparr>next_send_seq_no := next_send_seq_no s + 1\<rparr>))
      = Some (set_lock u (lower_timestamp (t + resend_interval s)
        (s1\<lparr>next_send_seq_no := next_send_seq_no s + 1\<rparr>)))"
    using assms(3) fields(8) by (intro unlock_if_eq) (simp add: unlock_ok_def)
  have "reply_raw_and_direct b t r u c d s
      = Some (Some (to_packet ?e), push_entry ?e (set_lock u s1))"
    using run time unl empty fields shape_bounds [OF core_parts(1) [OF assms(1)]]
    by (simp add: reply_raw_and_direct_def Let_def send_window_slot_def new_entry_def push_entry_def)
      (simp add: set_lock_def lower_timestamp_def)
  with red show thesis by (rule that)
qed

lemma reply_wf:
  assumes "seq_inv s" and "redeemed r s s1"
  shows "seq_inv (push_entry (new_entry t c (Some r) d s) (set_lock u s1))"
  using redeemed_wf [OF assms] redeemed_fields [OF assms(2)] redeemed_free [OF assms]
  by (intro push_entry_wf) (simp_all add: lock_only_wf)

lemma ack_wf:
  assumes "seq_inv s" and "redeemed r s s1"
  shows "seq_inv (set_lock u s1)"
  using redeemed_wf [OF assms] by (rule lock_only_wf(1))

text \<open>A slot is free for the reply to any issued number.\<close>

lemma reply_slot_free:
  assumes "seq_inv s" and "r \<in># reserved s"
  shows "send_window s ! slot (cap_of s) (next_send_seq_no s) = None"
proof -
  have "0 < size (reserved s)" using assms(2) by (metis nonempty_has_size empty_not_add_mset multi_member_split)
  then have "0 < concurrent_replies_total s"
    using size_reserved wf_parts(1,5) [OF assms(1)] by metis
  then show ?thesis
    using wf_parts(5) [OF assms(1)] by (auto simp: reserved_ok_def dest: spec [of _ 0])
qed

lemma remove_reservation_mono:
  "agrees (reply_raw_and_direct Debug t r u c d s) (reply_raw_and_direct Release t r u c d s)"
  "agrees (ack_raw_and_direct Debug r u s) (ack_raw_and_direct Release r u s)"
  unfolding reply_raw_and_direct_def ack_raw_and_direct_def unlock_if_def by (intro build_mono)+

declare remove_reservation_mono [build_mono]

section \<open>The contract of reply numbers\<close>

text \<open>
  A desk hands out reply numbers and takes each of them back once. The client sees a multiset of
  outstanding numbers; redeeming one that is outstanding succeeds, any other is refused and
  changes nothing.
\<close>

fun redeem_seq :: "(seq_no \<Rightarrow> 'st \<Rightarrow> (bool \<times> 'st) option) \<Rightarrow> seq_no list \<Rightarrow> 'st \<Rightarrow>
    (seq_no list \<times> 'st) option" where
  "redeem_seq redeem [] s = Some ([], s)"
| "redeem_seq redeem (r # rs) s = do {
     (ok, s) \<leftarrow> redeem r s;
     (used, s) \<leftarrow> redeem_seq redeem rs s;
     Some (if ok then r # used else used, s)
   }"

locale reply_desk =
  fixes issued :: "'st \<Rightarrow> seq_no multiset"
    and inv :: "'st \<Rightarrow> bool"
    and redeem :: "seq_no \<Rightarrow> 'st \<Rightarrow> (bool \<times> 'st) option"
  assumes redeem_known:
      "inv s \<Longrightarrow> r \<in># issued s \<Longrightarrow>
       \<exists>s'. redeem r s = Some (True, s') \<and> inv s' \<and> issued s' = issued s - {#r#}"
    and redeem_unknown:
      "inv s \<Longrightarrow> r \<notin># issued s \<Longrightarrow> redeem r s = Some (False, s)"
begin

text \<open>
  However the numbers are presented, and however often, the accepted ones are the part of them
  that was outstanding, counted with multiplicity.
\<close>

lemma redeem_seq_accepts:
  "inv s \<Longrightarrow> \<exists>used s'. redeem_seq redeem rs s = Some (used, s') \<and> inv s'
     \<and> mset used = mset rs \<inter># issued s \<and> issued s' = issued s - mset rs"
proof (induction rs arbitrary: s)
  case (Cons r rs)
  show ?case
  proof (cases "r \<in># issued s")
    case True
    with redeem_known [OF Cons.prems] obtain s1 where
      s1: "redeem r s = Some (True, s1)" "inv s1" "issued s1 = issued s - {#r#}" by blast
    with Cons.IH obtain used s' where
      "redeem_seq redeem rs s1 = Some (used, s')" "inv s'"
      "mset used = mset rs \<inter># issued s1" "issued s' = issued s1 - mset rs" by blast
    moreover from True obtain m where "issued s = add_mset r m"
      by (auto dest: multi_member_split)
    ultimately show ?thesis
      using s1 by simp
  next
    case False
    with redeem_unknown [OF Cons.prems] have "redeem r s = Some (False, s)" by blast
    moreover obtain used s' where
      "redeem_seq redeem rs s = Some (used, s')" "inv s'"
      "mset used = mset rs \<inter># issued s" "issued s' = issued s - mset rs"
      using Cons.IH [OF Cons.prems] by blast
    ultimately show ?thesis
      using False by (auto simp: multiset_eq_iff not_in_iff)
  qed
qed simp

lemma redeem_at_most_issued:
  "inv s \<Longrightarrow> redeem_seq redeem rs s = Some (used, s') \<Longrightarrow> count (mset used) r \<le> count (issued s) r"
  using redeem_seq_accepts [of s rs] by auto

end

definition ack_redeem :: "build \<Rightarrow> seq_no \<Rightarrow> ('s, 'r) seqex \<Rightarrow> (bool \<times> ('s, 'r) seqex) option" where
  "ack_redeem b r s = map_option (\<lambda>(p, s). (p \<noteq> None, s)) (ack_raw_and_direct b r False s)"

definition reply_redeem ::
  "i64 \<Rightarrow> bool \<Rightarrow> 's \<Rightarrow> seq_no \<Rightarrow> ('s, 'r) seqex \<Rightarrow> (bool \<times> ('s, 'r) seqex) option" where
  "reply_redeem t c d r s =
     map_option (\<lambda>(p, s). (p \<noteq> None, s)) (reply_raw_and_direct Release t r False c d s)"

lemma redeemed_reserved:
  assumes "redeemed r s s1"
  shows "reserved (set_lock u s1) = reserved s - {#r#}"
    and "reserved (push_entry e (set_lock u s1)) = reserved s - {#r#}"
  using assms by (simp_all add: push_entry_views reserved_cong [of "set_lock u s1" s1] redeemed_def)

interpretation ack_desk: reply_desk reserved seq_inv "ack_redeem b" for b
proof unfold_locales
  fix s :: "('a, 'b) seqex" and r
  assume "seq_inv s"
  show "\<exists>s'. ack_redeem b r s = Some (True, s') \<and> seq_inv s' \<and> reserved s' = reserved s - {#r#}"
    if "r \<in># reserved s"
    by (rule ack_known [OF seq_inv_core [OF \<open>seq_inv s\<close>] that, of b False])
      (auto simp: ack_redeem_def unlock_ok_def redeemed_reserved ack_wf [OF \<open>seq_inv s\<close>])
  show "ack_redeem b r s = Some (False, s)" if "r \<notin># reserved s"
    using reply_unknown(2) [OF seq_inv_core [OF \<open>seq_inv s\<close>] that] by (simp add: ack_redeem_def)
qed

interpretation answer_desk: reply_desk reserved seq_inv "reply_redeem t c d" for t c d
proof unfold_locales
  fix s :: "('a, 'b) seqex" and r
  assume "seq_inv s"
  show "\<exists>s'. reply_redeem t c d r s = Some (True, s') \<and> seq_inv s' \<and> reserved s' = reserved s - {#r#}"
    if "r \<in># reserved s"
    by (rule reply_known [OF seq_inv_core [OF \<open>seq_inv s\<close>] that, of Release False t c d])
      (auto simp: reply_redeem_def unlock_ok_def time_ok_def redeemed_reserved
        reply_wf [OF \<open>seq_inv s\<close>])
  show "reply_redeem t c d r s = Some (False, s)" if "r \<notin># reserved s"
    using reply_unknown(1) [OF seq_inv_core [OF \<open>seq_inv s\<close>] that] by (simp add: reply_redeem_def)
qed

section \<open>Properties\<close>

text \<open>
  C17. On a well-formed instance, with the lock held if it is to be released and no overflow of the
  resend time in a debug build, a reply to an issued reply number succeeds. The slot it is written to is free, so no
  unacknowledged packet is lost; the number is used up, the lock is released if asked, and the
  instance stays well-formed.
\<close>

theorem reply_never_overwrites:
  assumes "seq_inv s" and "r \<in># reserved s" and "unlock_ok b u s" and "time_ok b t s"
  shows "\<exists>s'. reply_raw_and_direct b t r u c d s
        = Some (Some (to_packet (new_entry t c (Some r) d s)), s')
      \<and> send_window s ! slot (cap_of s) (next_send_seq_no s) = None
      \<and> sent s' = (sent s)(next_send_seq_no s \<mapsto> new_entry t c (Some r) d s)
      \<and> reserved s' = reserved s - {#r#} \<and> received s' = received s
      \<and> is_locked s' = (is_locked s \<and> \<not> u) \<and> seq_inv s'"
proof -
  let ?e = "new_entry t c (Some r) d s"
  note free = reply_slot_free [OF assms(1,2)]
  obtain s1 where red: "redeemed r s s1"
    and run: "reply_raw_and_direct b t r u c d s
      = Some (Some (to_packet ?e), push_entry ?e (set_lock u s1))"
    using reply_known [OF seq_inv_core [OF assms(1)] assms(2-4)] free by blast
  note fields = redeemed_fields [OF red]
  have "shape (set_lock u s1)"
    using ack_wf [OF assms(1) red] by (rule wf_parts)
  then have "sent (push_entry ?e (set_lock u s1)) = (sent s)(next_send_seq_no s \<mapsto> ?e)"
    using free fields by (simp add: push_entry_sent sent_cong [of "set_lock u s1" s])
  moreover have "received (set_lock u s1) = received s"
    using fields by (simp add: received_def fun_eq_iff)
  ultimately show ?thesis
    using run reply_wf [OF assms(1) red] red free fields
    by (simp add: redeemed_reserved push_entry_views)
qed

theorem reply_never_overwrites_witness:
  "\<exists>s'. reply_raw_and_direct Debug 10 0 True False 7 (issue 0 True None (fresh 8))
        = Some (Some (Reply 0 0 7), s')
      \<and> reserved s' = {#} \<and> \<not> is_locked s' \<and> seq_inv s'"
proof -
  let ?s = "issue 0 True None (fresh 8)"
  have inv: "seq_inv ?s"
    by (rule issue_wf [OF fresh_inv(2) fresh_room]) (simp add: reply_ok_def)
  have issued: "0 \<in># reserved ?s" and ok: "unlock_ok Debug True ?s" "time_ok Debug 10 ?s"
    and packet: "to_packet (new_entry 10 False (Some 0) 7 ?s) = Reply 0 0 7"
    by code_simp+
  have left: "reserved ?s - {#0#} = {#}" by code_simp
  from reply_never_overwrites [OF inv issued ok, of False 7] packet left
  show ?thesis by auto
qed

text \<open>
  C18. Reply numbers are single use. Whatever list of numbers is presented to
  \<^verbatim>\<open>ack_raw\<close> on a well-formed instance, none is accepted more often than it was
  issued, and after the calls exactly the unused ones remain.
\<close>

theorem acks_are_single_use:
  assumes "seq_inv s"
  shows "\<exists>used s'. redeem_seq (ack_redeem b) rs s = Some (used, s') \<and> seq_inv s'
    \<and> mset used = mset rs \<inter># reserved s \<and> reserved s' = reserved s - mset rs"
  using assms by (rule ack_desk.redeem_seq_accepts)

theorem acks_are_single_use_witness:
  "\<exists>used s'. redeem_seq (ack_redeem Debug) [5, 0, 0] (issue 0 False None (fresh 8)) = Some (used, s')
    \<and> mset used = {#0#} \<and> reserved s' = {#}"
proof -
  let ?s = "issue 0 False None (fresh 8)"
  have "seq_inv ?s" by (rule issue_wf [OF fresh_inv(2) fresh_room]) (simp add: reply_ok_def)
  moreover have "mset [5, 0, 0] \<inter># reserved ?s = {#0#}" "reserved ?s - mset [5, 0, 0] = {#}"
    by code_simp+
  ultimately show ?thesis
    using acks_are_single_use [of ?s Debug "[5, 0, 0]"] by auto
qed

end
