(* ===== verification/Service.thy ===== *)
theory Service
  imports Reply_Path
begin

text \<open>
  Resending on the low-level instance: \<^verbatim>\<open>service_direct\<close>, which returns one due
  packet per call, and the loop that calls it until it returns \<^verbatim>\<open>None\<close>. The loop is
  shown equal to one sweep over the slots, oldest sequence number first.
\<close>

section \<open>Operations\<close>

text \<open>
  The \<^verbatim>\<open>while\<close> loop of \<^verbatim>\<open>service_direct\<close>, from an iterator. It moves the
  iterator towards \<open>next_send_seq_no\<close> in every iteration.
\<close>

function service_scan ::
  "build \<Rightarrow> i64 \<Rightarrow> service_iter \<Rightarrow> ('s, 'r) seqex \<Rightarrow>
   ('s packet option \<times> service_iter \<times> ('s, 'r) seqex) option" where
  "service_scan b current_time it s =
     (if iter_seq_no it = next_send_seq_no s
      then Some (None, it, s\<lparr>next_service_timestamp := iter_next_time it\<rparr>)
      else
        let idx = slot (cap_of s) (iter_seq_no it);
            it' = it\<lparr>iter_seq_no := iter_seq_no it + 1\<rparr>
        in case arr_get (send_window s) idx of
             None \<Rightarrow> None
           | Some None \<Rightarrow> service_scan b current_time it' s
           | Some (Some e) \<Rightarrow>
               if sint (next_resend_time e) \<le> sint current_time then
                 (case i64_add b current_time (resend_interval s) of
                    None \<Rightarrow> None
                  | Some t \<Rightarrow>
                      let e' = e\<lparr>next_resend_time := t\<rparr>
                      in Some (Some (to_packet e'),
                               it'\<lparr>iter_next_time := i64_min_of (iter_next_time it) t\<rparr>,
                               s\<lparr>send_window := (send_window s)[idx := Some e']\<rparr>))
               else service_scan b current_time
                      (it'\<lparr>iter_next_time := i64_min_of (iter_next_time it) (next_resend_time e)\<rparr>) s)"
  by pat_completeness auto
termination
  by (relation "measure (\<lambda>(b, t, it, s). unat (next_send_seq_no s - iter_seq_no it))")
    (auto simp: offset_pred)

declare service_scan.simps [simp del]

definition service_direct ::
  "build \<Rightarrow> i64 \<Rightarrow> service_iter option \<Rightarrow> ('s, 'r) seqex \<Rightarrow>
   ('s packet option \<times> service_iter option \<times> ('s, 'r) seqex) option" where
  "service_direct b current_time siter s =
     (if sint (next_service_timestamp s) \<le> sint current_time then do {
        let it = (case siter of
                    Some it \<Rightarrow> it
                  | None \<Rightarrow> \<lparr> iter_seq_no = next_send_seq_no s - u32_of_usize (cap_of s),
                              iter_next_time = i64_max \<rparr>);
        (p, it, s) \<leftarrow> service_scan b current_time it s;
        Some (p, Some it, s)
      }
      else Some (None, siter, s))"

lemma service_scan_stop:
  "iter_seq_no it = next_send_seq_no s \<Longrightarrow>
   service_scan b t it s = Some (None, it, s\<lparr>next_service_timestamp := iter_next_time it\<rparr>)"
  by (simp add: service_scan.simps [of b t it s])

definition step_iter :: "service_iter \<Rightarrow> service_iter" where
  "step_iter it = it\<lparr>iter_seq_no := iter_seq_no it + 1\<rparr>"

definition note_time :: "i64 \<Rightarrow> service_iter \<Rightarrow> service_iter" where
  "note_time t it = it\<lparr>iter_next_time := i64_min_of (iter_next_time it) t\<rparr>"

lemma iter_fields [simp]:
  "iter_seq_no (step_iter it) = iter_seq_no it + 1"
  "iter_next_time (step_iter it) = iter_next_time it"
  "iter_seq_no (note_time t it) = iter_seq_no it"
  "iter_next_time (note_time t it) = i64_min_of (iter_next_time it) t"
  by (simp_all add: step_iter_def note_time_def)

lemma service_scan_step:
  assumes "iter_seq_no it \<noteq> next_send_seq_no s"
  shows "service_scan b t it s =
    (let idx = slot (cap_of s) (iter_seq_no it)
     in case arr_get (send_window s) idx of
          None \<Rightarrow> None
        | Some None \<Rightarrow> service_scan b t (step_iter it) s
        | Some (Some e) \<Rightarrow>
            if sint (next_resend_time e) \<le> sint t then
              (case i64_add b t (resend_interval s) of
                 None \<Rightarrow> None
               | Some t' \<Rightarrow>
                   Some (Some (to_packet (e\<lparr>next_resend_time := t'\<rparr>)),
                         note_time t' (step_iter it),
                         s\<lparr>send_window := (send_window s)[idx := Some (e\<lparr>next_resend_time := t'\<rparr>)]\<rparr>))
            else service_scan b t (note_time (next_resend_time e) (step_iter it)) s)"
  using assms
  by (simp add: service_scan.simps [of b t it s] step_iter_def note_time_def Let_def
      split: option.split)

lemma service_scan_progress:
  "service_scan b t it s = Some (Some p, it', s') \<Longrightarrow>
     next_send_seq_no s' = next_send_seq_no s
     \<and> unat (next_send_seq_no s - iter_seq_no it') < unat (next_send_seq_no s - iter_seq_no it)"
proof (induction "unat (next_send_seq_no s - iter_seq_no it)" arbitrary: it)
  case 0
  then have "iter_seq_no it = next_send_seq_no s" by (simp add: unat_eq_0)
  with "0.prems" show ?case by (simp add: service_scan_stop)
next
  case (Suc k)
  then have ne: "next_send_seq_no s \<noteq> iter_seq_no it" by auto
  from Suc.hyps(2) offset_pred [OF ne] have k: "k = unat (next_send_seq_no s - (iter_seq_no it + 1))"
    by simp
  with Suc.hyps(1) [of "step_iter it"] Suc.hyps(1) [of "note_time t' (step_iter it)" for t']
    Suc.prems ne show ?case
    using offset_pred [OF ne]
    by (fastforce simp: service_scan_step Let_def split: option.splits if_splits)
qed

text \<open>What is left to scan: everything, before the iterator exists.\<close>

definition service_left :: "service_iter option \<Rightarrow> ('s, 'r) seqex \<Rightarrow> nat" where
  "service_left siter s = (case siter of
     None \<Rightarrow> 2 ^ 32 | Some it \<Rightarrow> unat (next_send_seq_no s - iter_seq_no it))"

lemma service_direct_progress:
  assumes "service_direct b t siter s = Some (Some p, siter', s')"
  shows "service_left siter' s' < service_left siter s"
proof -
  have bound: "unat (n :: seq_no) < 2 ^ 32" for n
    using unsigned_less [of n] by simp
  from assms obtain it it' where scan: "service_scan b t it s = Some (Some p, it', s')"
    and it': "siter' = Some it'" and it: "siter = Some it \<or> siter = None"
    by (auto simp: service_direct_def bind_eq_Some_conv Let_def split: if_splits option.splits)
  from service_scan_progress [OF scan] it it' bound [of "next_send_seq_no s - iter_seq_no it'"]
  show ?thesis
    by (auto simp: service_left_def)
qed

text \<open>
  \<^verbatim>\<open>while let Some(p) = service_direct(current_time, &mut iter)\<close>: the packets it
  yields, in order.
\<close>

function service_loop ::
  "build \<Rightarrow> i64 \<Rightarrow> service_iter option \<Rightarrow> ('s, 'r) seqex \<Rightarrow> ('s packet list \<times> ('s, 'r) seqex) option" where
  "service_loop b current_time siter s =
     (case service_direct b current_time siter s of
        None \<Rightarrow> None
      | Some (None, siter', s') \<Rightarrow> Some ([], s')
      | Some (Some p, siter', s') \<Rightarrow>
          map_option (\<lambda>(ps, s''). (p # ps, s'')) (service_loop b current_time siter' s'))"
  by pat_completeness auto
termination
  by (relation "measure (\<lambda>(b, t, siter, s). service_left siter s)")
    (auto dest: service_direct_progress)

declare service_loop.simps [simp del]

section \<open>The loop is one sweep\<close>

definition due :: "i64 \<Rightarrow> 's send_entry \<Rightarrow> bool" where
  "due t e \<longleftrightarrow> sint (next_resend_time e) \<le> sint t"

definition refresh :: "i64 \<Rightarrow> i64 \<Rightarrow> 's send_entry \<Rightarrow> 's send_entry" where
  "refresh t iv e = (if due t e then e\<lparr>next_resend_time := t + iv\<rparr> else e)"

lemma refresh_fields [simp]:
  "entry_seq_no (refresh t iv e) = entry_seq_no e"
  "entry_reply_no (refresh t iv e) = entry_reply_no e"
  "entry_seq_cst (refresh t iv e) = entry_seq_cst e"
  "entry_data (refresh t iv e) = entry_data e"
  by (simp_all add: refresh_def)

lemma to_packet_time [simp]: "to_packet (e\<lparr>next_resend_time := t\<rparr>) = to_packet e"
  by (cases "entry_reply_no e") (simp_all add: to_packet_def)

text \<open>
  The reference: visit the slots of a list in order, return the packets of the due entries, refresh
  them, and fold the minimum of the resulting resend times.
\<close>

fun sweep :: "i64 \<Rightarrow> i64 \<Rightarrow> nat list \<Rightarrow> 's send_entry option list \<Rightarrow> i64 \<Rightarrow>
    's packet list \<times> 's send_entry option list \<times> i64" where
  "sweep t iv [] w m = ([], w, m)"
| "sweep t iv (i # is) w m =
     (case w ! i of
        None \<Rightarrow> sweep t iv is w m
      | Some e \<Rightarrow>
          let e' = refresh t iv e;
              (ps, w', m') = sweep t iv is (w[i := Some e']) (i64_min_of m (next_resend_time e'))
          in (if due t e then to_packet e # ps else ps, w', m'))"

text \<open>The slots from sequence number \<open>n\<close> up to the next one to be sent.\<close>

definition slots_from :: "('s, 'r) seqex \<Rightarrow> seq_no \<Rightarrow> nat list" where
  "slots_from s n = map (\<lambda>j. slot (cap_of s) (n + of_nat j)) [0..<unat (next_send_seq_no s - n)]"

lemma slots_from_end: "slots_from s (next_send_seq_no s) = []"
  by (simp add: slots_from_def)

lemma slots_from_step:
  assumes "next_send_seq_no s \<noteq> n"
  shows "slots_from s n = slot (cap_of s) n # slots_from s (n + 1)"
  by (simp add: slots_from_def offset_pred [OF assms] upt_conv_Cons map_Suc_upt [symmetric]
      add.assoc del: upt_Suc)

lemma slots_from_cong:
  "cap_of s' = cap_of s \<Longrightarrow> next_send_seq_no s' = next_send_seq_no s \<Longrightarrow>
   slots_from s' = slots_from s"
  by (simp add: slots_from_def fun_eq_iff)

definition swept :: "('s, 'r) seqex \<Rightarrow> 's packet list \<times> 's send_entry option list \<times> i64 \<Rightarrow>
    's packet list \<times> ('s, 'r) seqex" where
  "swept s r = (case r of (ps, w, m) \<Rightarrow> (ps, s\<lparr>send_window := w, next_service_timestamp := m\<rparr>))"

lemma service_loop_Some:
  assumes "sint (next_service_timestamp s) \<le> sint t"
  shows "service_loop b t (Some it) s =
    (case service_scan b t it s of
       None \<Rightarrow> None
     | Some (None, it', s') \<Rightarrow> Some ([], s')
     | Some (Some p, it', s') \<Rightarrow>
         map_option (\<lambda>(ps, s''). (p # ps, s'')) (service_loop b t (Some it') s'))"
  using assms
  by (simp add: service_loop.simps [of b t "Some it" s] service_direct_def
      split: option.split prod.split)

lemma service_loop_sweep:
  assumes "shape s" and "time_ok b t s" and "sint (next_service_timestamp s) \<le> sint t"
  shows "service_loop b t (Some it) s = Some (swept s
    (sweep t (resend_interval s) (slots_from s (iter_seq_no it)) (send_window s) (iter_next_time it)))"
  using assms
proof (induction "unat (next_send_seq_no s - iter_seq_no it)" arbitrary: it s)
  case 0
  then have "iter_seq_no it = next_send_seq_no s" by (simp add: unat_eq_0)
  with "0.prems" show ?case
    by (simp add: service_loop_Some service_scan_stop slots_from_end swept_def)
next
  case (Suc k)
  let ?n = "iter_seq_no it" and ?iv = "resend_interval s"
  let ?i = "slot (cap_of s) ?n"
  from Suc.hyps(2) have ne: "next_send_seq_no s \<noteq> ?n" "?n \<noteq> next_send_seq_no s" by auto
  from Suc.hyps(2) offset_pred [OF ne(1)] have k: "k = unat (next_send_seq_no s - (?n + 1))" by simp
  note bounds = shape_bounds [OF Suc.prems(1)]
  note slots = slots_from_step [OF ne(1)]
  have time: "i64_add b t ?iv = Some (t + ?iv)" using Suc.prems(2) by (rule time_ok_add)
  have skip: "service_loop b t (Some it') s = service_loop b t (Some it) s"
    if "service_scan b t it s = service_scan b t it' s" for it'
    using that Suc.prems(3) by (simp add: service_loop_Some)
  show ?case
  proof (cases "send_window s ! ?i")
    case None
    then have "service_loop b t (Some (step_iter it)) s = service_loop b t (Some it) s"
      using ne bounds by (intro skip) (simp add: service_scan_step Let_def)
    with Suc.hyps(1) [OF _ Suc.prems, of "step_iter it"] k None slots show ?thesis by simp
  next
    case (Some e)
    show ?thesis
    proof (cases "due t e")
      case False
      then have "service_loop b t (Some (note_time (next_resend_time e) (step_iter it))) s
          = service_loop b t (Some it) s"
        using ne bounds Some by (intro skip) (simp add: service_scan_step Let_def due_def)
      moreover have "(send_window s)[?i := Some e] = send_window s"
        using Some list_update_id [of "send_window s" ?i] by simp
      ultimately show ?thesis
        using Suc.hyps(1) [OF _ Suc.prems, of "note_time (next_resend_time e) (step_iter it)"]
          k Some slots False
        by (simp add: refresh_def Let_def case_prod_unfold)
    next
      case True
      let ?e = "e\<lparr>next_resend_time := t + ?iv\<rparr>"
      let ?s = "s\<lparr>send_window := (send_window s)[?i := Some ?e]\<rparr>"
      let ?it = "note_time (t + ?iv) (step_iter it)"
      have scan: "service_scan b t it s = Some (Some (to_packet e), ?it, ?s)"
        using ne bounds Some True time by (simp add: service_scan_step Let_def due_def)
      have "shape ?s" using Suc.prems(1) by (simp add: shape_def)
      moreover have "time_ok b t ?s" using Suc.prems(2) by (simp add: time_ok_def)
      ultimately have "service_loop b t (Some ?it) ?s = Some (swept ?s (sweep t ?iv
          (slots_from ?s (iter_seq_no ?it)) (send_window ?s) (iter_next_time ?it)))"
        using Suc.hyps(1) [of ?s ?it] Suc.prems(3) k by simp
      then show ?thesis
        using Suc.prems(3) scan Some True slots slots_from_cong [of ?s s]
        by (simp add: service_loop_Some refresh_def Let_def swept_def case_prod_unfold)
    qed
  qed
qed

section \<open>What a sweep does\<close>

definition due_packets :: "i64 \<Rightarrow> 's send_entry option \<Rightarrow> 's packet list" where
  "due_packets t x = (case x of Some e \<Rightarrow> if due t e then [to_packet e] else [] | None \<Rightarrow> [])"

definition entry_times :: "i64 \<Rightarrow> i64 \<Rightarrow> 's send_entry option \<Rightarrow> i64 list" where
  "entry_times t iv x = (case x of Some e \<Rightarrow> [next_resend_time (refresh t iv e)] | None \<Rightarrow> [])"

definition refresh_at :: "i64 \<Rightarrow> i64 \<Rightarrow> nat set \<Rightarrow> 's send_entry option list \<Rightarrow> 's send_entry option list" where
  "refresh_at t iv A w =
     map (\<lambda>i. if i \<in> A then map_option (refresh t iv) (w ! i) else w ! i) [0..<length w]"

definition min_times :: "i64 list \<Rightarrow> i64 \<Rightarrow> i64" where
  "min_times ts m = fold (\<lambda>x m. i64_min_of m x) ts m"

lemma min_times_simps [simp]:
  "min_times [] m = m"
  "min_times (x # ts) m = min_times ts (i64_min_of m x)"
  "min_times (ts @ us) m = min_times us (min_times ts m)"
  by (simp_all add: min_times_def)

lemma min_times_le:
  "sint (min_times ts m) \<le> sint m" "x \<in> set ts \<Longrightarrow> sint (min_times ts m) \<le> sint x"
proof -
  show le: "sint (min_times ts m) \<le> sint m" for ts m
  proof (induction ts arbitrary: m)
    case (Cons y ts)
    have "sint (i64_min_of m y) \<le> sint m" by (simp add: i64_min_of_def)
    with Cons.IH [of "i64_min_of m y"] show ?case by simp
  qed simp
  show "x \<in> set ts \<Longrightarrow> sint (min_times ts m) \<le> sint x"
  proof (induction ts arbitrary: m)
    case (Cons y ts)
    have "sint (min_times ts (i64_min_of m y)) \<le> sint (i64_min_of m y)" by (rule le)
    also have "\<dots> \<le> sint y" by (simp add: i64_min_of_def)
    finally show ?case using Cons by auto
  qed simp
qed

lemma min_times_in: "min_times ts m = m \<or> min_times ts m \<in> set ts"
proof (induction ts arbitrary: m)
  case (Cons y ts)
  from Cons.IH [of "i64_min_of m y"] show ?case
    by (auto simp: i64_min_of_def split: if_splits)
qed simp

lemma due_packets_simps [simp]:
  "due_packets t None = []"
  "due_packets t (Some e) = (if due t e then [to_packet e] else [])"
  by (simp_all add: due_packets_def)

lemma entry_times_simps [simp]:
  "entry_times t iv None = []"
  "entry_times t iv (Some e) = [next_resend_time (refresh t iv e)]"
  by (simp_all add: entry_times_def)

lemma length_refresh_at [simp]: "length (refresh_at t iv A w) = length w"
  by (simp add: refresh_at_def)

lemma nth_refresh_at:
  "i < length w \<Longrightarrow>
   refresh_at t iv A w ! i = (if i \<in> A then map_option (refresh t iv) (w ! i) else w ! i)"
  by (simp add: refresh_at_def)

lemma sweep_eq:
  "distinct is \<Longrightarrow> set is \<subseteq> {..<length w} \<Longrightarrow> sweep t iv is w m =
     (concat (map (\<lambda>i. due_packets t (w ! i)) is), refresh_at t iv (set is) w,
      min_times (concat (map (\<lambda>i. entry_times t iv (w ! i)) is)) m)"
proof (induction "is" arbitrary: w m)
  case Nil
  then show ?case by (simp add: refresh_at_def map_nth)
next
  case (Cons i "is")
  show ?case
  proof (cases "w ! i")
    case None
    have "refresh_at t iv (insert i (set is)) w = refresh_at t iv (set is) w"
      using None by (auto simp: refresh_at_def)
    with None Cons show ?thesis by simp
  next
    case (Some e)
    let ?w = "w[i := Some (refresh t iv e)]"
    have same: "?w ! j = w ! j" if "j \<in> set is" for j
      using that Cons.prems(1) by (cases "j = i") auto
    have "refresh_at t iv (set is) ?w = refresh_at t iv (insert i (set is)) w"
    proof (rule nth_equalityI)
      fix j assume "j < length (refresh_at t iv (set is) ?w)"
      then show "refresh_at t iv (set is) ?w ! j = refresh_at t iv (insert i (set is)) w ! j"
        using Cons.prems Some by (cases "j = i") (simp_all add: nth_refresh_at)
    qed simp
    moreover have "map (\<lambda>j. due_packets t (?w ! j)) is = map (\<lambda>j. due_packets t (w ! j)) is"
      and "map (\<lambda>j. entry_times t iv (?w ! j)) is = map (\<lambda>j. entry_times t iv (w ! j)) is"
      using same by simp_all
    moreover have "sweep t iv is ?w m' = (concat (map (\<lambda>j. due_packets t (?w ! j)) is),
        refresh_at t iv (set is) ?w, min_times (concat (map (\<lambda>j. entry_times t iv (?w ! j)) is)) m')" for m'
      using Cons by simp
    ultimately have "sweep t iv is ?w m' = (concat (map (\<lambda>j. due_packets t (w ! j)) is),
        refresh_at t iv (insert i (set is)) w, min_times (concat (map (\<lambda>j. entry_times t iv (w ! j)) is)) m')" for m'
      by (simp only:)
    with Some show ?thesis by (simp add: Let_def)
  qed
qed

text \<open>From one capacity back, the sweep visits every slot once.\<close>

lemma all_slots:
  assumes "shape s"
  defines "js \<equiv> slots_from s (next_send_seq_no s - u32_of_usize (cap_of s))"
  shows "distinct js" and "set js = {..<cap_of s}"
    and "js = map (\<lambda>j. slot (cap_of s) (next_send_seq_no s - of_nat (cap_of s) + of_nat j)) [0..<cap_of s]"
proof -
  let ?n = "next_send_seq_no s - of_nat (cap_of s)"
  note bounds = shape_bounds [OF assms(1)]
  have "unat (of_nat (cap_of s) :: seq_no) = cap_of s"
    using bounds(2) by (simp add: unat_u32_of_nat)
  then show js: "js = map (\<lambda>j. slot (cap_of s) (?n + of_nat j)) [0..<cap_of s]"
    by (simp add: js_def slots_from_def u32_of_usize_def)
  have "inj_on (\<lambda>j. slot (cap_of s) (?n + of_nat j)) {..<cap_of s}"
  proof (rule inj_onI)
    fix i j
    assume eq: "slot (cap_of s) (?n + of_nat i) = slot (cap_of s) (?n + of_nat j)"
      and less: "i \<in> {..<cap_of s}" "j \<in> {..<cap_of s}"
    note eq [unfolded window_ring.slot_add [OF shape_ring [OF assms(1)]]]
    then show "i = j"
      by (rule mod_shift_inj) (use less in simp_all)
  qed
  then show dist: "distinct js"
    by (simp add: js distinct_map lessThan_atLeast0)
  have "set js \<subseteq> {..<cap_of s}"
    using bounds(4) by (auto simp: js)
  moreover have "card (set js) = cap_of s"
    using distinct_card [OF dist] by (simp add: js)
  ultimately show "set js = {..<cap_of s}"
    by (intro card_subset_eq) simp_all
qed

section \<open>The timer\<close>

text \<open>
  \<open>next_service_timestamp\<close> is a lower bound of the resend times, so a caller that waits for it
  misses no packet.
\<close>

definition timer_ok :: "('s, 'r) seqex \<Rightarrow> bool" where
  "timer_ok s \<longleftrightarrow> (\<forall>i < cap_of s. \<forall>e. send_window s ! i = Some e \<longrightarrow>
     sint (next_service_timestamp s) \<le> sint (next_resend_time e))"

text \<open>The packets that a service at time \<open>t\<close> sends, oldest sequence number first.\<close>

definition due_in_order :: "i64 \<Rightarrow> ('s, 'r) seqex \<Rightarrow> 's packet list" where
  "due_in_order t s = concat (map
     (\<lambda>j. due_packets t (sent s (next_send_seq_no s - of_nat (cap_of s) + of_nat j))) [0..<cap_of s])"

text \<open>The instance after the sweep.\<close>

definition serviced :: "i64 \<Rightarrow> ('s, 'r) seqex \<Rightarrow> ('s, 'r) seqex" where
  "serviced t s =
     (let w = map (map_option (refresh t (resend_interval s))) (send_window s)
      in s\<lparr>send_window := w,
           next_service_timestamp := min_times (concat (map
             (\<lambda>i. entry_times t (resend_interval s) (send_window s ! i))
             (slots_from s (next_send_seq_no s - u32_of_usize (cap_of s))))) i64_max\<rparr>)"

lemma serviced_fields [simp]:
  "resend_interval (serviced t s) = resend_interval s"
  "next_send_seq_no (serviced t s) = next_send_seq_no s"
  "next_recv_seq_no (serviced t s) = next_recv_seq_no s"
  "recv_window (serviced t s) = recv_window s"
  "concurrent_replies (serviced t s) = concurrent_replies s"
  "concurrent_replies_total (serviced t s) = concurrent_replies_total s"
  "is_locked (serviced t s) = is_locked s"
  "send_window (serviced t s) = map (map_option (refresh t (resend_interval s))) (send_window s)"
  by (simp_all add: serviced_def Let_def)

lemma sent_slot:
  assumes "seq_inv s" and "unat (next_send_seq_no s - 1 - q) < cap_of s"
  shows "sent s q = send_window s ! slot (cap_of s) q"
proof (cases "send_window s ! slot (cap_of s) q")
  case (Some e)
  note parts = wf_parts [OF assms(1)] and bounds = shape_bounds [OF wf_parts(1) [OF assms(1)]]
  from send_okD [OF parts(2) bounds(4) Some] assms(2) have "entry_seq_no e = q"
    using window_ring.slot_inj_back [OF shape_ring [OF parts(1)]] by blast
  with Some show ?thesis by (simp add: sent_def)
qed (simp add: sent_def)

lemma window_age:
  fixes n :: seq_no
  assumes "shape s" and "j < cap_of s"
  shows "unat (n - 1 - (n - of_nat (cap_of s) + of_nat j)) < cap_of s"
proof -
  have "n - 1 - (n - of_nat (cap_of s) + of_nat j) = of_nat (cap_of s - 1 - j)"
    using assms(2) by (simp add: of_nat_diff)
  moreover have "cap_of s - 1 - j < 2 ^ 32" using shape_bounds(2) [OF assms(1)] by simp
  ultimately have "unat (n - 1 - (n - of_nat (cap_of s) + of_nat j)) = cap_of s - 1 - j"
    by (simp only: unat_u32_of_nat)
  with assms(2) show ?thesis by simp
qed

lemma service_loop_shape:
  assumes shape: "shape s" and "time_ok b t s" and "sint (next_service_timestamp s) \<le> sint t"
  shows "service_loop b t None s = Some (concat (map (\<lambda>i. due_packets t (send_window s ! i))
    (slots_from s (next_send_seq_no s - u32_of_usize (cap_of s)))), serviced t s)"
proof -
  let ?n = "next_send_seq_no s - u32_of_usize (cap_of s)"
  let ?it = "\<lparr> iter_seq_no = ?n, iter_next_time = i64_max \<rparr>"
  note slots = all_slots [OF shape]
  have "service_loop b t None s = service_loop b t (Some ?it) s"
    using assms(3)
    by (simp add: service_loop.simps [of b t None s] service_loop.simps [of b t "Some ?it" s]
        service_direct_def)
  also have "\<dots> = Some (swept s (sweep t (resend_interval s) (slots_from s ?n) (send_window s) i64_max))"
    using service_loop_sweep [OF shape assms(2,3), of ?it] by simp
  also have "\<dots> = Some (concat (map (\<lambda>i. due_packets t (send_window s ! i)) (slots_from s ?n)), serviced t s)"
  proof -
    have "refresh_at t (resend_interval s) (set (slots_from s ?n)) (send_window s)
        = map (map_option (refresh t (resend_interval s))) (send_window s)"
      unfolding slots(2) by (rule nth_equalityI) (simp_all add: nth_refresh_at)
    then show ?thesis
      using slots(1,2) by (simp add: sweep_eq swept_def serviced_def)
  qed
  finally show ?thesis .
qed

lemma service_loop_eq:
  assumes "seq_inv s" and "time_ok b t s" and "sint (next_service_timestamp s) \<le> sint t"
  shows "service_loop b t None s = Some (due_in_order t s, serviced t s)"
proof -
  note shape = wf_parts(1) [OF assms(1)]
  let ?n = "next_send_seq_no s - u32_of_usize (cap_of s)"
  have "concat (map (\<lambda>i. due_packets t (send_window s ! i)) (slots_from s ?n)) = due_in_order t s"
    unfolding due_in_order_def all_slots(3) [OF shape] map_map comp_def
    by (intro arg_cong [where f = concat] map_cong refl)
      (simp add: sent_slot [OF assms(1) window_age [OF shape]])
  with service_loop_shape [OF shape assms(2,3)] show ?thesis by simp
qed

lemma service_loop_early:
  "sint t < sint (next_service_timestamp s) \<Longrightarrow> service_loop b t None s = Some ([], s)"
  by (simp add: service_loop.simps [of b t None s] service_direct_def)

lemma serviced_sent:
  assumes "shape s"
  shows "sent (serviced t s) q = map_option (refresh t (resend_interval s)) (sent s q)"
  using shape_bounds(4) [OF assms, of q]
  by (simp add: sent_def split: option.split)

lemma serviced_wf:
  assumes "seq_inv s"
  shows "seq_inv (serviced t s)"
proof (rule wfI)
  note parts = wf_parts [OF assms]
  show "shape (serviced t s)" using parts(1) by (simp add: shape_def)
  show "send_ok (serviced t s)" using parts(2) by (auto simp: send_ok_def)
  show "recv_ok (serviced t s)" and "head_ok (serviced t s)"
    using parts(3,4) by (simp_all add: recv_cong [of "serviced t s" s])
  show "reserved_ok (serviced t s)"
    using parts(5) shape_bounds(4) [OF parts(1)] by (simp add: reserved_ok_def)
qed

lemma serviced_core: "core_inv s \<Longrightarrow> core_inv (serviced t s)"
  by (rule core_cong [of s]) (simp_all add: core_inv_def)

lemma serviced_views:
  "reserved (serviced t s) = reserved s" "received (serviced t s) = received s"
  "recv_head (serviced t s) = recv_head s"
  by (simp_all add: reserved_def received_def recv_head_def fun_eq_iff)

lemma serviced_timer:
  assumes "shape s"
  shows "timer_ok (serviced t s)"
    and "next_service_timestamp (serviced t s) = i64_max
      \<or> (\<exists>i < cap_of s. \<exists>e. send_window (serviced t s) ! i = Some e
            \<and> next_service_timestamp (serviced t s) = next_resend_time e)"
proof -
  let ?iv = "resend_interval s"
  define ts where "ts = concat (map (\<lambda>i. entry_times t ?iv (send_window s ! i))
    (slots_from s (next_send_seq_no s - u32_of_usize (cap_of s))))"
  have nst: "next_service_timestamp (serviced t s) = min_times ts i64_max"
    by (simp add: serviced_def ts_def Let_def)
  have set: "set ts = (\<Union>i < cap_of s. set (entry_times t ?iv (send_window s ! i)))"
    using all_slots(2) [OF assms] by (simp add: ts_def)
  show "timer_ok (serviced t s)"
    unfolding timer_ok_def nst
  proof (intro allI impI)
    fix i e assume "i < cap_of (serviced t s)" and "send_window (serviced t s) ! i = Some e"
    then have "next_resend_time e \<in> set ts" by (auto simp: set intro!: bexI [of _ i])
    then show "sint (min_times ts i64_max) \<le> sint (next_resend_time e)"
      by (rule min_times_le)
  qed
  show "next_service_timestamp (serviced t s) = i64_max
      \<or> (\<exists>i < cap_of s. \<exists>e. send_window (serviced t s) ! i = Some e
            \<and> next_service_timestamp (serviced t s) = next_resend_time e)"
  proof -
    have "\<exists>i < cap_of s. \<exists>e. send_window (serviced t s) ! i = Some e \<and> x = next_resend_time e"
      if x: "x \<in> set ts" for x
    proof -
      from x obtain i e where "i < cap_of s" "send_window s ! i = Some e"
        and "x = next_resend_time (refresh t ?iv e)"
        by (auto simp: set entry_times_def split: option.splits dest: sym)
      then show ?thesis by (intro exI [of _ i] conjI) simp_all
    qed
    then show ?thesis
      using min_times_in [of ts i64_max] unfolding nst by blast
  qed
qed

lemma push_entry_timer:
  assumes "shape s" and "timer_ok s"
  shows "timer_ok (push_entry e s)"
  using assms shape_bounds(4) [OF assms(1), of "next_send_seq_no s"]
  by (fastforce simp: timer_ok_def push_entry_def lower_timestamp_def nth_list_update
      split: if_splits)

lemma timer_cong:
  "send_window s' = send_window s \<Longrightarrow> next_service_timestamp s' = next_service_timestamp s \<Longrightarrow>
   timer_ok s' = timer_ok s"
  by (simp add: timer_ok_def)

lemma drop_sent_timer: "timer_ok s \<Longrightarrow> timer_ok (drop_sent r s)"
  by (auto simp: timer_ok_def dest!: drop_sent_nth(1))

lemma service_mono:
  "agrees (service_scan Debug t it s) (service_scan Release t it s)"
proof -
  have "service_scan b t it s = Some r \<Longrightarrow> service_scan Release t it s = Some r" for b r
  proof (induction b t it s rule: service_scan.induct)
    case (1 b t it s)
    show ?case
    proof (cases "iter_seq_no it = next_send_seq_no s")
      case True
      with "1.prems" show ?thesis by (simp add: service_scan_stop)
    next
      case False
      with "1.prems" "1.IH" show ?thesis
        by (auto simp: service_scan_step Let_def step_iter_def note_time_def i64_add_def
            split: option.splits if_splits)
    qed
  qed
  then show ?thesis by (simp add: agrees_def)
qed

lemma service_direct_mono [build_mono]:
  "agrees (service_direct Debug t siter s) (service_direct Release t siter s)"
  unfolding service_direct_def by (intro build_mono service_mono)

lemma service_loop_mono [build_mono]:
  "agrees (service_loop Debug t siter s) (service_loop Release t siter s)"
proof -
  have "service_loop b t siter s = Some r \<Longrightarrow> b = Debug \<Longrightarrow> service_loop Release t siter s = Some r"
    for b r
  proof (induction b t siter s arbitrary: r rule: service_loop.induct)
    case (1 b t siter s)
    from "1.prems" obtain q siter' s' where run: "service_direct Debug t siter s = Some (q, siter', s')"
      by (cases "service_direct Debug t siter s") (auto simp: service_loop.simps [of Debug t siter s])
    then have "service_direct Release t siter s = Some (q, siter', s')"
      using service_direct_mono by (rule agreesD [rotated])
    with run "1.prems" "1.IH" show ?case
      by (fastforce simp: service_loop.simps [of Debug t siter s]
          service_loop.simps [of Release t siter s] split: option.splits)
  qed
  then show ?thesis by (simp add: agrees_def)
qed

section \<open>Properties\<close>

text \<open>
  C19. A service at or after \<open>next_service_timestamp\<close> sends exactly the packets whose resend time has
  come, each once, oldest sequence number first; it moves their resend times and nothing else, and
  the new timestamp is the earliest resend time left in the window.
\<close>

theorem service_resends_due_in_order:
  assumes "seq_inv s" and "time_ok b t s" and "sint (next_service_timestamp s) \<le> sint t"
  shows "\<exists>s'. service_loop b t None s = Some (due_in_order t s, s')
    \<and> (\<forall>q. sent s' q = map_option (refresh t (resend_interval s)) (sent s q))
    \<and> timer_ok s'
    \<and> (next_service_timestamp s' = i64_max
        \<or> (\<exists>e \<in> set (entries (send_window s')). next_service_timestamp s' = next_resend_time e))
    \<and> seq_inv s' \<and> reserved s' = reserved s \<and> received s' = received s"
proof -
  note shape = wf_parts(1) [OF assms(1)]
  have "next_service_timestamp (serviced t s) = i64_max
      \<or> (\<exists>e \<in> set (entries (send_window (serviced t s))).
            next_service_timestamp (serviced t s) = next_resend_time e)"
    using serviced_timer(2) [OF shape, of t] unfolding set_entries
    by (metis (mono_tags, lifting) length_map mem_Collect_eq nth_mem serviced_fields(8))
  then show ?thesis
    using service_loop_eq [OF assms] serviced_sent [OF shape] serviced_timer(1) [OF shape]
      serviced_wf [OF assms(1)] serviced_views
    by blast
qed

theorem service_resends_due_in_order_witness:
  "\<exists>s'. service_loop Debug 300 None (push_entry (new_entry 0 False None 7 (fresh 8)) (fresh 8))
        = Some ([Payload 0 7], s') \<and> timer_ok s' \<and> seq_inv s'"
proof -
  let ?s = "push_entry (new_entry 0 False None 7 (fresh 8)) (fresh 8)"
  have inv: "seq_inv ?s" by (rule push_new_entry_wf [OF fresh_inv(2) fresh_room])
  have time: "time_ok Debug 300 ?s" and timer: "sint (next_service_timestamp ?s) \<le> sint (300 :: i64)"
    and due: "due_in_order 300 ?s = [Payload 0 7]"
    by code_simp+
  from service_resends_due_in_order [OF inv time timer] due show ?thesis by auto
qed

end
