(* ===== verification/Machine.thy ===== *)
theory Machine
  imports Service
begin

text \<open>
  The low-level instance as a machine: one call per operation of its public API, any sequence of
  them. The locale \<open>call_machine\<close> states what the wrappers (single-threaded, thread-safe, async)
  rely on: permitted calls do not panic and keep the invariant. It is interpreted twice on the
  operations: with the full invariant and permitted calls, and, for release builds, with the part
  of the invariant that no call whatsoever can break.
\<close>

section \<open>Calls\<close>

text \<open>
  \<open>Receive\<close> stores the received data as it is, the conversion \<^verbatim>\<open>P: Into<RecvData>\<close>
  being the identity (as in the single-threaded and thread-safe wrappers).
\<close>

datatype ('s, 'r) call =
    TrySend i64 bool 's
  | Receive "'r packet"
  | Pump
  | ReplyRaw i64 seq_no bool bool 's
  | AckRaw seq_no bool
  | UnlockRaw
  | ServiceAll i64

datatype ('s, 'r) call_output =
    TrySendOut "(try_error \<times> 's) + 's packet"
  | ReceiveOut "try_raw_recv_error + (('s, 'r) recv_ok_raw \<times> bool)"
  | PumpOut "try_error + (('s, 'r) recv_ok_raw \<times> bool)"
  | ReplyOut "'s packet option"
  | AckOut "'s packet option"
  | UnlockOut
  | ServiceOut "'s packet list"

fun exec :: "build \<Rightarrow> ('s, 'r) call \<Rightarrow> ('s, 'r) seqex \<Rightarrow> (('s, 'r) call_output \<times> ('s, 'r) seqex) option" where
  "exec b (TrySend t c d) s = do { (r, s) \<leftarrow> try_send_direct b t c d s; Some (TrySendOut r, s) }"
| "exec b (Receive p) s =
     do { (r, s) \<leftarrow> try_receive_raw_and_direct b (\<lambda>d. d) p s; Some (ReceiveOut r, s) }"
| "exec b Pump s = do { (r, s) \<leftarrow> try_pump_raw b s; Some (PumpOut r, s) }"
| "exec b (ReplyRaw t r u c d) s =
     do { (p, s) \<leftarrow> reply_raw_and_direct b t r u c d s; Some (ReplyOut p, s) }"
| "exec b (AckRaw r u) s = do { (p, s) \<leftarrow> ack_raw_and_direct b r u s; Some (AckOut p, s) }"
| "exec b UnlockRaw s = Some (UnlockOut, unlock_raw s)"
| "exec b (ServiceAll t) s = do { (ps, s) \<leftarrow> service_loop b t None s; Some (ServiceOut ps, s) }"

fun run :: "('c \<Rightarrow> 'st \<Rightarrow> ('o \<times> 'st) option) \<Rightarrow> 'c list \<Rightarrow> 'st \<Rightarrow> ('o list \<times> 'st) option" where
  "run step [] s = Some ([], s)"
| "run step (c # cs) s = do {
     (out, s) \<leftarrow> step c s;
     (outs, s) \<leftarrow> run step cs s;
     Some (out # outs, s)
   }"

text \<open>Every call of a sequence is permitted in the state it is made in.\<close>

fun permitted :: "('c \<Rightarrow> 'st \<Rightarrow> ('o \<times> 'st) option) \<Rightarrow> ('c \<Rightarrow> 'st \<Rightarrow> bool) \<Rightarrow> 'c list \<Rightarrow> 'st \<Rightarrow> bool" where
  "permitted step ok [] s = True"
| "permitted step ok (c # cs) s =
     (ok c s \<and> (case step c s of None \<Rightarrow> True | Some (_, s') \<Rightarrow> permitted step ok cs s'))"

section \<open>The contract\<close>

locale call_machine =
  fixes step :: "'c \<Rightarrow> 'st \<Rightarrow> ('o \<times> 'st) option"
    and inv :: "'st \<Rightarrow> bool"
    and ok :: "'c \<Rightarrow> 'st \<Rightarrow> bool"
  assumes step_ok: "inv s \<Longrightarrow> ok c s \<Longrightarrow> \<exists>out s'. step c s = Some (out, s') \<and> inv s'"
begin

lemma run_ok:
  "inv s \<Longrightarrow> permitted step ok cs s \<Longrightarrow>
     \<exists>outs s'. run step cs s = Some (outs, s') \<and> length outs = length cs \<and> inv s'"
proof (induction cs arbitrary: s)
  case (Cons c cs)
  from Cons.prems have "ok c s" by simp
  with step_ok Cons.prems(1) obtain out s1 where s1: "step c s = Some (out, s1)" "inv s1"
    by blast
  with Cons.prems(2) have "permitted step ok cs s1" by simp
  with Cons.IH s1(2) obtain outs s' where
    "run step cs s1 = Some (outs, s')" "length outs = length cs" "inv s'" by blast
  with s1(1) show ?case by simp
qed simp

lemma run_inv:
  "inv s \<Longrightarrow> permitted step ok cs s \<Longrightarrow> run step cs s = Some (outs, s') \<Longrightarrow> inv s'"
  using run_ok by fastforce

end

lemma permitted_always: "(\<And>c s. ok c s) \<Longrightarrow> permitted step ok cs s"
  by (induction cs arbitrary: s) (auto split: option.split)

section \<open>Case analysis of the receive side\<close>

lemma receive_data_cases:
  assumes "core_inv s"
  obtains
    (drop) e where "receive_data b into c n ro d s = Some (Inl e, s)"
  | (store) e where "in_window s n" and "\<not> deliverable s c n ro" and "received s n = None"
      and "receive_data b into c n ro d s = Some (Inl e, put_recv (Occupied n ro c (into d)) s)"
  | (ahead) "in_window s n" and "deliverable s c n ro" and "n \<noteq> next_recv_seq_no s" and "\<not> c"
      and "receive_data b into c n ro d s = Some
        (Inr (delivered_as s n ro c d, False), issue n c ro (put_recv (Unlocked n) s))"
  | (head) k s2 where "n = next_recv_seq_no s" and "deliverable s c n ro" and "passed k s s2"
      and "receive_data b into c n ro d s = Some
        (Inr (delivered_as s n ro c d, is_occupied (recv_head s2)), issue n c ro s2)"
proof -
  note shape = core_parts(1) [OF assms]
  consider "below_window s n" | "\<not> below_window s n" "\<not> in_window s n"
    | "in_window s n" "\<not> deliverable s c n ro"
    | "in_window s n" "deliverable s c n ro" "n \<noteq> next_recv_seq_no s"
    | "deliverable s c n ro" "n = next_recv_seq_no s"
    using window_ranges(3) [OF shape] by blast
  then show thesis
  proof cases
    case 1
    then show thesis by (rule drop [OF receive_below [OF assms]])
  next
    case 2
    show thesis by (rule drop [OF receive_above [OF shape 2]])
  next
    case 3
    then show thesis
      using receive_wait [OF assms 3, of b into d] drop store
      by (cases "received s n = None") simp_all
  next
    case 4
    then have "\<not> c" by (auto simp: deliverable_def)
    then show thesis
      using ahead [OF 4] receive_ahead [OF assms 4, of b into d] by blast
  next
    case 5
    then have "deliverable s c (next_recv_seq_no s) ro" by simp
    from receive_next [OF assms this, of b into d] obtain k s2 where "passed k s s2"
      and "receive_data b into c (next_recv_seq_no s) ro d s = Some
        (Inr (delivered_as s (next_recv_seq_no s) ro c d, is_occupied (recv_head s2)),
         issue (next_recv_seq_no s) c ro s2)" .
    with 5 show thesis using head [of k s2] by simp
  qed
qed

lemma pump_cases:
  assumes "core_inv s"
  obtains
    (wait) e where "try_pump_raw b s = Some (Inl e, s)"
  | (head) ro c d k s2 where "recv_head s = Occupied (next_recv_seq_no s) ro c d"
      and "deliverable s c (next_recv_seq_no s) ro" and "passed k s s2"
      and "try_pump_raw b s = Some
        (Inr (delivered_as s (next_recv_seq_no s) ro c d, is_occupied (recv_head s2)),
         issue (next_recv_seq_no s) c ro s2)"
proof (cases "recv_head s")
  case (Occupied n ro c d)
  then have n: "n = next_recv_seq_no s" using pump_head(1) [OF assms] by blast
  show thesis
  proof (cases "deliverable s c n ro")
    case True
    from pump_deliver [OF assms Occupied this, of b] obtain k s2 where "passed k s s2"
      and "try_pump_raw b s = Some
        (Inr (delivered_as s n ro c d, is_occupied (recv_head s2)), issue n c ro s2)" .
    with head [of ro c d k s2] Occupied n True show thesis by simp
  next
    case False
    then have "\<not> room s ro \<or> room s ro \<and> c \<and> is_locked s" using n by (auto simp: deliverable_def)
    with pump_head(2,3) [OF assms Occupied, of b] wait show thesis by blast
  qed
qed (use pump_nothing [OF core_parts(1) [OF assms], of b] wait in \<open>simp_all\<close>)

section \<open>What calls are permitted\<close>

text \<open>
  A packet's reply number is permitted when, at the moment the packet is handed to the caller, it
  names the entry in its slot or the slot is empty: what a correct peer sends. The rest of the
  conditions concern the caller: no overflow of the resend time, and no unlocking twice.
\<close>

fun permits :: "build \<Rightarrow> ('s, 'r) call \<Rightarrow> ('s, 'r) seqex \<Rightarrow> bool" where
  "permits b (TrySend t c d) s = time_ok b t s"
| "permits b (Receive p) s =
     (case (seq_part p, reply_part p) of
        (Some n, ro) \<Rightarrow> in_window s n \<longrightarrow> deliverable s (is_seq_cst p) n ro \<longrightarrow> reply_ok s ro
      | _ \<Rightarrow> True)"
| "permits b Pump s =
     (case recv_head s of
        Occupied n ro c d \<Rightarrow> deliverable s c n ro \<longrightarrow> reply_ok s ro
      | _ \<Rightarrow> True)"
| "permits b (ReplyRaw t r u c d) s = (r \<in># reserved s \<longrightarrow> unlock_ok b u s \<and> time_ok b t s)"
| "permits b (AckRaw r u) s = (r \<in># reserved s \<longrightarrow> unlock_ok b u s)"
| "permits b UnlockRaw s = True"
| "permits b (ServiceAll t) s = time_ok b t s"

text \<open>Every receive is an acknowledgement or data.\<close>

lemma receive_eq:
  "try_receive_raw_and_direct b into p s =
     (case seq_part p of
        Some n \<Rightarrow> receive_data b into (is_seq_cst p) n (reply_part p) (the (payload p)) s
      | None \<Rightarrow> do {
          (taken, s) \<leftarrow> take_send (the (reply_part p)) s;
          case taken of
            Some send_data \<Rightarrow> Some (Inr (RawAck send_data, False), s)
          | None \<Rightarrow> Some (Inl RawDroppedDuplicate, s)
        })"
  by (cases p) (simp_all add: try_receive_raw_and_direct_def)

lemma drop_sent_core: "core_inv s \<Longrightarrow> core_inv (drop_sent r s)"
  by (rule core_cong [of s]) (simp_all add: core_inv_def)

lemma receive_ack_eq:
  assumes "shape s"
  shows "try_receive_raw_and_direct b into (Ack r) s = Some
    (case sent s r of
       Some e \<Rightarrow> Inr (RawAck (entry_data e), False)
     | None \<Rightarrow> Inl RawDroppedDuplicate, drop_sent r s)"
  by (simp add: receive_eq take_send_eq [OF assms] split: option.split)

section \<open>One call\<close>

lemma issue_timer: "timer_ok s \<Longrightarrow> timer_ok (issue n c ro s)"
  by (cases ro) (auto simp: timer_ok_def issue_send_window dest!: drop_sent_nth(1))

lemma recv_side_timer:
  "timer_ok s \<Longrightarrow> timer_ok (put_recv x s)"
  "timer_ok s \<Longrightarrow> passed k s s2 \<Longrightarrow> timer_ok s2"
  "timer_ok s \<Longrightarrow> timer_ok (set_lock u s)"
  "timer_ok s \<Longrightarrow> timer_ok (unlock_raw s)"
  "timer_ok s \<Longrightarrow> redeemed r s s2 \<Longrightarrow> timer_ok s2"
  using passed_fields [of k s s2] redeemed_fields [of r s s2]
  by (simp_all add: timer_ok_def unlock_raw_def)

text \<open>Both machines keep their invariant, with the same case analysis for data.\<close>

lemma receive_data_keeps:
  assumes "core_inv s"
  obtains r s' where "receive_data b into c n ro d s = Some (r, s')" and "core_inv s'"
    and "timer_ok s \<Longrightarrow> timer_ok s'"
    and "seq_inv s \<Longrightarrow> (in_window s n \<longrightarrow> deliverable s c n ro \<longrightarrow> reply_ok s ro) \<Longrightarrow> seq_inv s'"
  using assms
proof (cases rule: receive_data_cases [of s b into c n ro d])
  case (drop e)
  from drop assms show thesis by (rule that)
next
  case (store e)
  have "core_inv (put_recv (Occupied n ro c (into d)) s)"
    using assms store(1) by (intro put_recv_core) simp_all
  moreover have "seq_inv s \<Longrightarrow> seq_inv (put_recv (Occupied n ro c (into d)) s)"
    using store(1) by (intro put_recv_wf) simp_all
  ultimately show thesis
    by (intro that [OF store(4)]) (simp_all add: recv_side_timer(1))
next
  case ahead
  have core: "core_inv (put_recv (Unlocked n) s)"
    using assms ahead by (intro put_recv_core) simp_all
  have room: "room (put_recv (Unlocked n) s) ro"
    using ahead(2) by (simp add: deliverable_def send_side_cong [of "put_recv (Unlocked n) s" s])
  show thesis
  proof (rule that [OF ahead(5) issue_core [OF core room]])
    show "timer_ok s \<Longrightarrow> timer_ok (issue n c ro (put_recv (Unlocked n) s))"
      by (rule issue_timer [OF recv_side_timer(1)])
    assume "seq_inv s" and "in_window s n \<longrightarrow> deliverable s c n ro \<longrightarrow> reply_ok s ro"
    with ahead room show "seq_inv (issue n c ro (put_recv (Unlocked n) s))"
      by (intro issue_wf put_recv_wf) (simp_all add: send_side_cong [of "put_recv (Unlocked n) s" s])
  qed
next
  case (head k s2)
  note fields = passed_fields [OF head(3)]
  have room: "room s2 ro"
    using head(2) fields by (simp add: deliverable_def send_side_cong [of s2 s])
  show thesis
  proof (rule that [OF head(4) issue_core [OF passed_core [OF assms head(3)] room]])
    show "timer_ok s \<Longrightarrow> timer_ok (issue n c ro s2)"
      by (rule issue_timer [OF recv_side_timer(2) [OF _ head(3)]])
    assume "seq_inv s" and "in_window s n \<longrightarrow> deliverable s c n ro \<longrightarrow> reply_ok s ro"
    moreover have "in_window s n"
      using head(1) shape_bounds(3) [OF core_parts(1) [OF assms]] by (simp add: in_window_def)
    ultimately show "seq_inv (issue n c ro s2)"
      using head room fields passed_wf [of s k s2]
      by (intro issue_wf) (simp_all add: send_side_cong [of s2 s])
  qed
qed

lemma pump_keeps:
  assumes "core_inv s"
  obtains r s' where "try_pump_raw b s = Some (r, s')" and "core_inv s'"
    and "timer_ok s \<Longrightarrow> timer_ok s'"
    and "seq_inv s \<Longrightarrow> permits b Pump s \<Longrightarrow> seq_inv s'"
  using assms
proof (cases rule: pump_cases [of s b])
  case (wait e)
  from wait assms show thesis by (rule that)
next
  case (head ro c d k s2)
  note fields = passed_fields [OF head(3)]
  have room: "room s2 ro"
    using head(2) fields by (simp add: deliverable_def send_side_cong [of s2 s])
  show thesis
  proof (rule that [OF head(4) issue_core [OF passed_core [OF assms head(3)] room]])
    show "timer_ok s \<Longrightarrow> timer_ok (issue (next_recv_seq_no s) c ro s2)"
      by (rule issue_timer [OF recv_side_timer(2) [OF _ head(3)]])
    assume "seq_inv s" and "permits b Pump s"
    with head(1,2) room fields passed_wf [OF _ head(3)]
    show "seq_inv (issue (next_recv_seq_no s) c ro s2)"
      by (intro issue_wf) (simp_all add: send_side_cong [of s2 s])
  qed
qed

lemma receive_keeps:
  assumes "core_inv s"
  obtains r s' where "try_receive_raw_and_direct b into p s = Some (r, s')" and "core_inv s'"
    and "timer_ok s \<Longrightarrow> timer_ok s'"
    and "seq_inv s \<Longrightarrow> permits b (Receive p) s \<Longrightarrow> seq_inv s'"
proof (cases "seq_part p")
  case None
  then obtain r where p: "p = Ack r" by (cases p) simp_all
  show thesis
    by (rule that [OF receive_ack_eq [OF core_parts(1) [OF assms], of b into r, folded p]
          drop_sent_core [OF assms]])
      (simp_all add: drop_sent_timer drop_sent_wf)
next
  case (Some n)
  obtain r s' where "receive_data b into (is_seq_cst p) n (reply_part p) (the (payload p)) s = Some (r, s')"
    and keeps: "core_inv s'" "timer_ok s \<Longrightarrow> timer_ok s'"
      "seq_inv s \<Longrightarrow> (in_window s n \<longrightarrow> deliverable s (is_seq_cst p) n (reply_part p) \<longrightarrow>
         reply_ok s (reply_part p)) \<Longrightarrow> seq_inv s'"
    by - (rule receive_data_keeps [OF assms, of b into "is_seq_cst p" n "reply_part p" "the (payload p)"],
      rule that)
  then have "try_receive_raw_and_direct b into p s = Some (r, s')"
    using Some by (simp add: receive_eq)
  then show thesis by (rule that) (use keeps Some in simp_all)
qed

lemma service_keeps:
  assumes "core_inv s" and "time_ok b t s"
  obtains ps s' where "service_loop b t None s = Some (ps, s')" and "core_inv s'"
    and "timer_ok s \<Longrightarrow> timer_ok s'" and "seq_inv s \<Longrightarrow> seq_inv s'"
proof (cases "sint (next_service_timestamp s) \<le> sint t")
  case True
  note shape = core_parts(1) [OF assms(1)]
  show thesis
    by (rule that [OF service_loop_shape [OF shape assms(2) True] serviced_core [OF assms(1)]])
      (simp_all add: serviced_timer(1) [OF shape] serviced_wf)
next
  case False
  then have "sint t < sint (next_service_timestamp s)" by simp
  from service_loop_early [OF this] assms(1) show thesis by (rule that)
qed

lemma try_send_keeps:
  assumes "core_inv s" and "time_ok b t s"
  obtains r s' where "try_send_direct b t c d s = Some (r, s')" and "core_inv s'"
    and "timer_ok s \<Longrightarrow> timer_ok s'" and "seq_inv s \<Longrightarrow> seq_inv s'"
proof (cases "room s None")
  case True
  note shape = core_parts(1) [OF assms(1)]
  let ?e = "new_entry t c None d s"
  have "try_send_direct b t c d s = Some (Inr (to_packet ?e), push_entry ?e s)"
    using True by (simp add: try_send_direct_eq [OF shape assms(2)] Let_def)
  then show thesis using push_entry_core [OF assms(1)]
    by (rule that) (simp_all add: push_entry_timer [OF shape] push_new_entry_wf True)
next
  case False
  then have "try_send_direct b t c d s = Some (Inl (full_error s None, d), s)"
    by (simp add: try_send_direct_eq [OF core_parts(1) [OF assms(1)] assms(2)])
  then show thesis using assms(1) by (rule that)
qed

lemma reply_keeps:
  assumes "core_inv s" and "r \<in># reserved s \<Longrightarrow> unlock_ok b u s \<and> time_ok b t s"
    and "b = Release \<or> seq_inv s"
  obtains p s' where "reply_raw_and_direct b t r u c d s = Some (p, s')" and "core_inv s'"
    and "timer_ok s \<Longrightarrow> timer_ok s'" and "seq_inv s \<Longrightarrow> seq_inv s'"
proof (cases "r \<in># reserved s")
  case True
  let ?e = "new_entry t c (Some r) d s"
  from True assms(2) have "unlock_ok b u s" and "time_ok b t s" by simp_all
  moreover have "b = Release \<or> send_window s ! slot (cap_of s) (next_send_seq_no s) = None"
    using assms(3) reply_slot_free [of s r] True by auto
  ultimately obtain s1 where red: "redeemed r s s1"
    and run: "reply_raw_and_direct b t r u c d s
      = Some (Some (to_packet ?e), push_entry ?e (set_lock u s1))"
    by (rule reply_known [OF assms(1) True])
  have core: "core_inv (set_lock u s1)"
    using redeemed_core [OF assms(1) red] by (rule set_lock_core)
  show thesis
  proof (rule that [OF run push_entry_core [OF core]])
    show "timer_ok s \<Longrightarrow> timer_ok (push_entry ?e (set_lock u s1))"
      using push_entry_timer [OF core_parts(1) [OF core]] recv_side_timer(3,5) red by blast
  qed (simp add: reply_wf red)
next
  case False
  from reply_unknown(1) [OF assms(1) this] assms(1) show thesis by (rule that)
qed

lemma ack_keeps:
  assumes "core_inv s" and "r \<in># reserved s \<Longrightarrow> unlock_ok b u s"
  obtains p s' where "ack_raw_and_direct b r u s = Some (p, s')" and "core_inv s'"
    and "timer_ok s \<Longrightarrow> timer_ok s'" and "seq_inv s \<Longrightarrow> seq_inv s'"
proof (cases "r \<in># reserved s")
  case True
  with ack_known [OF assms(1) True] assms(2) obtain s1 where red: "redeemed r s s1"
    and run: "ack_raw_and_direct b r u s = Some (Some (Ack r), set_lock u s1)" by blast
  show thesis
    by (rule that [OF run set_lock_core [OF redeemed_core [OF assms(1) red]]])
      (simp_all add: ack_wf [OF _ red] recv_side_timer(3) recv_side_timer(5) [OF _ red])
next
  case False
  from reply_unknown(2) [OF assms(1) this] assms(1) show thesis by (rule that)
qed

text \<open>
  One call keeps the unbreakable part and the timer; it keeps the full invariant when permitted.
\<close>

lemma exec_keeps:
  assumes "core_inv s" and "b = Release \<or> seq_inv s \<and> permits b c s"
  obtains out s' where "exec b c s = Some (out, s')" and "core_inv s'"
    and "timer_ok s \<Longrightarrow> timer_ok s'" and "seq_inv s \<Longrightarrow> permits b c s \<Longrightarrow> seq_inv s'"
proof (cases c)
  case (TrySend t q d)
  with assms(2) have "time_ok b t s" by (auto simp: time_ok_def)
  then show thesis
    by (rule try_send_keeps [OF assms(1), of b t q d]) (rule that, simp_all add: TrySend)
next
  case (Receive p)
  show thesis
    by (rule receive_keeps [OF assms(1), of b "\<lambda>d. d" p]) (rule that, simp_all add: Receive)
next
  case Pump
  show thesis
    by (rule pump_keeps [OF assms(1), of b]) (rule that, simp_all add: Pump)
next
  case (ReplyRaw t r u q d)
  with assms(2) have "r \<in># reserved s \<Longrightarrow> unlock_ok b u s \<and> time_ok b t s" "b = Release \<or> seq_inv s"
    by (auto simp: time_ok_def unlock_ok_def)
  then show thesis
    by - (rule reply_keeps [OF assms(1), of r b u t q d], assumption+, rule that, simp_all add: ReplyRaw)
next
  case (AckRaw r u)
  with assms(2) have "r \<in># reserved s \<Longrightarrow> unlock_ok b u s" by (auto simp: unlock_ok_def)
  then show thesis
    by - (rule ack_keeps [OF assms(1), of r b u], assumption, rule that, simp_all add: AckRaw)
next
  case UnlockRaw
  show thesis
    by (rule that [of UnlockOut "unlock_raw s"])
      (simp_all add: UnlockRaw unlock_raw_core assms(1) recv_side_timer(4) lock_only_wf)
next
  case (ServiceAll t)
  with assms(2) have "time_ok b t s" by (auto simp: time_ok_def)
  then show thesis
    by (rule service_keeps [OF assms(1), of b t]) (rule that, simp_all add: ServiceAll)
qed

interpretation any_call:
  call_machine "exec Release" "\<lambda>s. core_inv s \<and> timer_ok s" "\<lambda>_ _. True"
proof unfold_locales
  fix s :: "('a, 'b) seqex" and c
  assume "core_inv s \<and> timer_ok s"
  then have "core_inv s" and timer: "timer_ok s" by simp_all
  from this(1) obtain out s' where "exec Release c s = Some (out, s')" "core_inv s'" "timer_ok s'"
    by (rule exec_keeps [of s Release c]) (simp_all add: timer)
  then show "\<exists>out s'. exec Release c s = Some (out, s') \<and> core_inv s' \<and> timer_ok s'" by blast
qed

interpretation permitted_call:
  call_machine "exec b" "\<lambda>s. seq_inv s \<and> timer_ok s" "permits b" for b
proof unfold_locales
  fix s :: "('a, 'b) seqex" and c
  assume "seq_inv s \<and> timer_ok s" and ok: "permits b c s"
  then have inv: "seq_inv s" and timer: "timer_ok s" by simp_all
  from seq_inv_core [OF inv] obtain out s' where "exec b c s = Some (out, s')" "seq_inv s'" "timer_ok s'"
    by (rule exec_keeps [of s b c]) (simp_all add: timer inv ok)
  then show "\<exists>out s'. exec b c s = Some (out, s') \<and> seq_inv s' \<and> timer_ok s'" by blast
qed

lemma new_seqex_timer:
  "0 < cap \<Longrightarrow> new_seqex b cap iv n = Some s \<Longrightarrow> timer_ok s"
  by (auto simp: new_seqex_def timer_ok_def debug_assert_def split: if_splits)

lemma exec_mono: "agrees (exec Debug c s) (exec Release c s)"
  by (cases c) (simp_all only: exec.simps, (intro build_mono)+)

lemma run_mono:
  assumes "\<And>c s. agrees (step1 c s) (step2 c s)"
  shows "agrees (run step1 cs s) (run step2 cs s)"
proof (induction cs arbitrary: s)
  case (Cons c cs)
  then show ?case using assms by (simp only: run.simps) (intro build_mono)
qed (simp add: agrees_refl)

section \<open>What a receive changes, in terms of the views\<close>

lemma receive_wait_views:
  assumes "core_inv s" and "in_window s n" and "\<not> deliverable s c n ro"
  shows "\<exists>s'. receive_data b into c n ro d s = Some (Inl (wait_error s c n ro), s')
    \<and> received s' = (case received s n of
         None \<Rightarrow> (received s)(n \<mapsto> Occupied n ro c (into d)) | Some _ \<Rightarrow> received s)
    \<and> sent s' = sent s \<and> reserved s' = reserved s \<and> s' = s\<lparr>recv_window := recv_window s'\<rparr>"
proof (cases "received s n")
  case None
  let ?t = "put_recv (Occupied n ro c (into d)) s"
  have "received ?t = (received s)(n \<mapsto> Occupied n ro c (into d))"
    using put_recv_received [OF core_parts(1,2) [OF assms(1)], of "Occupied n ro c (into d)"] assms(2)
    by simp
  moreover have "sent ?t = sent s" "reserved ?t = reserved s"
    by (simp_all add: send_side_cong [of ?t s])
  moreover have "?t = s\<lparr>recv_window := recv_window ?t\<rparr>" by (simp add: put_recv_def)
  ultimately show ?thesis
    using receive_wait [OF assms, of b into d] None by (intro exI [of _ ?t]) simp
qed (use receive_wait [OF assms, of b into d] in simp)

lemma issue_views:
  assumes "shape s" and "room s ro"
    and "send_window t = send_window s" and "concurrent_replies t = concurrent_replies s"
    and "concurrent_replies_total t = concurrent_replies_total s" and "is_locked t = is_locked s"
    and "length (recv_window t) = length (recv_window s)"
  shows "reserved (issue n c ro t) = add_mset n (reserved s)
    \<and> is_locked (issue n c ro t) = (c \<or> is_locked s)
    \<and> sent (issue n c ro t) = (case ro of None \<Rightarrow> sent s | Some r \<Rightarrow> (sent s)(r := None))"
proof -
  have "shape t" using assms by (simp add: shape_def)
  moreover have "concurrent_replies_total t < cap_of t"
    using assms by (simp add: room_def)
  ultimately show ?thesis
    using issue_reserved [of t n c ro] issue_sent [of t n c ro] assms(3-6) sent_cong [of t s]
    by (simp add: reserved_cong [of t s] split: option.split)
qed

lemma receive_hand_views:
  assumes "core_inv s" and "in_window s n" and "deliverable s c n ro"
  shows "\<exists>pump s'. receive_data b into c n ro d s = Some (Inr (delivered_as s n ro c d, pump), s')
    \<and> reserved s' = add_mset n (reserved s) \<and> is_locked s' = (c \<or> is_locked s)
    \<and> sent s' = (case ro of None \<Rightarrow> sent s | Some r \<Rightarrow> (sent s)(r := None))"
proof -
  note shape = core_parts(1) [OF assms(1)]
  have room: "room s ro" using assms(3) by (simp add: deliverable_def)
  show ?thesis
  proof (cases "n = next_recv_seq_no s")
    case True
    with assms(3) obtain k s2 where p: "passed k s s2" and "receive_data b into c n ro d s = Some
        (Inr (delivered_as s n ro c d, is_occupied (recv_head s2)), issue n c ro s2)"
      using receive_next [OF assms(1), of c ro b into d] by blast
    moreover have "length (recv_window s2) = length (recv_window s)"
      using p shape passed_fields(5) [OF p] by (simp add: passed_def shape_lengths)
    ultimately show ?thesis
      using issue_views [OF shape room, of s2] passed_fields [OF p] by simp
  next
    case False
    let ?t = "put_recv (Unlocked n) s"
    have "length (recv_window ?t) = length (recv_window s)" by (simp add: put_recv_def)
    with receive_ahead [OF assms False, of b into d] issue_views [OF shape room, of ?t]
    show ?thesis by (intro exI [of _ False] exI [of _ "issue n c ro ?t"]) simp
  qed
qed

text \<open>
  \<open>moved_past n k s s'\<close>: the receive window has gone on over packet \<open>n\<close> and exactly the \<open>k\<close> packets behind
  it that were processed already; all other packets are kept, and the next one is not a processed one.
\<close>

definition moved_past :: "seq_no \<Rightarrow> nat \<Rightarrow> ('s, 'r) seqex \<Rightarrow> ('s, 'r) seqex \<Rightarrow> bool" where
  "moved_past n k s s' \<longleftrightarrow> next_recv_seq_no s' = n + 1 + of_nat k
     \<and> (\<forall>j < k. received s (n + 1 + of_nat j) = Some (Unlocked (n + 1 + of_nat j)))
     \<and> (\<forall>m. received s' (next_recv_seq_no s') \<noteq> Some (Unlocked m))
     \<and> received s' = (\<lambda>m. if unat (m - n) < Suc k then None else received s m)"

text \<open>\<open>hand_over_effect n c ro s s'\<close>: what handing over packet \<open>n\<close> changes apart from the receive window.\<close>

definition hand_over_effect :: "seq_no \<Rightarrow> bool \<Rightarrow> seq_no option \<Rightarrow> ('s, 'r) seqex \<Rightarrow> ('s, 'r) seqex \<Rightarrow> bool" where
  "hand_over_effect n c ro s s' \<longleftrightarrow> reserved s' = add_mset n (reserved s) \<and> is_locked s' = (c \<or> is_locked s)
     \<and> sent s' = (case ro of None \<Rightarrow> sent s | Some r \<Rightarrow> (sent s)(r := None))
     \<and> next_send_seq_no s' = next_send_seq_no s \<and> next_service_timestamp s' = next_service_timestamp s"

text \<open>Whether the next packet has been received.\<close>

definition next_waits :: "('s, 'r) seqex \<Rightarrow> bool" where
  "next_waits s \<longleftrightarrow> received s (next_recv_seq_no s) \<noteq> None"

lemma received_next:
  assumes "shape s" and "recv_ok s"
  shows "received s (next_recv_seq_no s) = (if recv_head s = Empty then None else Some (recv_head s))"
  using received_head [OF assms] by (auto simp: received_def recv_head_def Let_def)

lemma next_not_marked:
  assumes "shape s" and "recv_ok s" and "head_ok s"
  shows "received s (next_recv_seq_no s) \<noteq> Some (Unlocked m)"
  using assms(3) unfolding received_next [OF assms(1,2)] head_ok_def by (cases "recv_head s") auto

lemma received_issue [simp]: "received (issue n c ro s) = received s"
  by (simp add: received_def fun_eq_iff)

lemma passed_moved:
  assumes core: "core_inv s" and p: "passed k s s2" and room: "room s ro" and n: "n = next_recv_seq_no s"
  shows "moved_past n k s (issue n c ro s2)" and "hand_over_effect n c ro s (issue n c ro s2)"
    and "is_occupied (recv_head s2) = next_waits (issue n c ro s2)"
proof -
  note shape = core_parts(1) [OF core]
  note fields = passed_fields [OF p]
  have s2: "shape s2" "recv_ok s2" "head_ok s2" using p by (simp_all add: passed_def)
  note head = received_next [OF s2(1,2)]
  note not_marked = next_not_marked [OF s2]
  have views: "received s2 = (\<lambda>m. if unat (m - n) < Suc k then None else received s m)"
    "\<forall>j < k. received s (n + 1 + of_nat j) = Some (Unlocked (n + 1 + of_nat j))"
    using p n by (simp_all add: passed_def fun_eq_iff)
  have "next_recv_seq_no s2 = n + 1 + of_nat k" using fields(4) n by simp
  with views not_marked show "moved_past n k s (issue n c ro s2)"
    unfolding moved_past_def issue_fields received_issue by blast
  have "length (recv_window s2) = length (recv_window s)"
    using p shape fields by (simp add: passed_def shape_lengths)
  then show "hand_over_effect n c ro s (issue n c ro s2)"
    using issue_views [OF shape room, of s2 n c] fields by (simp add: hand_over_effect_def)
  show "is_occupied (recv_head s2) = next_waits (issue n c ro s2)"
    using s2(3) unfolding next_waits_def issue_fields received_issue head head_ok_def by (cases "recv_head s2") auto
qed

lemma pump_moves:
  assumes core: "core_inv s" and run: "try_pump_raw b s = Some (r, s')"
  obtains (same) "s' = s" | (on) n k c ro where "moved_past n k s s'" and "hand_over_effect n c ro s s'"
  using core
proof (cases rule: pump_cases [where b = b])
  case (wait e)
  with run same show thesis by simp
next
  case (head ro c d k s2)
  have "room s ro" using head(2) by (simp add: deliverable_def)
  from passed_moved(1,2) [OF core head(3) this refl, of c] head(4) run show thesis by (intro on) simp_all
qed

lemma receive_next_views:
  assumes core: "core_inv s" and del: "deliverable s c (next_recv_seq_no s) ro"
  shows "\<exists>k s'. receive_data b into c (next_recv_seq_no s) ro d s
      = Some (Inr (delivered_as s (next_recv_seq_no s) ro c d, next_waits s'), s')
    \<and> moved_past (next_recv_seq_no s) k s s' \<and> hand_over_effect (next_recv_seq_no s) c ro s s'"
proof -
  obtain k s2 where p: "passed k s s2" and run: "receive_data b into c (next_recv_seq_no s) ro d s = Some
      (Inr (delivered_as s (next_recv_seq_no s) ro c d, is_occupied (recv_head s2)), issue (next_recv_seq_no s) c ro s2)"
    by (rule receive_next [OF core del])
  have "room s ro" using del by (simp add: deliverable_def)
  note moved = passed_moved [OF core p this refl, of c]
  show ?thesis using run moved(1,2) unfolding moved(3) by blast
qed

lemma receive_ahead_views:
  assumes core: "core_inv s" and win: "in_window s n" and del: "deliverable s c n ro" and n: "n \<noteq> next_recv_seq_no s"
  shows "\<exists>s'. receive_data b into c n ro d s = Some (Inr (delivered_as s n ro c d, False), s')
    \<and> received s' = (received s)(n \<mapsto> Unlocked n) \<and> next_recv_seq_no s' = next_recv_seq_no s \<and> hand_over_effect n c ro s s'"
proof -
  let ?t = "put_recv (Unlocked n) s" and ?s' = "issue n c ro (put_recv (Unlocked n) s)"
  have room: "room s ro" using del by (simp add: deliverable_def)
  have len: "length (recv_window ?t) = length (recv_window s)" by (simp add: put_recv_def)
  have "hand_over_effect n c ro s ?s'"
    using issue_views [OF core_parts(1) [OF core] room, of ?t n c] len by (simp add: hand_over_effect_def)
  moreover have "received ?s' = received ?t" by (simp add: received_def fun_eq_iff)
  moreover have "received ?t = (received s)(n \<mapsto> Unlocked n)"
    using put_recv_received [OF core_parts(1,2) [OF core], of "Unlocked n"] win by simp
  ultimately show ?thesis using receive_ahead [OF core win del n, of b into d] by (intro exI [of _ ?s']) simp
qed

section \<open>Properties\<close>

text \<open>
  C1. A release build never panics. From a new instance, whatever sequence of calls the program
  makes and whatever packets the peer forges, every call returns; the arrays keep their shape, the
  receive window stays in range, fewer reply numbers are issued than there are slots, and no
  packet is due before the time the instance asks to be serviced.
\<close>

theorem release_never_panics:
  assumes "window_ring cap" and "new_seqex Release cap iv n = Some s"
  shows "\<exists>outs s'. run (exec Release) cs s = Some (outs, s') \<and> length outs = length cs
    \<and> core_inv s' \<and> timer_ok s'"
proof -
  have "0 < cap" using assms(1) by (rule window_ring.cap_pos)
  then have "core_inv s \<and> timer_ok s"
    using new_seqex_wf [OF assms] new_seqex_timer [OF _ assms(2)] by simp
  then show ?thesis by (rule any_call.run_ok) (rule permitted_always, simp)
qed

theorem release_never_panics_witness:
  "\<exists>outs s'. run (exec Release)
      [Receive (Reply 0 4 9), TrySend 0 True 1, AckRaw 0 True, UnlockRaw, ServiceAll 300] (fresh 4)
    = Some (outs, s') \<and> length outs = 5 \<and> core_inv s'"
  using release_never_panics [OF small_rings(1) fresh_new, of
      "[Receive (Reply 0 4 9), TrySend 0 True 1, AckRaw 0 True, UnlockRaw, ServiceAll 300]"]
  by auto

text \<open>
  C2. Neither does a debug build, which checks overflow and the code's assertions, as long as the
  calls are permitted: reply numbers of delivered packets name the entry in their slot, the lock
  is not released twice, and resend times do not overflow. Then the full invariant holds after
  every sequence of calls.
\<close>

theorem permitted_calls_never_panic:
  assumes "window_ring cap" and "new_seqex b cap iv n = Some s"
    and "permitted (exec b) (permits b) cs s"
  shows "\<exists>outs s'. run (exec b) cs s = Some (outs, s') \<and> length outs = length cs
    \<and> seq_inv s' \<and> timer_ok s'"
proof -
  have "0 < cap" using assms(1) by (rule window_ring.cap_pos)
  then have "seq_inv s \<and> timer_ok s"
    using new_seqex_wf [OF assms(1,2)] new_seqex_timer [OF _ assms(2)] by simp
  then show ?thesis using assms(3) by (rule permitted_call.run_ok)
qed

theorem permitted_calls_never_panic_witness:
  "\<exists>outs s'. run (exec Debug)
      [TrySend 0 False 1, Receive (SeqCstReply 0 0 9), ReplyRaw 5 0 True False 2, ServiceAll 300] (fresh 4)
    = Some (outs, s') \<and> length outs = 4 \<and> seq_inv s' \<and> timer_ok s'"
proof -
  let ?cs = "[TrySend 0 False 1, Receive (SeqCstReply 0 0 9), ReplyRaw 5 0 True False 2, ServiceAll 300]"
  have "permitted (exec Debug) (permits Debug) ?cs (fresh 4)" by code_simp
  from permitted_calls_never_panic [OF small_rings(1) fresh_new this] show ?thesis
    by (simp del: run.simps add: eval_nat_numeral)
qed

text \<open>
  Debug and release builds agree. In any state and for any sequence of calls, what a debug
  build returns without a panic a release build returns too, with the same state at the end.
\<close>

theorem debug_run_agrees_release:
  assumes "run (exec Debug) cs s = Some r"
  shows "run (exec Release) cs s = Some r"
  using run_mono [OF exec_mono] assms by (rule agreesD)

theorem debug_run_agrees_release_witness:
  "\<exists>outs s'. run (exec Release) [TrySend 0 False 1, Receive (Ack 0)] (fresh 4) = Some (outs, s')
    \<and> send_window s' = [None, None, None, None]"
proof -
  have "map_option (\<lambda>r. send_window (snd r))
      (run (exec Debug) [TrySend 0 False 1, Receive (Ack 0)] (fresh 4)) = Some [None, None, None, None]"
    by code_simp
  then obtain r where "run (exec Debug) [TrySend 0 False 1, Receive (Ack 0)] (fresh 4) = Some r"
    and "send_window (snd r) = [None, None, None, None]"
    by auto
  with debug_run_agrees_release [OF this(1)] show ?thesis by (metis prod.collapse)
qed

text \<open>
  C20. Receiving data, every branch. Below the window: a duplicate, with the acknowledgement asked
  for again unless a reply is in flight or still to be made. Above it: too early. In it, when it
  cannot be processed yet: stored unless it is there already, nothing else changes, and the error says
  what to wait for. Otherwise it is handed over together with the packet it replies to, its reply number
  is issued, and that packet leaves the send window. If it is the next packet, the window moves past it
  and exactly the processed packets right behind it, and the flag says whether the next one is there;
  if not, its slot keeps the mark that it was processed, and the window does not move.
\<close>

theorem receive_every_branch:
  assumes "core_inv s"
  shows "if below_window s n then receive_data b into c n ro d s = Some
      (Inl (if reply_pending s n then RawDroppedDuplicate else RawDroppedDuplicateResendAck n), s)
    else if \<not> in_window s n then receive_data b into c n ro d s = Some (Inl RawDroppedTooEarly, s)
    else if \<not> deliverable s c n ro then
      \<exists>s'. receive_data b into c n ro d s = Some (Inl (wait_error s c n ro), s')
        \<and> received s' = (case received s n of
             None \<Rightarrow> (received s)(n \<mapsto> Occupied n ro c (into d)) | Some _ \<Rightarrow> received s)
        \<and> s' = s\<lparr>recv_window := recv_window s'\<rparr>
    else if n = next_recv_seq_no s then
      \<exists>k s'. receive_data b into c n ro d s = Some (Inr (delivered_as s n ro c d, next_waits s'), s')
        \<and> moved_past n k s s' \<and> hand_over_effect n c ro s s'
    else \<exists>s'. receive_data b into c n ro d s = Some (Inr (delivered_as s n ro c d, False), s')
        \<and> received s' = (received s)(n \<mapsto> Unlocked n) \<and> next_recv_seq_no s' = next_recv_seq_no s
        \<and> hand_over_effect n c ro s s'"
proof (cases "in_window s n \<and> \<not> below_window s n")
  case False
  then show ?thesis
    using receive_below [OF assms, of n b into c ro d]
      receive_above [OF core_parts(1) [OF assms], of n b into c ro d]
    by (cases "below_window s n") simp_all
next
  case win: True
  show ?thesis
  proof (cases "deliverable s c n ro")
    case False
    with win receive_wait_views [OF assms, of n c ro b into d] show ?thesis by auto
  next
    case True
    with win receive_next_views [OF assms, of c ro b into d] receive_ahead_views [OF assms, of n c ro b into d]
    show ?thesis by (cases "n = next_recv_seq_no s") simp_all
  qed
qed

theorem receive_every_branch_witness:
  "\<exists>s'. receive_data Debug (\<lambda>d. d) True 1 None 5 (fresh 8) = Some (Inl RawWaitingForRecv, s')
    \<and> received s' = [1 \<mapsto> Occupied 1 None True 5]"
proof -
  have "\<not> below_window (fresh 8) 1" "in_window (fresh 8) 1" "\<not> deliverable (fresh 8) True 1 None"
    "wait_error (fresh 8) True 1 None = RawWaitingForRecv"
    using fresh_room
    by (simp_all add: below_window_def in_window_def deliverable_def wait_error_def fresh_def
        new_seqex_Some)
  moreover have "received (fresh 8) = Map.empty"
    by (rule new_seqex_views(3) [OF _ fresh_new_small(2) [where b = Release]]) simp
  ultimately show ?thesis
    using receive_every_branch [OF seq_inv_core [OF fresh_inv(2)], of 1 Debug "\<lambda>d. d" True None 5]
    by auto
qed

text \<open>
  C21. Pumping, every branch. Nothing is pumped when the next packet has not been received, and
  nothing changes when it waits for the send window or the lock; otherwise exactly the next packet
  is handed over with the packet it replies to, which leaves the send window, the receive window moves
  past it and exactly the processed packets right behind it, and the flag says whether the packet after
  those is there.
\<close>

theorem pump_every_branch:
  assumes "core_inv s"
  shows "case recv_head s of
      Occupied n ro c d \<Rightarrow>
        if deliverable s c n ro then
          \<exists>k s'. try_pump_raw b s = Some (Inr (delivered_as s n ro c d, next_waits s'), s')
            \<and> n = next_recv_seq_no s \<and> moved_past n k s s' \<and> hand_over_effect n c ro s s'
        else try_pump_raw b s
          = Some (Inl (if room s ro then WaitingForReply else full_error s ro), s)
    | _ \<Rightarrow> try_pump_raw b s = Some (Inl WaitingForRecv, s)"
proof (cases "recv_head s")
  case (Occupied n ro c d)
  note head = pump_head [OF assms Occupied]
  show ?thesis
  proof (cases "deliverable s c n ro")
    case True
    obtain k s2 where p: "passed k s s2" and run: "try_pump_raw b s = Some
        (Inr (delivered_as s n ro c d, is_occupied (recv_head s2)), issue n c ro s2)"
      by (rule pump_deliver [OF assms Occupied True])
    have "room s ro" using True by (simp add: deliverable_def)
    note moved = passed_moved [OF assms p this head(1), of c]
    show ?thesis
      unfolding Occupied recv_entry.case if_P [OF True]
      using run moved(1,2) head(1) unfolding moved(3) by blast
  next
    case False
    then show ?thesis using Occupied head by (auto simp: deliverable_def)
  qed
qed (use pump_nothing [OF core_parts(1) [OF assms], of b] in \<open>simp_all\<close>)

theorem pump_every_branch_witness:
  "\<exists>k s'. try_pump_raw Debug (put_recv (Occupied 0 None False 5) (fresh 8))
      = Some (Inr (RawPayload 0 False 5, next_waits s'), s')
    \<and> next_recv_seq_no s' = 1 + of_nat k \<and> reserved s' = {#0#}"
proof -
  let ?s = "put_recv (Occupied 0 None False 5) (fresh 8)"
  have core: "core_inv ?s"
    by (rule put_recv_core) (simp_all add: fresh_inv, code_simp)
  have head: "recv_head ?s = Occupied 0 None False 5" and "reserved ?s = {#}" by code_simp+
  moreover have "deliverable ?s False 0 None"
    using fresh_room by (simp add: deliverable_def send_side_cong [of ?s "fresh 8"])
  moreover have "delivered_as ?s 0 None False 5 = RawPayload 0 False 5"
    by (simp add: delivered_as_def)
  ultimately show ?thesis
    using pump_every_branch [OF core, of Debug] unfolding head by (auto simp: moved_past_def hand_over_effect_def)
qed

text \<open>
  An acknowledgement removes exactly the packet it names from the send window, and returns
  its data; any other acknowledgement is a duplicate and changes nothing.
\<close>

theorem ack_removes_one:
  assumes "shape s"
  shows "\<exists>s'. try_receive_raw_and_direct b into (Ack r) s = Some
      (case sent s r of
         Some e \<Rightarrow> Inr (RawAck (entry_data e), False) | None \<Rightarrow> Inl RawDroppedDuplicate, s')
    \<and> sent s' = (sent s)(r := None) \<and> (sent s r = None \<longrightarrow> s' = s)"
  using receive_ack_eq [OF assms, of b into r] drop_sent_sent [OF assms, of r]
  by (simp add: drop_sent_def)

theorem ack_removes_one_witness:
  "\<exists>s'. try_receive_raw_and_direct Debug (\<lambda>d. d :: nat) (Ack 3) (fresh 8)
      = Some (Inl RawDroppedDuplicate, s') \<and> s' = fresh 8"
proof -
  have "sent (fresh 8) 3 = None"
    using new_seqex_views(1) [OF _ fresh_new_small(2) [where b = Release]] by simp
  then show ?thesis
    using ack_removes_one [OF wf_parts(1) [OF fresh_inv(2)], of Debug "\<lambda>d. d" 3] by auto
qed

end
