(* ===== verification/Delivery.thy ===== *)
theory Delivery
  imports Machine
begin

text \<open>
  What a receiver promises. An abstract receiver counts sequence numbers without wrap-around: it
  has handed over everything below a number \<open>N\<close> and, out of order, the finite set \<open>U\<close> above it.
  Every call on the instance is shown to be a step of this receiver, and the ordering guarantees
  of the protocol are proved on the receiver.
\<close>

section \<open>The abstract receiver\<close>

text \<open>
  The label of a step is the packet handed over, if any: its number, and whether it is SeqCst.
  With \<open>once = True\<close> nothing is handed over a second time.
\<close>

inductive receiver_step ::
  "bool \<Rightarrow> nat \<times> nat set \<Rightarrow> (nat \<times> bool) option \<Rightarrow> nat \<times> nat set \<Rightarrow> bool" where
  idle: "receiver_step once (N, U) None (N, U)"
| ahead: "N < i \<Longrightarrow> once \<longrightarrow> i \<notin> U \<Longrightarrow> receiver_step once (N, U) (Some (i, False)) (N, insert i U)"
| next_one: "N < N' \<Longrightarrow> {N<..<N'} \<subseteq> U \<Longrightarrow> N' \<notin> U \<Longrightarrow>
    receiver_step once (N, U) (Some (N, c)) (N', U - {..N'})"

inductive_cases receiver_idleE: "receiver_step once (N, U) None (N', U')"
inductive_cases receiver_handE: "receiver_step once (N, U) (Some (i, c)) (N', U')"

fun labels :: "(nat \<times> bool) option \<Rightarrow> (nat \<times> bool) list" where
  "labels None = []"
| "labels (Some d) = [d]"

inductive receiver_run ::
  "bool \<Rightarrow> nat \<times> nat set \<Rightarrow> (nat \<times> bool) list \<Rightarrow> nat \<times> nat set \<Rightarrow> bool" where
  stop: "receiver_run once x [] x"
| more: "receiver_step once x d y \<Longrightarrow> receiver_run once y ds z \<Longrightarrow> receiver_run once x (labels d @ ds) z"

text \<open>
  A SeqCst packet is handed over only when every packet below it has been: \<open>seen\<close> are the
  numbers handed over so far.
\<close>

fun seq_cst_last :: "nat list \<Rightarrow> (nat \<times> bool) list \<Rightarrow> bool" where
  "seq_cst_last seen [] = True"
| "seq_cst_last seen ((n, c) # ds) =
     ((c \<longrightarrow> (\<forall>m < n. m \<in> set seen)) \<and> seq_cst_last (n # seen) ds)"

lemma receiver_run_facts:
  assumes "receiver_run once x ds y" and "x = (N, U)" and "y = (N', U')"
    and "{..<N} \<union> U \<subseteq> set seen"
  shows "N \<le> N'" and "{..<N'} \<union> U' \<subseteq> set seen \<union> fst ` set ds" and "seq_cst_last seen ds"
    and "\<forall>d \<in> set ds. N \<le> fst d"
    and "sorted_wrt (<) (map fst (filter snd ds))"
proof -
  have "N \<le> N' \<and> {..<N'} \<union> U' \<subseteq> set seen \<union> fst ` set ds \<and> seq_cst_last seen ds
    \<and> (\<forall>d \<in> set ds. N \<le> fst d) \<and> sorted_wrt (<) (map fst (filter snd ds))"
    using assms
  proof (induction arbitrary: N U seen rule: receiver_run.induct)
    case (stop once x)
    then show ?case by simp
  next
    case (more once x d y ds z)
    obtain M V where y: "y = (M, V)" by (cases y)
    from more.hyps(1) [unfolded y more.prems(1)] show ?case
    proof (cases rule: receiver_step.cases)
      case idle
      with more.IH [OF y more.prems(2)] more.prems(3) show ?thesis by simp
    next
      case (ahead i)
      with more.prems(3) have "{..<M} \<union> V \<subseteq> set (i # seen)" by auto
      from more.IH [OF y more.prems(2) this] ahead show ?thesis by auto
    next
      case (next_one c)
      have "m \<in> set (N # seen)" if "m < M" for m
        using that next_one(4) more.prems(3) by (cases m N rule: linorder_cases) auto
      moreover have "V \<subseteq> set (N # seen)" using next_one more.prems(3) by auto
      ultimately have "{..<M} \<union> V \<subseteq> set (N # seen)" by auto
      from more.IH [OF y more.prems(2) this] next_one more.prems(3) show ?thesis
        by (auto simp: Suc_le_eq)
    qed
  qed
  then show "N \<le> N'" and "{..<N'} \<union> U' \<subseteq> set seen \<union> fst ` set ds" and "seq_cst_last seen ds"
    and "\<forall>d \<in> set ds. N \<le> fst d" and "sorted_wrt (<) (map fst (filter snd ds))" by blast+
qed

lemma receiver_once:
  assumes "receiver_run once x ds y" and "once" and "x = (N, U)" and "U \<subseteq> {N<..}"
  shows "distinct (map fst ds)" and "fst ` set ds \<inter> ({..<N} \<union> U) = {}"
proof -
  have "distinct (map fst ds) \<and> fst ` set ds \<inter> ({..<N} \<union> U) = {}"
    using assms
  proof (induction arbitrary: N U rule: receiver_run.induct)
    case (more once x d y ds z)
    obtain M V where y: "y = (M, V)" by (cases y)
    from more.hyps(1) [unfolded y more.prems(2)] show ?case
    proof (cases rule: receiver_step.cases)
      case idle
      with more.IH [OF more.prems(1) y] more.prems(3) show ?thesis by simp
    next
      case (ahead i)
      with more.prems(3) have "V \<subseteq> {M<..}" by auto
      from more.IH [OF more.prems(1) y this] ahead more.prems(1) show ?thesis by auto
    next
      case (next_one c)
      then have "V \<subseteq> {M<..}" by auto
      note IH = more.IH [OF more.prems(1) y this]
      have "{..<N} \<union> U \<union> {N} \<subseteq> {..<M} \<union> V" using next_one more.prems(3) by force
      moreover have "N \<notin> {..<N} \<union> U" using more.prems(3) by auto
      ultimately show ?thesis using IH next_one by (auto simp: disjoint_iff)
    qed
  qed simp
  then show "distinct (map fst ds)" and "fst ` set ds \<inter> ({..<N} \<union> U) = {}" by blast+
qed

lemma receiver_step_weaken: "receiver_step True x d y \<Longrightarrow> receiver_step once x d y"
  by (auto elim!: receiver_step.cases intro: receiver_step.intros)

section \<open>The instance as a receiver\<close>

text \<open>
  With \<open>N\<close> for \<open>next_recv_seq_no\<close>, a sequence number is unwrapped by its distance to it.
\<close>

definition unwrap :: "nat \<Rightarrow> ('s, 'r) seqex \<Rightarrow> seq_no \<Rightarrow> nat" where
  "unwrap N s m = N + unat (m - next_recv_seq_no s)"

text \<open>The numbers handed over out of order.\<close>

definition handed_over :: "nat \<Rightarrow> ('s, 'r) seqex \<Rightarrow> nat set" where
  "handed_over N s = unwrap N s ` {m. received s m = Some (Unlocked m)}"

fun raw_label :: "('s, 'r) recv_ok_raw \<Rightarrow> (seq_no \<times> bool) option" where
  "raw_label (RawPayload n c _) = Some (n, c)"
| "raw_label (RawReply n c _ _) = Some (n, c)"
| "raw_label (RawAck _) = None"

fun out_label :: "('s, 'r) call_output \<Rightarrow> (seq_no \<times> bool) option" where
  "out_label (ReceiveOut (Inr (r, _))) = raw_label r"
| "out_label (PumpOut (Inr (r, _))) = raw_label r"
| "out_label _ = None"

definition label_of :: "nat \<Rightarrow> ('s, 'r) seqex \<Rightarrow> ('s, 'r) call_output \<Rightarrow> (nat \<times> bool) option" where
  "label_of N s out = map_option (map_prod (unwrap N s) (\<lambda>c. c)) (out_label out)"

text \<open>
  The packets that a sequence of calls hands over, numbered from \<open>N\<close>, with the number and the
  instance at the end.
\<close>

fun traced :: "build \<Rightarrow> ('s, 'r) call list \<Rightarrow> nat \<Rightarrow> ('s, 'r) seqex \<Rightarrow>
    ((nat \<times> bool) list \<times> nat \<times> ('s, 'r) seqex) option" where
  "traced b [] N s = Some ([], N, s)"
| "traced b (c # cs) N s = do {
     (out, s1) \<leftarrow> exec b c s;
     (ds, N', s') \<leftarrow> traced b cs (unwrap N s (next_recv_seq_no s1)) s1;
     Some (labels (label_of N s out) @ ds, N', s')
   }"

lemma traced_run:
  "traced b cs N s = Some (ds, N', s') \<Longrightarrow> \<exists>outs. run (exec b) cs s = Some (outs, s')"
proof (induction cs arbitrary: N s ds)
  case (Cons c cs)
  from Cons.prems obtain out s1 ds1 where "exec b c s = Some (out, s1)"
    and "traced b cs (unwrap N s (next_recv_seq_no s1)) s1 = Some (ds1, N', s')"
    by (auto simp: bind_eq_Some_conv split: prod.splits)
  with Cons.IH show ?case by fastforce
qed simp

lemma run_traced:
  "run (exec b) cs s = Some (outs, s') \<Longrightarrow> \<exists>ds N'. traced b cs N s = Some (ds, N', s')"
proof (induction cs arbitrary: N s outs)
  case (Cons c cs)
  from Cons.prems obtain out s1 outs1 where "exec b c s = Some (out, s1)"
    and "run (exec b) cs s1 = Some (outs1, s')"
    by (auto simp: bind_eq_Some_conv split: prod.splits)
  with Cons.IH [of s1 outs1 "unwrap N s (next_recv_seq_no s1)"] show ?case by auto
qed simp

text \<open>Calls that leave the receive side alone are idle steps.\<close>

lemma handed_over_cong:
  "received t = received s \<Longrightarrow> next_recv_seq_no t = next_recv_seq_no s \<Longrightarrow>
   handed_over N t = handed_over N s \<and> unwrap N s (next_recv_seq_no t) = N"
  by (simp add: handed_over_def unwrap_def fun_eq_iff)

lemma put_waiting_handed:
  assumes "received s n = None"
    and "received t = (received s)(n \<mapsto> Occupied n ro c d)"
    and "next_recv_seq_no t = next_recv_seq_no s"
  shows "handed_over N t = handed_over N s \<and> unwrap N s (next_recv_seq_no t) = N"
proof -
  have "{m. received t m = Some (Unlocked m)} = {m. received s m = Some (Unlocked m)}"
    using assms(1,2) by auto
  then show ?thesis using assms(3) by (simp add: handed_over_def unwrap_def)
qed

lemma put_unlocked_handed:
  assumes "received t = (received s)(n \<mapsto> Unlocked n)"
    and "next_recv_seq_no t = next_recv_seq_no s"
  shows "handed_over N t = insert (unwrap N s n) (handed_over N s)
    \<and> unwrap N s (next_recv_seq_no t) = N"
proof -
  have "{m. received t m = Some (Unlocked m)} = insert n {m. received s m = Some (Unlocked m)}"
    using assms(1) by auto
  then show ?thesis using assms(2) by (simp add: handed_over_def unwrap_def [abs_def])
qed

lemma unat_sub_of_nat:
  fixes m n :: seq_no
  assumes "k \<le> unat (m - n)"
  shows "unat (m - (n + of_nat k)) = unat (m - n) - k"
proof -
  have "unat (m - n) < 2 ^ LENGTH(32)" by (rule unsigned_less)
  with assms have "k < 2 ^ 32" by simp
  then have "unat (of_nat k :: seq_no) = k" by (rule unat_u32_of_nat)
  with assms have "unat (m - n - of_nat k) = unat (m - n) - k"
    by (simp add: unat_sub word_le_nat_alt)
  then show ?thesis by (simp only: diff_diff_eq)
qed

lemma passed_handed:
  fixes N :: nat
  assumes "passed k s s2" and "shape s"
  defines "M \<equiv> N + Suc k"
  shows "unwrap N s (next_recv_seq_no s2) = M"
    and "{N<..<M} \<subseteq> handed_over N s" and "M \<notin> handed_over N s"
    and "handed_over M s2 = handed_over N s - {..M}"
proof -
  let ?n = "next_recv_seq_no s"
  have k: "Suc k < 2 ^ 32" and inv2: "shape s2" "recv_ok s2" "head_ok s2"
    and skipped: "\<And>j. j < k \<Longrightarrow> received s (?n + 1 + of_nat j) = Some (Unlocked (?n + 1 + of_nat j))"
    and recv2: "\<And>m. received s2 m = (if unat (m - ?n) < Suc k then None else received s m)"
    using assms(1) shape_bounds(2) [OF assms(2)] by (simp_all add: passed_def)
  have next2: "next_recv_seq_no s2 = ?n + of_nat (Suc k)"
    using passed_fields(4) [OF assms(1)] by (simp add: add.assoc)
  show "unwrap N s (next_recv_seq_no s2) = M"
    unfolding unwrap_def next2 offset_of_nat [OF k] M_def by (rule refl)
  show "{N<..<M} \<subseteq> handed_over N s"
  proof
    fix i assume i: "i \<in> {N<..<M}"
    define j where "j = i - N - 1"
    with i have "j < k" and ij: "i = N + Suc j" by (auto simp: M_def)
    have "unwrap N s (?n + 1 + of_nat j) = i"
      using offset_of_nat [of "Suc j" ?n] \<open>j < k\<close> k by (simp add: unwrap_def ij add.assoc)
    with skipped [OF \<open>j < k\<close>] show "i \<in> handed_over N s"
      unfolding handed_over_def by (metis (mono_tags, lifting) image_eqI mem_Collect_eq)
  qed
  have not_head: "received s (?n + of_nat (Suc k)) \<noteq> Some (Unlocked (?n + of_nat (Suc k)))"
  proof
    assume a: "received s (?n + of_nat (Suc k)) = Some (Unlocked (?n + of_nat (Suc k)))"
    with recv2 [of "?n + of_nat (Suc k)"] offset_of_nat [OF k, of ?n]
    have "received s2 (next_recv_seq_no s2) = Some (Unlocked (next_recv_seq_no s2))"
      by (simp only: next2) simp
    then have "is_unlocked (recv_head s2)"
      by (auto simp: received_def recv_head_def Let_def split: if_splits)
    with inv2(3) show False by (simp add: head_ok_def)
  qed
  show notin: "M \<notin> handed_over N s"
  proof
    assume "M \<in> handed_over N s"
    then obtain m where m: "received s m = Some (Unlocked m)" and "unat (m - ?n) = Suc k"
      by (auto simp: handed_over_def unwrap_def M_def)
    then have "m - ?n = of_nat (Suc k)" by (metis of_nat_unat ucast_id)
    then have "m = ?n + of_nat (Suc k)" by (simp only: diff_eq_eq add.commute)
    with m not_head show False by simp
  qed
  have unwrap2: "unwrap M s2 m = unwrap N s m" if "Suc k \<le> unat (m - ?n)" for m
    using unat_sub_of_nat [OF that] that unfolding unwrap_def next2 M_def by simp
  show "handed_over M s2 = handed_over N s - {..M}"
  proof (intro equalityI subsetI)
    fix i assume "i \<in> handed_over M s2"
    then obtain m where "received s2 m = Some (Unlocked m)" and i: "i = unwrap M s2 m"
      by (auto simp: handed_over_def)
    then have m: "received s m = Some (Unlocked m)" and off: "Suc k \<le> unat (m - ?n)"
      by (auto simp: recv2 split: if_splits)
    with i unwrap2 have "i = unwrap N s m" by simp
    with m off have "i \<in> handed_over N s" and "M \<le> i"
      by (auto simp: handed_over_def unwrap_def M_def)
    with notin show "i \<in> handed_over N s - {..M}" by (cases "i = M") auto
  next
    fix i assume "i \<in> handed_over N s - {..M}"
    then obtain m where m: "received s m = Some (Unlocked m)" and i: "i = unwrap N s m" and "M < i"
      by (auto simp: handed_over_def)
    then have "Suc k \<le> unat (m - ?n)" by (simp add: unwrap_def M_def)
    with m i unwrap2 show "i \<in> handed_over M s2"
      by (auto simp: handed_over_def recv2 intro!: image_eqI [of _ _ m])
  qed
qed

text \<open>Receiving data and pumping are steps of the receiver.\<close>

lemma raw_label_delivered [simp]: "raw_label (delivered_as s n ro c d) = Some (n, c)"
  by (simp add: delivered_as_def split: option.split)

lemma passed_step:
  assumes "passed k s s2" and "shape s"
    and "received t = received s2" and "next_recv_seq_no t = next_recv_seq_no s2"
  shows "receiver_step once (N, handed_over N s) (Some (N, c))
    (unwrap N s (next_recv_seq_no t), handed_over (unwrap N s (next_recv_seq_no t)) t)"
proof -
  note handed = passed_handed [OF assms(1,2), of N]
  have "handed_over (N + Suc k) t = handed_over (N + Suc k) s2"
    using handed_over_cong [of t s2] assms(3,4) by blast
  with handed assms(4) show ?thesis
    by (simp add: receiver_step.next_one)
qed

abbreviation receiver_at :: "nat \<Rightarrow> ('s, 'r) seqex \<Rightarrow> nat \<times> nat set" where
  "receiver_at N s \<equiv> (N, handed_over N s)"

lemma idle_step:
  "received t = received s \<Longrightarrow> next_recv_seq_no t = next_recv_seq_no s \<Longrightarrow>
   receiver_step once (receiver_at N s) None (receiver_at (unwrap N s (next_recv_seq_no t)) t)"
  using handed_over_cong [of t s N] by (simp add: receiver_step.idle)

lemma receive_data_step:
  fixes into :: "'r \<Rightarrow> 'r"
  assumes "core_inv s" and "receive_data b into c n ro d s = Some (r, s')"
    and "once \<longrightarrow> received s n \<noteq> Some (Unlocked n)"
  shows "receiver_step once (receiver_at N s) (label_of N s (ReceiveOut r))
    (receiver_at (unwrap N s (next_recv_seq_no s')) s')"
  using assms(1)
proof (cases rule: receive_data_cases [of s b into c n ro d])
  case (drop e)
  with assms(2) have "out_label (ReceiveOut r) = None" and "s' = s" by auto
  then show ?thesis by (simp add: label_of_def idle_step)
next
  case (store e)
  note parts = core_parts [OF assms(1)]
  have "received s' = (received s)(n \<mapsto> Occupied n ro c (into d))"
    using store assms(2) put_recv_received [OF parts(1,2), of "Occupied n ro c (into d)"] by simp
  moreover have "next_recv_seq_no s' = next_recv_seq_no s" using store assms(2) by auto
  ultimately have "handed_over N s' = handed_over N s" "unwrap N s (next_recv_seq_no s') = N"
    using put_waiting_handed [OF store(3), of s' ro c "into d" N] by blast+
  with store assms(2) show ?thesis by (auto simp: label_of_def receiver_step.idle)
next
  case ahead
  note parts = core_parts [OF assms(1)]
  have "received (put_recv (Unlocked n) s) = (received s)(n \<mapsto> Unlocked n)"
    using ahead(1) put_recv_received [OF parts(1,2), of "Unlocked n"] by simp
  moreover have s': "s' = issue n c ro (put_recv (Unlocked n) s)" and r: "r = Inr (delivered_as s n ro c d, False)"
    using ahead(5) assms(2) by simp_all
  ultimately have "received s' = (received s)(n \<mapsto> Unlocked n)"
    using received_cong [of s' "put_recv (Unlocked n) s"] by simp
  moreover have "next_recv_seq_no s' = next_recv_seq_no s" by (simp add: s')
  ultimately have "handed_over N s' = insert (unwrap N s n) (handed_over N s)"
    and "unwrap N s (next_recv_seq_no s') = N"
    using put_unlocked_handed by blast+
  moreover have "N < unwrap N s n" using ahead(3) by (simp add: unwrap_def unat_gt_0)
  moreover have "once \<longrightarrow> unwrap N s n \<notin> handed_over N s"
    using assms(3) by (auto simp: handed_over_def unwrap_def word_unat_eq_iff [symmetric])
  ultimately show ?thesis
    using ahead(4) r by (simp add: label_of_def receiver_step.ahead)
next
  case (head k s2)
  have s': "s' = issue n c ro s2" and r: "out_label (ReceiveOut r) = Some (n, c)"
    using head(4) assms(2) by auto
  then have "received s' = received s2" "next_recv_seq_no s' = next_recv_seq_no s2"
    using received_cong [of s' s2] by simp_all
  from passed_step [OF head(3) core_parts(1) [OF assms(1)] this, of once N c] show ?thesis
    using r by (simp add: label_of_def head(1) unwrap_def)
qed

lemma pump_step:
  assumes "core_inv s" and "try_pump_raw b s = Some (r, s')"
  shows "receiver_step once (receiver_at N s) (label_of N s (PumpOut r))
    (receiver_at (unwrap N s (next_recv_seq_no s')) s')"
  using assms(1)
proof (cases rule: pump_cases [of s b])
  case (wait e)
  with assms(2) have "out_label (PumpOut r) = None" and "s' = s" by auto
  then show ?thesis by (simp add: label_of_def idle_step)
next
  case (head ro c d k s2)
  have s': "s' = issue (next_recv_seq_no s) c ro s2"
    and r: "out_label (PumpOut r) = Some (next_recv_seq_no s, c)"
    using head(4) assms(2) by auto
  then have "received s' = received s2" "next_recv_seq_no s' = next_recv_seq_no s2"
    using received_cong [of s' s2] by simp_all
  from passed_step [OF head(3) core_parts(1) [OF assms(1)] this, of once N c] show ?thesis
    using r by (simp add: label_of_def unwrap_def)
qed

text \<open>A call that is not the duplicate of a packet handed over out of order.\<close>

fun fresh_call :: "('s, 'r) call \<Rightarrow> ('s, 'r) seqex \<Rightarrow> bool" where
  "fresh_call (Receive p) s =
     (case seq_part p of
        None \<Rightarrow> True
      | Some n \<Rightarrow> (case received s n of Some (Unlocked _) \<Rightarrow> False | _ \<Rightarrow> True))"
| "fresh_call _ s = True"

text \<open>A call that may release the lock.\<close>

fun may_unlock :: "('s, 'r) call \<Rightarrow> bool" where
  "may_unlock (ReplyRaw _ _ u _ _) = u"
| "may_unlock (AckRaw _ u) = u"
| "may_unlock UnlockRaw = True"
| "may_unlock _ = False"

text \<open>The other calls do not touch the receive side.\<close>

lemma send_side_calls:
  assumes "core_inv s" and "exec Release c s = Some (out, s')"
    and "\<And>p. c \<noteq> Receive p" and "c \<noteq> Pump"
  shows "recv_window s' = recv_window s" and "next_recv_seq_no s' = next_recv_seq_no s"
    and "out_label out = None" and "is_locked s \<Longrightarrow> \<not> may_unlock c \<Longrightarrow> is_locked s'"
proof -
  note shape = core_parts(1) [OF assms(1)]
  have "recv_window s' = recv_window s \<and> next_recv_seq_no s' = next_recv_seq_no s
    \<and> out_label out = None \<and> (is_locked s \<longrightarrow> \<not> may_unlock c \<longrightarrow> is_locked s')"
  proof (cases c)
    case (TrySend t q d)
    with assms(2) show ?thesis
      by (auto simp: try_send_direct_eq [OF shape, of Release] time_ok_def Let_def split: if_splits)
  next
    case (ReplyRaw t r u q d)
    show ?thesis
    proof (cases "r \<in># reserved s")
      case True
      obtain s1 where "redeemed r s s1" and "reply_raw_and_direct Release t r u q d s
        = Some (Some (to_packet (new_entry t q (Some r) d s)),
                push_entry (new_entry t q (Some r) d s) (set_lock u s1))"
        by (rule reply_known [OF assms(1) True, of Release u t q d])
          (simp_all add: unlock_ok_def time_ok_def)
      with ReplyRaw assms(2) redeemed_fields [of r s s1] show ?thesis by auto
    next
      case False
      with ReplyRaw assms(2) reply_unknown(1) [OF assms(1)] show ?thesis by auto
    qed
  next
    case (AckRaw r u)
    show ?thesis
    proof (cases "r \<in># reserved s")
      case True
      obtain s1 where "redeemed r s s1"
        and "ack_raw_and_direct Release r u s = Some (Some (Ack r), set_lock u s1)"
        by (rule ack_known [OF assms(1) True, of Release u]) (simp_all add: unlock_ok_def)
      with AckRaw assms(2) redeemed_fields [of r s s1] show ?thesis by auto
    next
      case False
      with AckRaw assms(2) reply_unknown(2) [OF assms(1)] show ?thesis by auto
    qed
  next
    case (ServiceAll t)
    have "time_ok Release t s" by (simp add: time_ok_def)
    from service_loop_shape [OF shape this] service_loop_early [of t s Release] ServiceAll assms(2)
    show ?thesis by (cases "sint (next_service_timestamp s) \<le> sint t") auto
  qed (use assms in \<open>auto simp: unlock_raw_def\<close>)
  then show "recv_window s' = recv_window s" and "next_recv_seq_no s' = next_recv_seq_no s"
    and "out_label out = None" and "is_locked s \<Longrightarrow> \<not> may_unlock c \<Longrightarrow> is_locked s'"
    by blast+
qed

lemma exec_receiver_step:
  assumes "core_inv s" and "exec b c s = Some (out, s')" and "once \<longrightarrow> fresh_call c s"
  shows "receiver_step once (receiver_at N s) (label_of N s out)
    (receiver_at (unwrap N s (next_recv_seq_no s')) s')"
proof -
  have run: "exec Release c s = Some (out, s')"
    using assms(2) agreesD [OF exec_mono] by (cases b) auto
  consider p where "c = Receive p" | "c = Pump" | "\<And>p. c \<noteq> Receive p" "c \<noteq> Pump" by blast
  then show ?thesis
  proof cases
    case (1 p)
    show ?thesis
    proof (cases "seq_part p")
      case None
      then obtain r where p: "p = Ack r" by (cases p) simp_all
      with 1 run have "s' = drop_sent r s" and "out_label out = None"
        by (auto simp: receive_ack_eq [OF core_parts(1) [OF assms(1)]] split: option.splits)
      then show ?thesis
        using idle_step [of s' s once N] by (simp add: label_of_def drop_sent_views)
    next
      case (Some n)
      with 1 run obtain r where "receive_data Release (\<lambda>d. d) (is_seq_cst p) n (reply_part p)
          (the (payload p)) s = Some (r, s')" and "out = ReceiveOut r"
        by (auto simp: receive_eq bind_eq_Some_conv split: prod.splits)
      moreover have "once \<longrightarrow> received s n \<noteq> Some (Unlocked n)"
        using assms(3) 1 Some by auto
      ultimately show ?thesis using receive_data_step [OF assms(1)] by blast
    qed
  next
    case 2
    with run obtain r where "try_pump_raw Release s = Some (r, s')" and "out = PumpOut r"
      by (auto simp: bind_eq_Some_conv split: prod.splits)
    with pump_step [OF assms(1)] show ?thesis by blast
  next
    case 3
    note same = send_side_calls [OF assms(1) run 3]
    from idle_step [OF received_cong [OF same(1)] same(2), of once N] same(3) show ?thesis
      by (simp add: label_of_def)
  qed
qed

section \<open>Sequences of calls\<close>

lemma exec_keeps_core:
  assumes "core_inv s" and "exec b c s = Some (out, s')"
  shows "core_inv s'"
proof -
  have "exec Release c s = Some (out, s')"
    using assms(2) agreesD [OF exec_mono] by (cases b) auto
  moreover obtain out2 s2 where "exec Release c s = Some (out2, s2)" and "core_inv s2"
    by (rule exec_keeps [OF assms(1), of Release c]) simp_all
  ultimately show ?thesis by simp
qed

lemma traced_receiver_run:
  "core_inv s \<Longrightarrow> traced b cs N s = Some (ds, N', s') \<Longrightarrow>
   once \<longrightarrow> permitted (exec b) fresh_call cs s \<Longrightarrow>
   receiver_run once (receiver_at N s) ds (receiver_at N' s')"
proof (induction cs arbitrary: N s ds)
  case Nil
  then show ?case by (simp add: receiver_run.stop)
next
  case (Cons c cs)
  let ?N1 = "\<lambda>s1. unwrap N s (next_recv_seq_no s1)"
  from Cons.prems(2) obtain out s1 ds1 where step: "exec b c s = Some (out, s1)"
    and rest: "traced b cs (?N1 s1) s1 = Some (ds1, N', s')"
    and ds: "ds = labels (label_of N s out) @ ds1"
    by (auto simp: bind_eq_Some_conv split: prod.splits)
  from Cons.prems(3) step have ok: "once \<longrightarrow> fresh_call c s"
    and oks: "once \<longrightarrow> permitted (exec b) fresh_call cs s1" by auto
  from Cons.IH [OF exec_keeps_core [OF Cons.prems(1) step] rest oks]
    exec_receiver_step [OF Cons.prems(1) step ok]
  show ?case unfolding ds by (intro receiver_run.more)
qed

lemma new_handed_over:
  "new_seqex b cap iv n = Some s \<Longrightarrow> 0 < cap \<Longrightarrow> handed_over N s = {}"
  by (simp add: handed_over_def new_seqex_views)

lemma new_traced:
  assumes "window_ring cap" and "new_seqex b cap iv n = Some s"
    and "traced b cs 0 s = Some (ds, N', s')"
    and "once \<longrightarrow> permitted (exec b) fresh_call cs s"
  shows "receiver_run once (0, {}) ds (N', handed_over N' s')"
proof -
  have "core_inv s" using new_seqex_wf [OF assms(1,2)] by simp
  from traced_receiver_run [OF this assms(3,4)] show ?thesis
    using new_handed_over [OF assms(2) window_ring.cap_pos [OF assms(1)]] by simp
qed

section \<open>Data comes from packets\<close>

text \<open>What a packet carries, and what is handed over.\<close>

definition carries :: "'r packet set \<Rightarrow> seq_no \<Rightarrow> bool \<Rightarrow> 'r \<Rightarrow> bool" where
  "carries ps n c d \<longleftrightarrow> (\<exists>p \<in> ps. seq_part p = Some n \<and> is_seq_cst p = c \<and> payload p = Some d)"

fun raw_data :: "('s, 'r) recv_ok_raw \<Rightarrow> (seq_no \<times> bool \<times> 'r) list" where
  "raw_data (RawPayload n c d) = [(n, c, d)]"
| "raw_data (RawReply n c d _) = [(n, c, d)]"
| "raw_data (RawAck _) = []"

fun out_data :: "('s, 'r) call_output \<Rightarrow> (seq_no \<times> bool \<times> 'r) list" where
  "out_data (ReceiveOut (Inr (r, _))) = raw_data r"
| "out_data (PumpOut (Inr (r, _))) = raw_data r"
| "out_data _ = []"

fun call_packets :: "('s, 'r) call list \<Rightarrow> 'r packet set" where
  "call_packets [] = {}"
| "call_packets (Receive p # cs) = insert p (call_packets cs)"
| "call_packets (_ # cs) = call_packets cs"

definition waiting_from :: "'r packet set \<Rightarrow> ('s, 'r) seqex \<Rightarrow> bool" where
  "waiting_from ps s \<longleftrightarrow>
     (\<forall>n m ro c d. received s n = Some (Occupied m ro c d) \<longrightarrow> carries ps m c d)"

lemma carries_mono: "carries ps n c d \<Longrightarrow> ps \<subseteq> qs \<Longrightarrow> carries qs n c d"
  by (auto simp: carries_def)

lemma waiting_from_mono: "waiting_from ps s \<Longrightarrow> ps \<subseteq> qs \<Longrightarrow> waiting_from qs s"
  unfolding waiting_from_def by (blast intro: carries_mono)

lemma raw_data_delivered [simp]: "raw_data (delivered_as s n ro c d) = [(n, c, d)]"
  by (simp add: delivered_as_def split: option.split)

lemma passed_waiting:
  assumes "waiting_from ps s" and "passed k s s2" and "received t = received s2"
  shows "waiting_from ps t"
  using assms unfolding waiting_from_def passed_def by (metis option.distinct(1))

lemma receive_data_data:
  fixes into :: "'r \<Rightarrow> 'r"
  assumes "core_inv s" and "waiting_from ps s" and "carries ps n c (into d)" and "carries ps n c d"
    and "receive_data b into c n ro d s = Some (r, s')"
  shows "waiting_from ps s'" and "\<forall>(m, q, x) \<in> set (out_data (ReceiveOut r)). carries ps m q x"
proof -
  note parts = core_parts [OF assms(1)]
  have "waiting_from ps s' \<and> (\<forall>(m, q, x) \<in> set (out_data (ReceiveOut r)). carries ps m q x)"
    using assms(1)
  proof (cases rule: receive_data_cases [of s b into c n ro d])
    case (drop e)
    with assms(2,5) show ?thesis by auto
  next
    case (store e)
    then have "received s' = (received s)(n \<mapsto> Occupied n ro c (into d))"
      using assms(5) put_recv_received [OF parts(1,2), of "Occupied n ro c (into d)"] by simp
    with store assms(2,3,5) show ?thesis by (auto simp: waiting_from_def)
  next
    case ahead
    then have "received s' = (received s)(n \<mapsto> Unlocked n)"
      using assms(5) put_recv_received [OF parts(1,2), of "Unlocked n"]
        received_cong [of s' "put_recv (Unlocked n) s"] by auto
    with ahead assms(2,4,5) show ?thesis by (auto simp: waiting_from_def)
  next
    case (head k s2)
    then have s': "s' = issue n c ro s2" and r: "out_data (ReceiveOut r) = [(n, c, d)]"
      using assms(5) by auto
    then have "received s' = received s2" using received_cong [of s' s2] by simp
    from passed_waiting [OF assms(2) head(3) this] r assms(4) show ?thesis by simp
  qed
  then show "waiting_from ps s'" and "\<forall>(m, q, x) \<in> set (out_data (ReceiveOut r)). carries ps m q x"
    by blast+
qed

lemma pump_data:
  assumes "core_inv s" and "waiting_from ps s" and "try_pump_raw b s = Some (r, s')"
  shows "waiting_from ps s'" and "\<forall>(m, q, x) \<in> set (out_data (PumpOut r)). carries ps m q x"
proof -
  have "waiting_from ps s' \<and> (\<forall>(m, q, x) \<in> set (out_data (PumpOut r)). carries ps m q x)"
    using assms(1)
  proof (cases rule: pump_cases [of s b])
    case (wait e)
    with assms(2,3) show ?thesis by auto
  next
    case (head ro c d k s2)
    then have s': "s' = issue (next_recv_seq_no s) c ro s2"
      and r: "out_data (PumpOut r) = [(next_recv_seq_no s, c, d)]"
      using assms(3) by auto
    then have "received s' = received s2" using received_cong [of s' s2] by simp
    from passed_waiting [OF assms(2) head(3) this] have "waiting_from ps s'" .
    moreover have "received s (next_recv_seq_no s) = Some (Occupied (next_recv_seq_no s) ro c d)"
      using head(1) by (simp add: received_def recv_head_def)
    ultimately show ?thesis using assms(2) r by (simp add: waiting_from_def)
  qed
  then show "waiting_from ps s'" and "\<forall>(m, q, x) \<in> set (out_data (PumpOut r)). carries ps m q x"
    by blast+
qed

lemma out_data_label: "out_label out = None \<Longrightarrow> out_data out = []"
proof -
  have "raw_label r = None \<Longrightarrow> raw_data r = []" for r :: "('s, 'r) recv_ok_raw"
    by (cases r) simp_all
  then show "out_label out = None \<Longrightarrow> out_data out = []"
    by (induction out rule: out_label.induct) simp_all
qed

lemma exec_data:
  assumes "core_inv s" and "waiting_from ps s" and "exec b c s = Some (out, s')"
    and "call_packets [c] \<subseteq> ps"
  shows "waiting_from ps s'" and "\<forall>(m, q, x) \<in> set (out_data out). carries ps m q x"
proof -
  have run: "exec Release c s = Some (out, s')"
    using assms(3) agreesD [OF exec_mono] by (cases b) auto
  have "waiting_from ps s' \<and> (\<forall>(m, q, x) \<in> set (out_data out). carries ps m q x)"
  proof -
    consider p where "c = Receive p" | "c = Pump" | "\<And>p. c \<noteq> Receive p" "c \<noteq> Pump" by blast
    then show ?thesis
    proof cases
      case (1 p)
      show ?thesis
      proof (cases "seq_part p")
        case None
        then obtain r where p: "p = Ack r" by (cases p) simp_all
        with 1 run have "s' = drop_sent r s" and "out_data out = []"
          by (auto simp: receive_ack_eq [OF core_parts(1) [OF assms(1)]] split: option.splits)
        with assms(2) show ?thesis by (simp add: waiting_from_def drop_sent_views)
      next
        case (Some n)
        with 1 run obtain r where data: "receive_data Release (\<lambda>d. d) (is_seq_cst p) n
            (reply_part p) (the (payload p)) s = Some (r, s')" and out: "out = ReceiveOut r"
          by (auto simp: receive_eq bind_eq_Some_conv split: prod.splits)
        from Some obtain x where "payload p = Some x" by (cases p) simp_all
        with 1 Some assms(4) have "carries ps n (is_seq_cst p) (the (payload p))"
          by (auto simp: carries_def)
        from receive_data_data [OF assms(1,2) this this data] out show ?thesis by blast
      qed
    next
      case 2
      with run obtain r where "try_pump_raw Release s = Some (r, s')" and "out = PumpOut r"
        by (auto simp: bind_eq_Some_conv split: prod.splits)
      with pump_data [OF assms(1,2)] show ?thesis by blast
    next
      case 3
      note same = send_side_calls [OF assms(1) run 3]
      with assms(2) received_cong [OF same(1)] out_data_label [OF same(3)] show ?thesis
        by (simp add: waiting_from_def)
    qed
  qed
  then show "waiting_from ps s'" and "\<forall>(m, q, x) \<in> set (out_data out). carries ps m q x" by blast+
qed

lemma run_data:
  "core_inv s \<Longrightarrow> waiting_from ps s \<Longrightarrow> run (exec b) cs s = Some (outs, s') \<Longrightarrow>
   call_packets cs \<subseteq> ps \<Longrightarrow>
   \<forall>out \<in> set outs. \<forall>(m, q, x) \<in> set (out_data out). carries ps m q x"
proof (induction cs arbitrary: s outs)
  case (Cons c cs)
  from Cons.prems(3) obtain out s1 outs1 where step: "exec b c s = Some (out, s1)"
    and rest: "run (exec b) cs s1 = Some (outs1, s')" and outs: "outs = out # outs1"
    by (auto simp: bind_eq_Some_conv split: prod.splits)
  from Cons.prems(4) have "call_packets [c] \<subseteq> ps" and sub: "call_packets cs \<subseteq> ps"
    by (cases c; simp)+
  note data = exec_data [OF Cons.prems(1,2) step this(1)]
  from Cons.IH [OF exec_keeps_core [OF Cons.prems(1) step] data(1) rest sub] data(2) outs
  show ?case by simp
qed simp

section \<open>The lock\<close>

text \<open>An output that hands over a SeqCst packet.\<close>

definition hands_seq_cst :: "('s, 'r) call_output \<Rightarrow> bool" where
  "hands_seq_cst out \<longleftrightarrow> (\<exists>n. out_label out = Some (n, True))"

lemma exec_locked:
  assumes "core_inv s" and "exec b c s = Some (out, s')" and "is_locked s" and "\<not> may_unlock c"
  shows "is_locked s' \<and> \<not> hands_seq_cst out"
proof -
  note shape = core_parts(1) [OF assms(1)]
  have run: "exec Release c s = Some (out, s')"
    using assms(2) agreesD [OF exec_mono] by (cases b) auto
  have never: "\<not> deliverable s True n ro" for n ro
    using assms(3) by (simp add: deliverable_def)
  consider p where "c = Receive p" | "c = Pump" | "\<And>p. c \<noteq> Receive p" "c \<noteq> Pump" by blast
  then show ?thesis
  proof cases
    case (1 p)
    show ?thesis
    proof (cases "seq_part p")
      case None
      then obtain r where "p = Ack r" by (cases p) simp_all
      with 1 run assms(3) show ?thesis
        by (auto simp: receive_ack_eq [OF shape] hands_seq_cst_def split: option.splits)
    next
      case (Some n)
      with 1 run obtain r where data: "receive_data Release (\<lambda>d. d) (is_seq_cst p) n
          (reply_part p) (the (payload p)) s = Some (r, s')" and out: "out = ReceiveOut r"
        by (auto simp: receive_eq bind_eq_Some_conv split: prod.splits)
      from assms(1) show ?thesis
      proof (cases rule: receive_data_cases
          [of s Release "\<lambda>d. d" "is_seq_cst p" n "reply_part p" "the (payload p)"])
        case (head k s2)
        then have "\<not> is_seq_cst p" using never by (cases "is_seq_cst p") auto
        with head data out assms(3) passed_fields(8) [OF head(3)] show ?thesis
          by (auto simp: hands_seq_cst_def)
      qed (use data out assms(3) in \<open>auto simp: hands_seq_cst_def\<close>)
    qed
  next
    case 2
    with run obtain r where pump: "try_pump_raw Release s = Some (r, s')" and out: "out = PumpOut r"
      by (auto simp: bind_eq_Some_conv split: prod.splits)
    from assms(1) show ?thesis
    proof (cases rule: pump_cases [of s Release])
      case (head ro q d k s2)
      then have "\<not> q" using never by (cases q) auto
      with head pump out assms(3) passed_fields(8) [OF head(3)] show ?thesis
        by (auto simp: hands_seq_cst_def)
    qed (use pump out assms(3) in \<open>auto simp: hands_seq_cst_def\<close>)
  next
    case 3
    from send_side_calls(3,4) [OF assms(1) run 3] assms(3,4) show ?thesis
      by (simp add: hands_seq_cst_def)
  qed
qed

lemma run_locked:
  "core_inv s \<Longrightarrow> run (exec b) cs s = Some (outs, s') \<Longrightarrow> is_locked s \<Longrightarrow>
   list_all (\<lambda>c. \<not> may_unlock c) cs \<Longrightarrow>
   is_locked s' \<and> list_all (\<lambda>out. \<not> hands_seq_cst out) outs"
proof (induction cs arbitrary: s outs)
  case (Cons c cs)
  from Cons.prems(2) obtain out s1 outs1 where step: "exec b c s = Some (out, s1)"
    and rest: "run (exec b) cs s1 = Some (outs1, s')" and outs: "outs = out # outs1"
    by (auto simp: bind_eq_Some_conv split: prod.splits)
  from Cons.prems(4) have "\<not> may_unlock c" and rest_ok: "list_all (\<lambda>c. \<not> may_unlock c) cs"
    by simp_all
  from exec_locked [OF Cons.prems(1) step Cons.prems(3) this(1)]
  have "is_locked s1" and "\<not> hands_seq_cst out" by simp_all
  with Cons.IH [OF exec_keeps_core [OF Cons.prems(1) step] rest _ rest_ok] outs show ?case by simp
qed simp

section \<open>Properties\<close>

text \<open>
  C13. Every call refines the abstract receiver. In either build, whatever the call and the packet,
  a call that returns is one step of the receiver that counts without wrap-around: it hands over
  nothing, or a packet above the next one that is not SeqCst, or the next one, after which the
  receiver moves past everything already handed over.
\<close>

theorem call_refines_receiver:
  assumes "core_inv s" and "exec b c s = Some (out, s')"
  shows "receiver_step False (receiver_at N s) (label_of N s out)
    (receiver_at (unwrap N s (next_recv_seq_no s')) s')"
  using exec_receiver_step [OF assms, of False N] by simp

theorem call_refines_receiver_witness:
  "\<exists>s' :: (nat, nat) seqex. receiver_step False (0, handed_over 0 (fresh 4)) (Some (1, False)) (0, handed_over 0 s')"
proof -
  have "map_option (\<lambda>(out, s). (label_of 0 (fresh 4) out, unwrap 0 (fresh 4) (next_recv_seq_no s)))
      (exec Debug (Receive (Payload 1 5)) (fresh 4)) = Some (Some (1, False), 0)"
    by code_simp
  then obtain out s' where run: "exec Debug (Receive (Payload 1 5)) (fresh 4) = Some (out, s')"
    and labels: "label_of 0 (fresh 4) out = Some (1, False)"
      "unwrap 0 (fresh 4) (next_recv_seq_no s') = 0"
    by auto
  from call_refines_receiver [OF seq_inv_core [OF fresh_inv(1)] run, of 0]
  show ?thesis unfolding labels by (rule exI)
qed

text \<open>
  C12. Sequential consistency. Over any sequence of calls on a new instance, in either build, a
  SeqCst packet is handed over only after every packet with a smaller sequence number, and the
  SeqCst packets come in strictly increasing order, so none comes twice.
\<close>

theorem seq_cst_in_order:
  assumes "window_ring cap" and "new_seqex b cap iv n = Some s"
    and "traced b cs 0 s = Some (ds, N', s')"
  shows "seq_cst_last [] ds \<and> sorted_wrt (<) (map fst (filter snd ds))"
proof -
  have "receiver_run False (0, {}) ds (N', handed_over N' s')"
    using new_traced [OF assms, of False] by simp
  from receiver_run_facts(3,5) [OF this refl refl, of "[]"] show ?thesis by simp
qed

text \<open>
  C15. Nothing is skipped. When \<open>next_recv_seq_no\<close> has moved on by \<open>N'\<close>, every packet of the first
  \<open>N'\<close> has been handed over, and so has every packet that the receive window marks as processed.
\<close>

theorem nothing_skipped:
  assumes "window_ring cap" and "new_seqex b cap iv n = Some s"
    and "traced b cs 0 s = Some (ds, N', s')"
  shows "{..<N'} \<union> handed_over N' s' \<subseteq> fst ` set ds"
proof -
  have "receiver_run False (0, {}) ds (N', handed_over N' s')"
    using new_traced [OF assms, of False] by simp
  from receiver_run_facts(2) [OF this refl refl, of "[]"] show ?thesis by simp
qed

text \<open>
  C14. Exactly once. If no call receives a duplicate of a packet that was processed out of order
  and is still in the window, no packet is handed over twice.
\<close>

theorem handed_over_once:
  assumes "window_ring cap" and "new_seqex b cap iv n = Some s"
    and "traced b cs 0 s = Some (ds, N', s')"
    and "permitted (exec b) fresh_call cs s"
  shows "distinct (map fst ds)"
proof -
  have "receiver_run True (0, {}) ds (N', handed_over N' s')"
    using new_traced [OF assms(1-3), of True] assms(4) by simp
  from receiver_once(1) [OF this _ refl] show ?thesis by simp
qed

text \<open>One run with out-of-order and SeqCst packets, for the three theorems.\<close>

definition mixed_calls :: "(nat, nat) call list" where
  "mixed_calls = [Receive (Payload 1 5), Receive (SeqCstPayload 2 6), Receive (SeqCstPayload 0 4),
     AckRaw 0 True, Pump, Receive (Payload 1 5)]"

lemma mixed_traced:
  obtains s' where "traced Debug mixed_calls 0 (fresh 8) = Some ([(1, False), (0, True), (2, True)], 3, s')"
proof -
  have "map_option (\<lambda>(ds, N, _). (ds, N)) (traced Debug mixed_calls 0 (fresh 8))
      = Some ([(1, False), (0, True), (2, True)], 3)"
    by code_simp
  then show thesis using that by auto
qed

theorem seq_cst_in_order_witness:
  "\<exists>ds N' s'. traced Debug mixed_calls 0 (fresh 8) = Some (ds, N', s') \<and> ds \<noteq> []
    \<and> seq_cst_last [] ds"
  by (rule mixed_traced) (use seq_cst_in_order [OF small_rings(2) fresh_new_small(2)] in fastforce)

theorem nothing_skipped_witness:
  "\<exists>ds s'. traced Debug mixed_calls 0 (fresh 8) = Some (ds, 3, s') \<and> {..<3} \<subseteq> fst ` set ds"
  by (rule mixed_traced) (use nothing_skipped [OF small_rings(2) fresh_new_small(2)] in fastforce)

theorem handed_over_once_witness:
  "\<exists>ds N' s'. traced Debug mixed_calls 0 (fresh 8) = Some (ds, N', s') \<and> ds \<noteq> []
    \<and> distinct (map fst ds)"
proof -
  have ok: "permitted (exec Debug) fresh_call mixed_calls (fresh 8)" by code_simp
  obtain s' where run: "traced Debug mixed_calls 0 (fresh 8)
      = Some ([(1, False), (0, True), (2, True)], 3, s')" by (rule mixed_traced)
  from handed_over_once [OF small_rings(2) fresh_new_small(2) run ok] run show ?thesis by auto
qed

text \<open>
  Every packet handed over was received: the sequence number, the SeqCst flag and the data
  come from one packet passed to a receive in the same sequence of calls.
\<close>

theorem handed_data_was_received:
  assumes "window_ring cap" and "new_seqex b cap iv n = Some s"
    and "run (exec b) cs s = Some (outs, s')"
  shows "\<forall>out \<in> set outs. \<forall>(m, q, x) \<in> set (out_data out). carries (call_packets cs) m q x"
proof -
  have "0 < cap" using assms(1) by (rule window_ring.cap_pos)
  then have "waiting_from (call_packets cs) s"
    using new_seqex_views(3) [OF _ assms(2)] by (simp add: waiting_from_def)
  from run_data [OF seq_inv_core [OF new_seqex_wf [OF assms(1,2)]] this assms(3) subset_refl]
  show ?thesis .
qed

theorem handed_data_was_received_witness:
  "\<exists>outs s'. run (exec Debug) mixed_calls (fresh 8) = Some (outs, s') \<and> length outs = 6
    \<and> (\<forall>out \<in> set outs. \<forall>(m, q, x) \<in> set (out_data out). carries (call_packets mixed_calls) m q x)"
proof -
  have "map_option (\<lambda>(outs, _). length outs) (run (exec Debug) mixed_calls (fresh 8)) = Some 6"
    by code_simp
  then obtain outs s' where "run (exec Debug) mixed_calls (fresh 8) = Some (outs, s')"
    and "length outs = 6" by auto
  with handed_data_was_received [OF small_rings(2) fresh_new_small(2) this(1)] show ?thesis by blast
qed

text \<open>
  The SeqCst lock excludes. While the instance is locked and no call asks to release the
  lock, it stays locked and no SeqCst packet is handed over, whatever is received or pumped.
\<close>

theorem locked_excludes_seq_cst:
  assumes "core_inv s" and "is_locked s" and "list_all (\<lambda>c. \<not> may_unlock c) cs"
    and "run (exec b) cs s = Some (outs, s')"
  shows "is_locked s' \<and> list_all (\<lambda>out. \<not> hands_seq_cst out) outs"
  using assms(1,4,2,3) by (rule run_locked)

theorem locked_excludes_seq_cst_witness:
  "\<exists>outs s'. run (exec Debug) [Receive (SeqCstPayload 0 4), Pump] (set_lock False (issue 7 True None (fresh 8)))
      = Some (outs, s') \<and> is_locked s' \<and> list_all (\<lambda>out. \<not> hands_seq_cst out) outs"
proof -
  let ?s = "set_lock False (issue 7 True None (fresh 8))"
  have core: "core_inv ?s"
    by (intro set_lock_core issue_core fresh_room) (simp add: fresh_inv)
  have locked: "is_locked ?s" by simp
  have calls: "list_all (\<lambda>c. \<not> may_unlock c) [Receive (SeqCstPayload 0 4), Pump :: (nat, nat) call]"
    by simp
  have "map_option (\<lambda>_. ()) (run (exec Debug) [Receive (SeqCstPayload 0 4), Pump] ?s) = Some ()"
    by code_simp
  then obtain outs s' where "run (exec Debug) [Receive (SeqCstPayload 0 4), Pump] ?s = Some (outs, s')"
    by auto
  with locked_excludes_seq_cst [OF core locked calls this] show ?thesis by blast
qed

end
