(* ===== verification/Limits.thy ===== *)
theory Limits
  imports Delivery
begin

text \<open>
  Where the guarantees end: the duplicate that is handed over again, the reply number that makes
  the fullness test pass without freeing a slot, and the capacity the constructor accepts and the
  protocol cannot use. Each shows that a hypothesis of the theorems before it is needed.
\<close>

text \<open>
  A duplicate is handed over again. A plain packet that was processed out of order leaves its
  mark in the window, yet when its duplicate arrives before the window has moved past it, the
  packet is handed over and its reply number issued once more, as often as it arrives.
\<close>

theorem duplicate_handed_over_again:
  assumes "core_inv s" and "received s n = Some (Unlocked n)" and "room s None"
  shows "\<exists>s'. exec b (Receive (Payload n d)) s = Some (ReceiveOut (Inr (RawPayload n False d, False)), s')
    \<and> reserved s' = add_mset n (reserved s) \<and> received s' = received s"
proof -
  note parts = core_parts [OF assms(1)]
  have win: "in_window s n" by (rule received_in_window(1) [OF parts(1,2) assms(2)])
  have ahead: "n \<noteq> next_recv_seq_no s"
    using parts(3) assms(2)
    by (auto simp: head_ok_def recv_head_def received_def Let_def split: if_splits)
  have deliv: "deliverable s False n None" using assms(3) by (simp add: deliverable_def)
  let ?t = "issue n False None (put_recv (Unlocked n) s)"
  have "received ?t = received s"
    using received_cong [of ?t "put_recv (Unlocked n) s"] assms(2) win
      put_recv_received [OF parts(1,2), of "Unlocked n"] by (auto simp: fun_eq_iff)
  moreover have "reserved ?t = add_mset n (reserved s)"
    using issue_views [OF parts(1) assms(3), of "put_recv (Unlocked n) s" n False]
    by (simp add: put_recv_def)
  moreover have "exec b (Receive (Payload n d)) s = Some (ReceiveOut (Inr (RawPayload n False d, False)), ?t)"
    using receive_ahead [OF assms(1) win deliv ahead, of b "\<lambda>d. d" d]
    by (simp add: receive_eq delivered_as_def)
  ultimately show ?thesis by blast
qed

theorem duplicate_handed_over_again_witness:
  "\<exists>s s'. map_option snd (exec Debug (Receive (Payload 1 5)) (fresh 8)) = Some s
    \<and> exec Debug (Receive (Payload 1 5)) s = Some (ReceiveOut (Inr (RawPayload 1 False 5, False)), s')
    \<and> reserved s' = add_mset 1 (reserved s)"
proof -
  let ?s = "issue 1 False None (put_recv (Unlocked 1) (fresh 8))"
  have first: "map_option snd (exec Debug (Receive (Payload 1 5)) (fresh 8)) = Some ?s"
    by code_simp
  have core: "core_inv ?s"
    using exec_keeps_core [OF seq_inv_core [OF fresh_inv(2)]] first by (auto simp del: exec.simps)
  have "received ?s 1 = Some (Unlocked 1)" by code_simp
  moreover have "room ?s None"
    by (simp add: room_def blocked_def issue_send_window fresh_def new_seqex_Some slot_def)
  ultimately show ?thesis
    using duplicate_handed_over_again [OF core, of 1 Debug 5] first by blast
qed

definition forged_calls :: "(nat, nat) call list" where
  "forged_calls = [TrySend 0 False 1, TrySend 0 False 2, TrySend 0 False 3, TrySend 0 False 4,
     Receive (Reply 0 4 9), ReplyRaw 5 0 False False 8]"

text \<open>
  A forged reply number loses a packet. With four packets unacknowledged in a window of four,
  a reply that names sequence number 4 passes the fullness test, because 4 has the index of the
  next packet's slot, but acknowledges nothing. The answer to it then panics in a debug build; in
  a release build it overwrites packet 0, which was never acknowledged.
\<close>

theorem forged_reply_loses_packet:
  "run (exec Debug) forged_calls (fresh 4) = None
   \<and> map_option (\<lambda>(outs, s). map (map_option entry_seq_no) (send_window s))
       (run (exec Release) forged_calls (fresh 4)) = Some [Some 4, Some 1, Some 2, Some 3]
   \<and> call_packets forged_calls = {Reply 0 4 9}"
  by (intro conjI; code_simp)

lemma no_room_two: "cap_of s = 2 \<Longrightarrow> \<not> room s ro"
  by (simp add: room_def)

lemma exec_capacity_two:
  assumes "core_inv s" and "cap_of s = 2" and "exec b c s = Some (out, s')"
  shows "out_label out = None \<and> (\<forall>p. out \<noteq> TrySendOut (Inr p)) \<and> cap_of s' = 2"
proof -
  note shape = core_parts(1) [OF assms(1)]
  note full = no_room_two [OF assms(2)]
  have run: "exec Release c s = Some (out, s')"
    using assms(3) agreesD [OF exec_mono] by (cases b) auto
  have never: "\<not> deliverable s q n ro" for q n ro using full by (simp add: deliverable_def)
  have "concurrent_replies_total s = 0" using core_parts(4) [OF assms(1)] assms(2) by simp
  then have none: "r \<notin># reserved s" for r by (simp add: reserved_def)
  show ?thesis
  proof (cases c)
    case (TrySend t q d)
    with run full assms(2) show ?thesis
      by (auto simp: try_send_direct_eq [OF shape, of Release] time_ok_def)
  next
    case (Receive p)
    show ?thesis
    proof (cases "seq_part p")
      case None
      then obtain r where "p = Ack r" by (cases p) simp_all
      with Receive run assms(2) show ?thesis
        by (auto simp: receive_ack_eq [OF shape] split: option.splits)
    next
      case (Some n)
      with Receive run obtain r where data: "receive_data Release (\<lambda>d. d) (is_seq_cst p) n
          (reply_part p) (the (payload p)) s = Some (r, s')" and out: "out = ReceiveOut r"
        by (auto simp: receive_eq bind_eq_Some_conv split: prod.splits)
      from assms(1) show ?thesis
        by (cases rule: receive_data_cases
            [of s Release "\<lambda>d. d" "is_seq_cst p" n "reply_part p" "the (payload p)"])
          (use data out never assms(2) in auto)
    qed
  next
    case Pump
    with run obtain r where pump: "try_pump_raw Release s = Some (r, s')" and out: "out = PumpOut r"
      by (auto simp: bind_eq_Some_conv split: prod.splits)
    from assms(1) show ?thesis
      by (cases rule: pump_cases [of s Release]) (use pump out never assms(2) in auto)
  next
    case (ServiceAll t)
    have "time_ok Release t s" by (simp add: time_ok_def)
    from service_loop_shape [OF shape this] service_loop_early [of t s Release] ServiceAll run assms(2)
    show ?thesis by (cases "sint (next_service_timestamp s) \<le> sint t") auto
  qed (use run assms(2) reply_unknown [OF assms(1) none] in \<open>auto simp: unlock_raw_def\<close>)
qed

lemma run_capacity_two:
  "core_inv s \<Longrightarrow> cap_of s = 2 \<Longrightarrow> run (exec b) cs s = Some (outs, s') \<Longrightarrow>
   list_all (\<lambda>out. out_label out = None \<and> (\<forall>p. out \<noteq> TrySendOut (Inr p))) outs"
proof (induction cs arbitrary: s outs)
  case (Cons c cs)
  from Cons.prems(3) obtain out s1 outs1 where step: "exec b c s = Some (out, s1)"
    and rest: "run (exec b) cs s1 = Some (outs1, s')" and outs: "outs = out # outs1"
    by (auto simp: bind_eq_Some_conv split: prod.splits)
  from exec_capacity_two [OF Cons.prems(1,2) step] Cons.IH [OF exec_keeps_core [OF Cons.prems(1) step] _ rest]
    outs show ?case by simp
qed simp

text \<open>
  Capacity two is dead. The constructor accepts it, but the fullness test keeps two slots
  back, so such an instance never sends a packet and never hands one over.
\<close>

theorem capacity_two_is_dead:
  assumes "new_seqex b 2 iv n = Some s" and "run (exec b) cs s = Some (outs, s')"
  shows "list_all (\<lambda>out. out_label out = None \<and> (\<forall>p. out \<noteq> TrySendOut (Inr p))) outs"
proof -
  have "window_ring 2" by unfold_locales simp_all
  from new_seqex_wf [OF this assms(1)] have "core_inv s" by simp
  moreover have "cap_of s = 2" using assms(1) by (auto simp: new_seqex_Some)
  ultimately show ?thesis using assms(2) by (rule run_capacity_two)
qed

theorem capacity_two_is_dead_witness:
  "\<exists>outs s'. run (exec Debug) [TrySend 0 False 1, Receive (Payload 0 5), Pump] (fresh 2) = Some (outs, s')
    \<and> length outs = 3
    \<and> list_all (\<lambda>out. out_label out = None \<and> (\<forall>p. out \<noteq> TrySendOut (Inr p))) outs"
proof -
  have "map_option (\<lambda>(outs, _). length outs)
      (run (exec Debug) [TrySend 0 False 1, Receive (Payload 0 5), Pump] (fresh 2)) = Some 3"
    by code_simp
  then obtain outs s' where
    run: "run (exec Debug) [TrySend 0 False 1, Receive (Payload 0 5), Pump] (fresh 2) = Some (outs, s')"
    and "length outs = 3" by auto
  moreover have "new_seqex Debug 2 250 0 = Some (fresh 2)" by (rule fresh_new) simp
  from capacity_two_is_dead [OF this run] calculation show ?thesis by blast
qed

end
