(* ===== verification/Single_Thread.thy ===== *)
theory Single_Thread
  imports Limits
begin

text \<open>
  The single-threaded API (\<^verbatim>\<open>src/single_thread.rs\<close>): the wrappers that read the
  time and send packets through the transport layer, the error types and their conversions, and the
  reply guards with their destructors.

  A wrapper takes the value of \<^verbatim>\<open>tl.time()\<close> as an argument, where the code reads it,
  and returns the list of packets passed to \<^verbatim>\<open>tl.send\<close>, in order. A guard borrows
  the instance: its operations take the instance and return it updated.
\<close>

section \<open>Errors\<close>

datatype try_recv_error =
    DroppedTooEarly
  | DroppedDuplicate
  | RecvWaitingForRecv
  | RecvWaitingForReply

fun recv_error_from :: "try_raw_recv_error \<Rightarrow> try_recv_error" where
  "recv_error_from RawDroppedTooEarly = DroppedTooEarly"
| "recv_error_from RawDroppedDuplicate = DroppedDuplicate"
| "recv_error_from (RawDroppedDuplicateResendAck _) = DroppedDuplicate"
| "recv_error_from RawWaitingForRecv = RecvWaitingForRecv"
| "recv_error_from RawWaitingForReply = RecvWaitingForReply"

fun display_try_raw_recv_error :: "try_raw_recv_error \<Rightarrow> string" where
  "display_try_raw_recv_error RawDroppedTooEarly = ''packet arrived too early''"
| "display_try_raw_recv_error RawDroppedDuplicate = ''packet was a duplicate''"
| "display_try_raw_recv_error (RawDroppedDuplicateResendAck _) =
     ''packet was a duplicate, resending ack''"
| "display_try_raw_recv_error RawWaitingForRecv =
     ''can't process until another packet is received''"
| "display_try_raw_recv_error RawWaitingForReply = ''can't process until a reply is finished''"

fun display_try_recv_error :: "try_recv_error \<Rightarrow> string" where
  "display_try_recv_error DroppedTooEarly = ''packet arrived too early''"
| "display_try_recv_error DroppedDuplicate = ''packet was a duplicate''"
| "display_try_recv_error RecvWaitingForRecv =
     ''can't process packet until another packet is received''"
| "display_try_recv_error RecvWaitingForReply =
     ''can't process packet until a reply is finished''"

fun display_try_error :: "try_error \<Rightarrow> string" where
  "display_try_error WaitingForRecv = ''can't process until another packet is received''"
| "display_try_error WaitingForReply = ''can't process until a reply is finished''"

section \<open>Sending, receiving and servicing through the transport layer\<close>

definition try_send ::
  "build \<Rightarrow> i64 \<Rightarrow> bool \<Rightarrow> 's \<Rightarrow> ('s, 'r) seqex \<Rightarrow>
   (((try_error \<times> 's) + unit) \<times> 's packet list \<times> ('s, 'r) seqex) option" where
  "try_send b time seq_cst packet_data s = do {
     (res, s) \<leftarrow> try_send_direct b time seq_cst packet_data s;
     case res of
       Inr p \<Rightarrow> Some (Inr (), [p], s)
     | Inl e \<Rightarrow> Some (Inl e, [], s)
   }"

definition try_send_with ::
  "build \<Rightarrow> i64 \<Rightarrow> bool \<Rightarrow> (seq_no \<Rightarrow> 's) \<Rightarrow> ('s, 'r) seqex \<Rightarrow>
   (((try_error \<times> (seq_no \<Rightarrow> 's)) + unit) \<times> 's packet list \<times> ('s, 'r) seqex) option" where
  "try_send_with b time seq_cst f s = do {
     (res, s) \<leftarrow> try_send_direct_with b time seq_cst f s;
     case res of
       Inr p \<Rightarrow> Some (Inr (), [p], s)
     | Inl e \<Rightarrow> Some (Inl e, [], s)
   }"

definition try_receive_raw ::
  "build \<Rightarrow> ('p \<Rightarrow> 'r) \<Rightarrow> 'p packet \<Rightarrow> ('s, 'r) seqex \<Rightarrow>
   ((try_recv_error + (('s, 'p) recv_ok_raw \<times> bool)) \<times> 's packet list \<times> ('s, 'r) seqex) option" where
  "try_receive_raw b into packet s = do {
     (res, s) \<leftarrow> try_receive_raw_and_direct b into packet s;
     case res of
       Inr a \<Rightarrow> Some (Inr a, [], s)
     | Inl (RawDroppedDuplicateResendAck reply_no) \<Rightarrow>
         Some (Inl DroppedDuplicate, [Ack reply_no], s)
     | Inl e \<Rightarrow> Some (Inl (recv_error_from e), [], s)
   }"

definition reply_raw ::
  "build \<Rightarrow> i64 \<Rightarrow> seq_no \<Rightarrow> bool \<Rightarrow> bool \<Rightarrow> 's \<Rightarrow> ('s, 'r) seqex \<Rightarrow>
   (bool \<times> 's packet list \<times> ('s, 'r) seqex) option" where
  "reply_raw b time reply_no unlock seq_cst packet_data s = do {
     (res, s) \<leftarrow> reply_raw_and_direct b time reply_no unlock seq_cst packet_data s;
     case res of
       Some p \<Rightarrow> Some (True, [p], s)
     | None \<Rightarrow> Some (False, [], s)
   }"

definition ack_raw ::
  "build \<Rightarrow> seq_no \<Rightarrow> bool \<Rightarrow> ('s, 'r) seqex \<Rightarrow>
   (bool \<times> 's packet list \<times> ('s, 'r) seqex) option" where
  "ack_raw b reply_no unlock s = do {
     (res, s) \<leftarrow> ack_raw_and_direct b reply_no unlock s;
     case res of
       Some p \<Rightarrow> Some (True, [p], s)
     | None \<Rightarrow> Some (False, [], s)
   }"

definition service ::
  "build \<Rightarrow> i64 \<Rightarrow> ('s, 'r) seqex \<Rightarrow> (i64 \<times> 's packet list \<times> ('s, 'r) seqex) option" where
  "service b current_time s = do {
     (ps, s) \<leftarrow> service_loop b current_time None s;
     left \<leftarrow> i64_sub b (next_service_timestamp s) current_time;
     Some (i64_min_of (resend_interval s) left, ps, s)
   }"

section \<open>Reply guards\<close>

text \<open>A guard is its reply number and whether it holds the SeqCst lock.\<close>

record reply_guard =
  guard_reply_no :: seq_no
  is_holding_lock :: bool

datatype seq_cst_guard = SeqCstGuard

definition guard_new :: "seq_no \<Rightarrow> bool \<Rightarrow> reply_guard" where
  "guard_new reply_no holding = \<lparr> guard_reply_no = reply_no, is_holding_lock = holding \<rparr>"

definition from_components :: "seq_no \<Rightarrow> bool \<Rightarrow> reply_guard" where
  "from_components reply_no holding = guard_new reply_no holding"

definition to_components :: "reply_guard \<Rightarrow> seq_no \<times> bool" where
  "to_components g = (guard_reply_no g, is_holding_lock g)"

definition guard_is_seq_cst :: "reply_guard \<Rightarrow> bool" where
  "guard_is_seq_cst g = is_holding_lock g"

definition consume_lock :: "reply_guard \<Rightarrow> seq_cst_guard option" where
  "consume_lock g = (if is_holding_lock g then Some SeqCstGuard else None)"

text \<open>The closure of a reply gets the sequence number of the reply and of the packet replied to.\<close>

definition guard_reply_with ::
  "build \<Rightarrow> i64 \<Rightarrow> bool \<Rightarrow> (seq_no \<Rightarrow> seq_no \<Rightarrow> 's) \<Rightarrow> reply_guard \<Rightarrow> ('s, 'r) seqex \<Rightarrow>
   ('s packet list \<times> ('s, 'r) seqex) option" where
  "guard_reply_with b time seq_cst f g s = do {
     let seq_no = seq_no_of s;
     (_, ps, s) \<leftarrow> reply_raw b time (guard_reply_no g) (is_holding_lock g) seq_cst
                     (f seq_no (guard_reply_no g)) s;
     Some (ps, s)
   }"

definition guard_reply ::
  "build \<Rightarrow> i64 \<Rightarrow> bool \<Rightarrow> 's \<Rightarrow> reply_guard \<Rightarrow> ('s, 'r) seqex \<Rightarrow>
   ('s packet list \<times> ('s, 'r) seqex) option" where
  "guard_reply b time seq_cst packet_data g s =
     guard_reply_with b time seq_cst (\<lambda>_ _. packet_data) g s"

definition guard_ack ::
  "build \<Rightarrow> reply_guard \<Rightarrow> ('s, 'r) seqex \<Rightarrow>
   (seq_cst_guard option \<times> 's packet list \<times> ('s, 'r) seqex) option" where
  "guard_ack b g s = do {
     (_, ps, s) \<leftarrow> ack_raw b (guard_reply_no g) False s;
     Some (consume_lock g, ps, s)
   }"

definition guard_unlock ::
  "reply_guard \<Rightarrow> ('s, 'r) seqex \<Rightarrow> bool \<times> reply_guard \<times> ('s, 'r) seqex" where
  "guard_unlock g s =
     (if is_holding_lock g then (True, g\<lparr>is_holding_lock := False\<rparr>, unlock_raw s)
      else (False, g, s))"

definition guard_reply_with_stay_locked ::
  "build \<Rightarrow> i64 \<Rightarrow> bool \<Rightarrow> (seq_no \<Rightarrow> seq_no \<Rightarrow> 's) \<Rightarrow> reply_guard \<Rightarrow> ('s, 'r) seqex \<Rightarrow>
   (seq_cst_guard option \<times> 's packet list \<times> ('s, 'r) seqex) option" where
  "guard_reply_with_stay_locked b time seq_cst f g s = do {
     let seq_no = seq_no_of s;
     (_, ps, s) \<leftarrow> reply_raw b time (guard_reply_no g) False seq_cst (f seq_no (guard_reply_no g)) s;
     Some (consume_lock g, ps, s)
   }"

definition guard_reply_stay_locked ::
  "build \<Rightarrow> i64 \<Rightarrow> bool \<Rightarrow> 's \<Rightarrow> reply_guard \<Rightarrow> ('s, 'r) seqex \<Rightarrow>
   (seq_cst_guard option \<times> 's packet list \<times> ('s, 'r) seqex) option" where
  "guard_reply_stay_locked b time seq_cst packet_data g s =
     guard_reply_with_stay_locked b time seq_cst (\<lambda>_ _. packet_data) g s"

text \<open>The destructors.\<close>

definition guard_drop ::
  "build \<Rightarrow> reply_guard \<Rightarrow> ('s, 'r) seqex \<Rightarrow> ('s packet list \<times> ('s, 'r) seqex) option" where
  "guard_drop b g s = do {
     (_, ps, s) \<leftarrow> ack_raw b (guard_reply_no g) (is_holding_lock g) s;
     Some (ps, s)
   }"

definition seq_cst_guard_drop :: "seq_cst_guard \<Rightarrow> ('s, 'r) seqex \<Rightarrow> ('s, 'r) seqex" where
  "seq_cst_guard_drop g s = unlock_raw s"

section \<open>What a receive returns\<close>

datatype ('s, 'r) recv_ok =
    RecvPayload reply_guard 'r
  | RecvReply reply_guard 'r 's
  | RecvAck 's

fun recv_from_raw :: "('s, 'r) recv_ok_raw \<Rightarrow> ('s, 'r) recv_ok" where
  "recv_from_raw (RawPayload reply_no seq_cst recv_data) =
     RecvPayload (guard_new reply_no seq_cst) recv_data"
| "recv_from_raw (RawReply reply_no seq_cst recv_data send_data) =
     RecvReply (guard_new reply_no seq_cst) recv_data send_data"
| "recv_from_raw (RawAck send_data) = RecvAck send_data"

fun recv_consume :: "('s, 'r) recv_ok \<Rightarrow> (reply_guard \<times> 'r) option \<times> 's option" where
  "recv_consume (RecvPayload g d) = (Some (g, d), None)"
| "recv_consume (RecvReply g d e) = (Some (g, d), Some e)"
| "recv_consume (RecvAck e) = (None, Some e)"

fun recv_new :: "(reply_guard \<times> 'r) option \<Rightarrow> 's option \<Rightarrow> ('s, 'r) recv_ok option" where
  "recv_new (Some (g, d)) None = Some (RecvPayload g d)"
| "recv_new (Some (g, d)) (Some e) = Some (RecvReply g d e)"
| "recv_new None (Some e) = Some (RecvAck e)"
| "recv_new None None = None"

definition receive ::
  "build \<Rightarrow> 'r packet \<Rightarrow> ('s, 'r) seqex \<Rightarrow>
   ((try_recv_error + (('s, 'r) recv_ok \<times> bool)) \<times> 's packet list \<times> ('s, 'r) seqex) option" where
  "receive b packet s = do {
     (res, ps, s) \<leftarrow> try_receive_raw b (\<lambda>d. d) packet s;
     case res of
       Inr (r, do_pump) \<Rightarrow> Some (Inr (recv_from_raw r, do_pump), ps, s)
     | Inl e \<Rightarrow> Some (Inl e, ps, s)
   }"

definition try_pump ::
  "build \<Rightarrow> ('s, 'r) seqex \<Rightarrow>
   ((try_error + (('s, 'r) recv_ok \<times> bool)) \<times> ('s, 'r) seqex) option" where
  "try_pump b s = do {
     (res, s) \<leftarrow> try_pump_raw b s;
     case res of
       Inr (r, do_pump) \<Rightarrow> Some (Inr (recv_from_raw r, do_pump), s)
     | Inl e \<Rightarrow> Some (Inl e, s)
   }"

end
