(* ===== verification/Guards.thy ===== *)
theory Guards
  imports Single_Thread
begin

text \<open>
  The discipline of the reply guards. A session is an instance together with the guards alive; its
  calls are those of the safe API, where a guard is consumed when it is used and cannot be copied.
  The live guards are shown to be exactly the issued reply numbers and the holder of the SeqCst
  lock, so that no call of a session can be refused or unlock twice.
\<close>

section \<open>Sessions\<close>

text \<open>
  \<open>seq_cst_guards\<close> counts the live \<^verbatim>\<open>SeqCstGuard\<close>s. Several reply guards
  are alive at once after \<^verbatim>\<open>to_components\<close> and in the thread-safe API.
\<close>

record ('s, 'r) session =
  sess_seq :: "('s, 'r) seqex"
  sess_guards :: "reply_guard list"
  seq_cst_guards :: nat

text \<open>
  Guards are named by their position. \<open>ApiServiceDirect\<close> is a loop over
  \<^verbatim>\<open>service_direct\<close>, as \<^verbatim>\<open>service\<close> has it, without the
  time it returns.
\<close>

datatype ('s, 'r) api_call =
    ApiSend i64 bool 's
  | ApiReceive "'r packet"
  | ApiPump
  | ApiReply nat i64 bool "seq_no \<Rightarrow> seq_no \<Rightarrow> 's"
  | ApiReplyStay nat i64 bool "seq_no \<Rightarrow> seq_no \<Rightarrow> 's"
  | ApiAck nat
  | ApiUnlock nat
  | ApiDrop nat
  | ApiDropSeqCst
  | ApiService i64
  | ApiServiceDirect i64

fun received_guards :: "'e + (('s, 'r) recv_ok \<times> bool) \<Rightarrow> reply_guard list" where
  "received_guards (Inr (r, _)) = (case recv_consume r of (Some (g, _), _) \<Rightarrow> [g] | _ \<Rightarrow> [])"
| "received_guards (Inl _) = []"

definition remove_at :: "nat \<Rightarrow> 'a list \<Rightarrow> 'a list" where
  "remove_at i xs = take i xs @ drop (Suc i) xs"

definition kept_lock :: "seq_cst_guard option \<Rightarrow> nat" where
  "kept_lock l = (if l = None then 0 else 1)"

text \<open>
  One call: the packets put on the wire, and the session after it. A call on a guard that does not
  exist cannot be written; here it is \<open>None\<close>.
\<close>

fun api_step :: "build \<Rightarrow> ('s, 'r) api_call \<Rightarrow> ('s, 'r) session \<Rightarrow>
    ('s packet list \<times> ('s, 'r) session) option" where
  "api_step b (ApiSend t c d) x = do {
     (_, ps, s) \<leftarrow> try_send b t c d (sess_seq x);
     Some (ps, x\<lparr>sess_seq := s\<rparr>)
   }"
| "api_step b (ApiReceive p) x = do {
     (r, ps, s) \<leftarrow> receive b p (sess_seq x);
     Some (ps, x\<lparr>sess_seq := s, sess_guards := sess_guards x @ received_guards r\<rparr>)
   }"
| "api_step b ApiPump x = do {
     (r, s) \<leftarrow> try_pump b (sess_seq x);
     Some ([], x\<lparr>sess_seq := s, sess_guards := sess_guards x @ received_guards r\<rparr>)
   }"
| "api_step b (ApiReply i t c f) x = do {
     g \<leftarrow> arr_get (sess_guards x) i;
     (ps, s) \<leftarrow> guard_reply_with b t c f g (sess_seq x);
     Some (ps, x\<lparr>sess_seq := s, sess_guards := remove_at i (sess_guards x)\<rparr>)
   }"
| "api_step b (ApiReplyStay i t c f) x = do {
     g \<leftarrow> arr_get (sess_guards x) i;
     (l, ps, s) \<leftarrow> guard_reply_with_stay_locked b t c f g (sess_seq x);
     Some (ps, x\<lparr>sess_seq := s, sess_guards := remove_at i (sess_guards x),
                 seq_cst_guards := seq_cst_guards x + kept_lock l\<rparr>)
   }"
| "api_step b (ApiAck i) x = do {
     g \<leftarrow> arr_get (sess_guards x) i;
     (l, ps, s) \<leftarrow> guard_ack b g (sess_seq x);
     Some (ps, x\<lparr>sess_seq := s, sess_guards := remove_at i (sess_guards x),
                 seq_cst_guards := seq_cst_guards x + kept_lock l\<rparr>)
   }"
| "api_step b (ApiUnlock i) x = do {
     g \<leftarrow> arr_get (sess_guards x) i;
     let (_, g, s) = guard_unlock g (sess_seq x);
     Some ([], x\<lparr>sess_seq := s, sess_guards := (sess_guards x)[i := g]\<rparr>)
   }"
| "api_step b (ApiDrop i) x = do {
     g \<leftarrow> arr_get (sess_guards x) i;
     (ps, s) \<leftarrow> guard_drop b g (sess_seq x);
     Some (ps, x\<lparr>sess_seq := s, sess_guards := remove_at i (sess_guards x)\<rparr>)
   }"
| "api_step b ApiDropSeqCst x =
     (if seq_cst_guards x = 0 then None
      else Some ([], x\<lparr>sess_seq := seq_cst_guard_drop SeqCstGuard (sess_seq x),
                       seq_cst_guards := seq_cst_guards x - 1\<rparr>))"
| "api_step b (ApiService t) x = do {
     (_, ps, s) \<leftarrow> service b t (sess_seq x);
     Some (ps, x\<lparr>sess_seq := s\<rparr>)
   }"
| "api_step b (ApiServiceDirect t) x = do {
     (ps, s) \<leftarrow> service_loop b t None (sess_seq x);
     Some (ps, x\<lparr>sess_seq := s\<rparr>)
   }"

section \<open>The invariant\<close>

definition holders :: "('s, 'r) session \<Rightarrow> nat" where
  "holders x = length (filter is_holding_lock (sess_guards x)) + seq_cst_guards x"

definition guards_ok :: "('s, 'r) session \<Rightarrow> bool" where
  "guards_ok x \<longleftrightarrow> mset (map guard_reply_no (sess_guards x)) = reserved (sess_seq x)
     \<and> holders x = (if is_locked (sess_seq x) then 1 else 0)"

text \<open>What the low-level instance needs: everything in a debug build, the core in a release one.\<close>

definition sound :: "build \<Rightarrow> ('s, 'r) seqex \<Rightarrow> bool" where
  "sound b s \<longleftrightarrow> core_inv s \<and> timer_ok s \<and> (b = Debug \<longrightarrow> seq_inv s)"

definition sess_inv :: "build \<Rightarrow> ('s, 'r) session \<Rightarrow> bool" where
  "sess_inv b x \<longleftrightarrow> sound b (sess_seq x) \<and> guards_ok x"

text \<open>
  Permitted calls: the guard exists, and, in a debug build, times do not overflow and the peer's
  reply numbers are in order. Nothing is asked about locks.
\<close>

definition service_ok :: "build \<Rightarrow> i64 \<Rightarrow> ('s, 'r) seqex \<Rightarrow> bool" where
  "service_ok b t s \<longleftrightarrow> time_ok b t s \<and> (b = Debug \<longrightarrow> 0 \<le> sint t)"

fun api_ok :: "build \<Rightarrow> ('s, 'r) api_call \<Rightarrow> ('s, 'r) session \<Rightarrow> bool" where
  "api_ok b (ApiSend t c d) x = time_ok b t (sess_seq x)"
| "api_ok b (ApiReceive p) x = (b = Debug \<longrightarrow> permits b (Receive p) (sess_seq x))"
| "api_ok b ApiPump x = (b = Debug \<longrightarrow> permits b Pump (sess_seq x))"
| "api_ok b (ApiReply i t c f) x = (i < length (sess_guards x) \<and> time_ok b t (sess_seq x))"
| "api_ok b (ApiReplyStay i t c f) x = (i < length (sess_guards x) \<and> time_ok b t (sess_seq x))"
| "api_ok b (ApiAck i) x = (i < length (sess_guards x))"
| "api_ok b (ApiUnlock i) x = (i < length (sess_guards x))"
| "api_ok b (ApiDrop i) x = (i < length (sess_guards x))"
| "api_ok b ApiDropSeqCst x = (0 < seq_cst_guards x)"
| "api_ok b (ApiService t) x = service_ok b t (sess_seq x)"
| "api_ok b (ApiServiceDirect t) x = time_ok b t (sess_seq x)"

section \<open>Guards and their numbers\<close>

lemma remove_at_mset:
  "i < length xs \<Longrightarrow> mset xs = add_mset (xs ! i) (mset (remove_at i xs))"
proof -
  assume "i < length xs"
  then have "xs = take i xs @ xs ! i # drop (Suc i) xs" by (rule id_take_nth_drop)
  then have "mset xs = mset (take i xs @ xs ! i # drop (Suc i) xs)" by simp
  then show ?thesis by (simp add: remove_at_def)
qed

lemma remove_at_map: "map f (remove_at i xs) = remove_at i (map f xs)"
  by (simp add: remove_at_def take_map drop_map)

lemma remove_at_count:
  assumes "i < length xs"
  shows "length (filter P xs) = (if P (xs ! i) then 1 else 0) + length (filter P (remove_at i xs))"
proof -
  have "size (filter_mset P (mset xs)) = length (filter P xs)"
    and "size (filter_mset P (mset (remove_at i xs))) = length (filter P (remove_at i xs))"
    by (simp_all flip: mset_filter)
  with remove_at_mset [OF assms] show ?thesis by (auto split: if_splits)
qed

lemma update_count:
  assumes "i < length xs"
  shows "length (filter P (xs[i := y])) + (if P (xs ! i) then 1 else 0)
    = length (filter P xs) + (if P y then 1 else 0)"
  using remove_at_count [OF assms, of P] remove_at_count [of i "xs[i := y]" P] assms
  by (simp add: remove_at_def)

text \<open>A live guard has an issued number, and holds the lock only while the instance is locked.\<close>

lemma live_guard:
  assumes "guards_ok x" and "i < length (sess_guards x)"
  shows "guard_reply_no (sess_guards x ! i) \<in># reserved (sess_seq x)"
    and "is_holding_lock (sess_guards x ! i) \<Longrightarrow> is_locked (sess_seq x)"
proof -
  have "guard_reply_no (sess_guards x ! i) \<in> set (map guard_reply_no (sess_guards x))"
    using assms(2) by auto
  then show "guard_reply_no (sess_guards x ! i) \<in># reserved (sess_seq x)"
    using assms(1) unfolding guards_ok_def by (metis set_mset_mset)
  show "is_holding_lock (sess_guards x ! i) \<Longrightarrow> is_locked (sess_seq x)"
    using assms(1) remove_at_count [OF assms(2), of is_holding_lock]
    by (auto simp: guards_ok_def holders_def split: if_splits)
qed

text \<open>Using up a guard: its number goes, and the lock stays with someone or is released.\<close>

lemma guards_ok_used:
  assumes "guards_ok x" and "i < length (sess_guards x)"
    and "reserved s' = reserved (sess_seq x) - {#guard_reply_no (sess_guards x ! i)#}"
    and "is_locked s' = (is_locked (sess_seq x) \<and> \<not> (is_holding_lock (sess_guards x ! i) \<and> k = 0))"
    and "k = 0 \<or> k = 1 \<and> is_holding_lock (sess_guards x ! i)"
  shows "guards_ok (x\<lparr>sess_seq := s', sess_guards := remove_at i (sess_guards x),
    seq_cst_guards := seq_cst_guards x + k\<rparr>)"
proof -
  let ?gs = "sess_guards x"
  have "mset (map guard_reply_no ?gs)
      = add_mset (guard_reply_no (?gs ! i)) (mset (map guard_reply_no (remove_at i ?gs)))"
    using remove_at_mset [of i "map guard_reply_no ?gs"] assms(2) by (simp add: remove_at_map)
  then have "reserved (sess_seq x)
      = add_mset (guard_reply_no (?gs ! i)) (mset (map guard_reply_no (remove_at i ?gs)))"
    using assms(1) by (simp add: guards_ok_def)
  with assms(3) have "mset (map guard_reply_no (remove_at i ?gs)) = reserved s'" by simp
  moreover have "length (filter is_holding_lock (remove_at i ?gs)) + (seq_cst_guards x + k)
      = (if is_locked s' then 1 else 0)"
    using assms(1,4,5) remove_at_count [OF assms(2), of is_holding_lock]
    by (auto simp: guards_ok_def holders_def split: if_splits)
  ultimately show ?thesis by (simp add: guards_ok_def holders_def)
qed

section \<open>What each operation does to the guards\<close>

lemma sound_core: "sound b s \<Longrightarrow> core_inv s"
  by (simp add: sound_def)

lemma sound_exec:
  assumes "sound b s" and "b = Debug \<longrightarrow> permits b c s"
  obtains out s' where "exec b c s = Some (out, s')" and "sound b s'"
proof -
  have "b = Release \<or> seq_inv s \<and> permits b c s" using assms by (cases b) (auto simp: sound_def)
  then show thesis
  proof (rule exec_keeps [OF sound_core [OF assms(1)]])
    fix out s'
    assume run: "exec b c s = Some (out, s')" and core: "core_inv s'"
      and timer: "timer_ok s \<Longrightarrow> timer_ok s'"
      and full: "seq_inv s \<Longrightarrow> permits b c s \<Longrightarrow> seq_inv s'"
    have "sound b s'" using assms core timer full by (simp add: sound_def)
    with run show thesis by (rule that)
  qed
qed

lemma release_sound:
  assumes "sound Release s" and "exec Release c s = Some (out, s')"
  shows "sound Release s'"
proof -
  obtain out2 s2 where "exec Release c s = Some (out2, s2)" and "sound Release s2"
    by (rule sound_exec [OF assms(1), of c]) simp
  with assms(2) show ?thesis by (simp del: exec.simps)
qed

definition raw_guards :: "('s, 'r) recv_ok_raw \<Rightarrow> reply_guard list" where
  "raw_guards r = (case raw_label r of Some (n, c) \<Rightarrow> [guard_new n c] | None \<Rightarrow> [])"

lemma received_guards_raw [simp]: "received_guards (Inr (recv_from_raw r, q)) = raw_guards r"
  by (cases r) (simp_all add: raw_guards_def)

text \<open>
  \<open>gains gs s s'\<close>: the numbers of the guards \<open>gs\<close> were issued, and a holder among them took
  the lock, which was free.
\<close>

definition gains :: "reply_guard list \<Rightarrow> ('s, 'r) seqex \<Rightarrow> ('s, 'r) seqex \<Rightarrow> bool" where
  "gains gs s s' \<longleftrightarrow> reserved s' = reserved s + mset (map guard_reply_no gs)
     \<and> (if is_locked s' then 1 else 0)
        = (if is_locked s then 1 else 0) + length (filter is_holding_lock gs)"

lemma gains_none: "reserved s' = reserved s \<Longrightarrow> is_locked s' = is_locked s \<Longrightarrow> gains [] s s'"
  by (simp add: gains_def)

lemma gains_issue:
  assumes "shape s" and "deliverable s c n ro"
    and "send_window t = send_window s" and "concurrent_replies t = concurrent_replies s"
    and "concurrent_replies_total t = concurrent_replies_total s" and "is_locked t = is_locked s"
    and "length (recv_window t) = length (recv_window s)"
  shows "gains (raw_guards (delivered_as s n ro c d)) s (issue n c ro t)"
proof -
  have "room s ro" using assms(2) by (simp add: deliverable_def)
  from issue_views [OF assms(1) this assms(3-7), of n c] assms(2) show ?thesis
    by (auto simp: gains_def raw_guards_def guard_new_def deliverable_def)
qed

lemma passed_issue:
  assumes "passed k s s2" and "shape s" and "deliverable s c n ro"
  shows "gains (raw_guards (delivered_as s n ro c d)) s (issue n c ro s2)"
  using assms passed_fields [OF assms(1)]
  by (intro gains_issue) (simp_all add: passed_def shape_lengths)

lemma receive_data_gains:
  assumes "core_inv s" and "receive_data b into c n ro d s = Some (r, s')"
  shows "gains (case r of Inr (q, _) \<Rightarrow> raw_guards q | Inl _ \<Rightarrow> []) s s'"
  using assms(1)
proof (cases rule: receive_data_cases [of s b into c n ro d])
  case (drop e)
  with assms(2) show ?thesis by (auto intro!: gains_none)
next
  case (store e)
  with assms(2) show ?thesis
    by (auto simp: send_side_cong [of "put_recv (Occupied n ro c (into d)) s" s] intro!: gains_none)
next
  case ahead
  have "gains (raw_guards (delivered_as s n ro c d)) s (issue n c ro (put_recv (Unlocked n) s))"
    by (rule gains_issue [OF core_parts(1) [OF assms(1)] ahead(2)]) (simp_all add: put_recv_def)
  with ahead assms(2) show ?thesis by auto
next
  case (head k s2)
  with passed_issue [OF head(3) core_parts(1) [OF assms(1)] head(2), of d] assms(2)
  show ?thesis by auto
qed

lemma pump_gains:
  assumes "core_inv s" and "try_pump_raw b s = Some (r, s')"
  shows "gains (case r of Inr (q, _) \<Rightarrow> raw_guards q | Inl _ \<Rightarrow> []) s s'"
  using assms(1)
proof (cases rule: pump_cases [of s b])
  case (wait e)
  with assms(2) show ?thesis by (auto intro!: gains_none)
next
  case (head ro c d k s2)
  with passed_issue [OF head(3) core_parts(1) [OF assms(1)] head(2), of d] assms(2)
  show ?thesis by auto
qed

lemma receive_gains:
  assumes "core_inv s" and "try_receive_raw_and_direct b into p s = Some (r, s')"
  shows "gains (case r of Inr (q, _) \<Rightarrow> raw_guards q | Inl _ \<Rightarrow> []) s s'"
proof (cases "seq_part p")
  case None
  then obtain n where "p = Ack n" by (cases p) simp_all
  with assms(2) show ?thesis
    by (auto simp: receive_ack_eq [OF core_parts(1) [OF assms(1)]] raw_guards_def drop_sent_views
        intro!: gains_none split: option.splits)
next
  case (Some n)
  with assms(2) receive_data_gains [OF assms(1)] show ?thesis by (simp add: receive_eq)
qed

text \<open>The lock and the numbers after a send or a service are those before.\<close>

lemma send_gains:
  assumes "core_inv s" and "exec b c s = Some (out, s')"
    and "c = TrySend t q d \<or> c = ServiceAll t"
  shows "gains [] s s'"
proof -
  note shape = core_parts(1) [OF assms(1)]
  have run: "exec Release c s = Some (out, s')"
    using assms(2) agreesD [OF exec_mono] by (cases b) auto
  have time: "time_ok Release t s" by (simp add: time_ok_def)
  have early: "\<not> sint (next_service_timestamp s) \<le> sint t \<Longrightarrow>
      service_loop Release t None s = Some ([], s)"
    by (rule service_loop_early) simp
  from assms(3) show ?thesis
  proof
    assume "c = TrySend t q d"
    with run show ?thesis
      by (auto simp: try_send_direct_eq [OF shape time] Let_def push_entry_views
          intro!: gains_none split: if_splits)
  next
    assume "c = ServiceAll t"
    with run service_loop_shape [OF shape time] early show ?thesis
      by (cases "sint (next_service_timestamp s) \<le> sint t")
        (auto simp: serviced_views intro!: gains_none)
  qed
qed

text \<open>No call changes the capacity.\<close>

lemma exec_cap:
  assumes "core_inv s" and "exec Release c s = Some (out, s')"
  shows "cap_of s' = cap_of s"
proof -
  note shape = core_parts(1) [OF assms(1)]
  have time: "time_ok Release t s" for t by (simp add: time_ok_def)
  show ?thesis
  proof (cases c)
    case (TrySend t q d)
    with assms(2) show ?thesis
      by (auto simp: try_send_direct_eq [OF shape time] Let_def split: if_splits)
  next
    case (Receive p)
    show ?thesis
    proof (cases "seq_part p")
      case None
      then obtain r where "p = Ack r" by (cases p) simp_all
      with Receive assms(2) show ?thesis by (auto simp: receive_ack_eq [OF shape] split: option.splits)
    next
      case (Some n)
      with Receive assms(2) obtain r where data: "receive_data Release (\<lambda>d. d) (is_seq_cst p) n
          (reply_part p) (the (payload p)) s = Some (r, s')"
        by (auto simp: receive_eq bind_eq_Some_conv split: prod.splits)
      from assms(1) show ?thesis
      proof (cases rule: receive_data_cases
          [of s Release "\<lambda>d. d" "is_seq_cst p" n "reply_part p" "the (payload p)"])
        case (head k s2)
        with data passed_fields(5) [OF head(3)] show ?thesis by auto
      qed (use data in auto)
    qed
  next
    case Pump
    with assms(2) obtain r where pump: "try_pump_raw Release s = Some (r, s')"
      by (auto simp: bind_eq_Some_conv split: prod.splits)
    from assms(1) show ?thesis
    proof (cases rule: pump_cases [of s Release])
      case (head ro q d k s2)
      with pump passed_fields(5) [OF head(3)] show ?thesis by auto
    qed (use pump in auto)
  next
    case (ReplyRaw t r u q d)
    show ?thesis
    proof (cases "r \<in># reserved s")
      case True
      obtain s1 where "redeemed r s s1" and "reply_raw_and_direct Release t r u q d s
        = Some (Some (to_packet (new_entry t q (Some r) d s)),
                push_entry (new_entry t q (Some r) d s) (set_lock u s1))"
        by (rule reply_known [OF assms(1) True, of Release u t q d])
          (simp_all add: unlock_ok_def time_ok_def)
      with ReplyRaw assms(2) redeemed_fields(5) [of r s s1] show ?thesis by auto
    next
      case False
      with ReplyRaw assms(2) reply_unknown(1) [OF assms(1)] show ?thesis by auto
    qed
  next
    case (AckRaw r u)
    show ?thesis
    proof (cases "r \<in># reserved s")
      case True
      obtain s1 where "redeemed r s s1"
        and "ack_raw_and_direct Release r u s = Some (Some (Ack r), set_lock u s1)"
        by (rule ack_known [OF assms(1) True, of Release u]) (simp_all add: unlock_ok_def)
      with AckRaw assms(2) redeemed_fields(5) [of r s s1] show ?thesis by auto
    next
      case False
      with AckRaw assms(2) reply_unknown(2) [OF assms(1)] show ?thesis by auto
    qed
  next
    case (ServiceAll t)
    from service_loop_shape [OF shape time] service_loop_early [of t s Release] ServiceAll assms(2)
    show ?thesis by (cases "sint (next_service_timestamp s) \<le> sint t") auto
  qed (use assms in \<open>auto simp: unlock_raw_def\<close>)
qed

lemma redeem_views:
  assumes "sound b s" and "r \<in># reserved s" and "unlock_ok b u s"
  shows "\<exists>s'. ack_raw b r u s = Some (True, [Ack r], s') \<and> sound b s'
      \<and> reserved s' = reserved s - {#r#} \<and> is_locked s' = (is_locked s \<and> \<not> u)"
    and "time_ok b t s \<Longrightarrow> \<exists>s' p. reply_raw b t r u c d s = Some (True, [p], s')
      \<and> reply_part p = Some r \<and> sound b s'
      \<and> reserved s' = reserved s - {#r#} \<and> is_locked s' = (is_locked s \<and> \<not> u)"
proof -
  note core = sound_core [OF assms(1)]
  have ok: "b = Debug \<longrightarrow> permits b (AckRaw r u) s" using assms(3) by auto
  obtain s1 where red: "redeemed r s s1"
    and run: "ack_raw_and_direct b r u s = Some (Some (Ack r), set_lock u s1)"
    by (rule ack_known [OF core assms(2,3)])
  obtain out s' where "exec b (AckRaw r u) s = Some (out, s')" and "sound b s'"
    by (rule sound_exec [OF assms(1) ok])
  with run have "sound b (set_lock u s1)" by auto
  with run redeemed_reserved(1) [OF red, of u] redeemed_fields(8) [OF red]
  show "\<exists>s'. ack_raw b r u s = Some (True, [Ack r], s') \<and> sound b s'
      \<and> reserved s' = reserved s - {#r#} \<and> is_locked s' = (is_locked s \<and> \<not> u)"
    by (simp add: ack_raw_def)
  assume time: "time_ok b t s"
  let ?e = "new_entry t c (Some r) d s"
  have free: "b = Release \<or> send_window s ! slot (cap_of s) (next_send_seq_no s) = None"
    using assms(1,2) reply_slot_free [of s r] by (cases b) (auto simp: sound_def)
  obtain s2 where red2: "redeemed r s s2"
    and run2: "reply_raw_and_direct b t r u c d s
      = Some (Some (to_packet ?e), push_entry ?e (set_lock u s2))"
    by (rule reply_known [OF core assms(2,3) time free])
  have ok2: "b = Debug \<longrightarrow> permits b (ReplyRaw t r u c d) s"
    using assms(3) time by auto
  obtain out s' where "exec b (ReplyRaw t r u c d) s = Some (out, s')" and "sound b s'"
    by (rule sound_exec [OF assms(1) ok2])
  with run2 have "sound b (push_entry ?e (set_lock u s2))" by auto
  with run2 redeemed_reserved(2) [OF red2, of ?e u] redeemed_fields(8) [OF red2]
  show "\<exists>s' p. reply_raw b t r u c d s = Some (True, [p], s')
      \<and> reply_part p = Some r \<and> sound b s'
      \<and> reserved s' = reserved s - {#r#} \<and> is_locked s' = (is_locked s \<and> \<not> u)"
    by (simp add: reply_raw_def to_packet_def)
qed

lemma unlock_raw_sound:
  assumes "sound b s"
  shows "sound b (unlock_raw s)"
  using assms unlock_raw_core [of s] recv_side_timer(4) [of s] lock_only_wf(2) [of s]
  by (auto simp: sound_def)

lemma unlock_raw_views [simp]:
  "reserved (unlock_raw s) = reserved s" "is_locked (unlock_raw s) = False"
  by (simp_all add: unlock_raw_def reserved_def)

text \<open>The time left until the next service fits, once the clock is not negative.\<close>

lemma timer_time:
  assumes "i64_in_range (sint t + sint iv)"
  shows "sint ((t :: i64) + iv) = sint t + sint iv"
  using assms unfolding i64_in_range_def
  by (simp add: sint_word_ariths signed_take_bit_int_eq_self)

lemma sint_i64: "- (2 ^ 63) \<le> sint (x :: i64)" "sint (x :: i64) < 2 ^ 63"
  using sint_ge [of x] sint_lt [of x] by simp_all

lemma service_time_left:
  assumes "core_inv s" and "service_ok b t s" and "b = Debug"
    and "service_loop b t None s = Some (ps, s')"
  shows "i64_in_range (sint (next_service_timestamp s') - sint t)"
proof -
  note shape = core_parts(1) [OF assms(1)]
  let ?nst = "next_service_timestamp s'"
  from assms(2,3) have pos: "0 \<le> sint t" and time: "time_ok b t s"
    and range: "i64_in_range (sint t + sint (resend_interval s))"
    by (auto simp: service_ok_def time_ok_def)
  have "sint t \<le> sint ?nst \<or> ?nst = t + resend_interval s"
  proof (cases "sint (next_service_timestamp s) \<le> sint t")
    case True
    with service_loop_shape [OF shape time True] assms(4) have s': "s' = serviced t s" by simp
    have "sint t \<le> sint i64_max" using sint_i64(2) [of t] by (simp add: i64_max_def)
    moreover have "sint t \<le> sint (next_resend_time e) \<or> next_resend_time e = t + resend_interval s"
      if "i < cap_of s" "send_window (serviced t s) ! i = Some e" for i e
      using that by (auto simp: refresh_def due_def)
    ultimately show ?thesis
      using serviced_timer(2) [OF shape, of t] unfolding s' by metis
  next
    case False
    with service_loop_early [of t s b] assms(4) show ?thesis by auto
  qed
  then show ?thesis
    using sint_i64 [of ?nst] sint_i64 [of "resend_interval s"] pos timer_time [OF range]
    by (auto simp: i64_in_range_def)
qed

section \<open>Every call of a session\<close>

lemma sess_inv_recv:
  assumes "sess_inv b x" and "sound b s'" and "gains gs (sess_seq x) s'"
  shows "sess_inv b (x\<lparr>sess_seq := s', sess_guards := sess_guards x @ gs\<rparr>)"
  using assms by (simp add: sess_inv_def guards_ok_def gains_def holders_def)

lemma sess_inv_send:
  assumes "sess_inv b x" and "sound b s'" and "gains [] (sess_seq x) s'"
  shows "sess_inv b (x\<lparr>sess_seq := s'\<rparr>)"
  using sess_inv_recv [OF assms] by simp

lemma api_receive:
  assumes "sess_inv b x" and "api_ok b (ApiReceive p) x"
  shows "\<exists>ps x'. api_step b (ApiReceive p) x = Some (ps, x') \<and> sess_inv b x'"
proof -
  from assms have sound: "sound b (sess_seq x)" and ok: "b = Debug \<longrightarrow> permits b (Receive p) (sess_seq x)"
    by (simp_all add: sess_inv_def)
  obtain out s' where step: "exec b (Receive p) (sess_seq x) = Some (out, s')" and s': "sound b s'"
    by (rule sound_exec [OF sound ok])
  from step obtain r where run: "try_receive_raw_and_direct b (\<lambda>d. d) p (sess_seq x) = Some (r, s')"
    by (auto simp: bind_eq_Some_conv split: prod.splits)
  note gain = receive_gains [OF sound_core [OF sound] run]
  show ?thesis
  proof (cases r)
    case (Inl e)
    with run gain sess_inv_recv [OF assms(1) s', of "[]"] show ?thesis
      by (cases e) (simp_all add: receive_def try_receive_raw_def)
  next
    case (Inr a)
    obtain q pump where a: "a = (q, pump)" by (cases a)
    with Inr gain have "gains (raw_guards q) (sess_seq x) s'" by simp
    from sess_inv_recv [OF assms(1) s' this] run Inr a show ?thesis
      by (simp add: receive_def try_receive_raw_def del: received_guards.simps)
  qed
qed

lemma try_pump_sound:
  assumes "sound b s" and "b = Debug \<longrightarrow> permits b Pump s"
  shows "\<exists>r s'. try_pump b s = Some (r, s') \<and> sound b s' \<and> gains (received_guards r) s s'"
proof -
  obtain out s' where step: "exec b Pump s = Some (out, s')" and s': "sound b s'"
    by (rule sound_exec [OF assms])
  from step obtain r where run: "try_pump_raw b s = Some (r, s')"
    by (auto simp: bind_eq_Some_conv split: prod.splits)
  note gain = pump_gains [OF sound_core [OF assms(1)] run]
  show ?thesis
    using run gain s' by (cases r) (auto simp: try_pump_def simp del: received_guards.simps(1))
qed

lemma api_pump:
  assumes "sess_inv b x" and "api_ok b ApiPump x"
  shows "\<exists>ps x'. api_step b ApiPump x = Some (ps, x') \<and> sess_inv b x'"
proof -
  from assms have sound: "sound b (sess_seq x)" and ok: "b = Debug \<longrightarrow> permits b Pump (sess_seq x)"
    by (simp_all add: sess_inv_def)
  obtain r s' where "try_pump b (sess_seq x) = Some (r, s')" and "sound b s'"
    and "gains (received_guards r) (sess_seq x) s'"
    using try_pump_sound [OF sound ok] by blast
  with sess_inv_recv [OF assms(1)] show ?thesis by simp
qed

text \<open>Using up a guard always sends one packet: the reply or acknowledgement it owes.\<close>

lemma guard_unlock_ok:
  assumes "guards_ok x" and "i < length (sess_guards x)"
  shows "unlock_ok b (is_holding_lock (sess_guards x ! i)) (sess_seq x)" "unlock_ok b False (sess_seq x)"
  using live_guard(2) [OF assms] by (auto simp: unlock_ok_def)

lemma guard_facts:
  assumes "sess_inv b x" and "i < length (sess_guards x)"
  defines "g \<equiv> sess_guards x ! i"
  shows "sound b (sess_seq x)" and "guard_reply_no g \<in># reserved (sess_seq x)"
    and "unlock_ok b (is_holding_lock g) (sess_seq x)" and "unlock_ok b False (sess_seq x)"
    and "arr_get (sess_guards x) i = Some g"
    and "kept_lock (consume_lock g) = (if is_holding_lock g then 1 else 0)"
  using assms(1) live_guard [OF _ assms(2)] guard_unlock_ok [OF _ assms(2), of b]
    arr_get_Some [OF assms(2)]
  by (simp_all add: g_def sess_inv_def kept_lock_def consume_lock_def)

lemma used_guard:
  assumes "sess_inv b x" and "i < length (sess_guards x)"
  defines "g \<equiv> sess_guards x ! i"
  assumes "sound b s'" and "reserved s' = reserved (sess_seq x) - {#guard_reply_no g#}"
  shows "is_locked s' = (is_locked (sess_seq x) \<and> \<not> is_holding_lock g) \<Longrightarrow>
      sess_inv b (x\<lparr>sess_seq := s', sess_guards := remove_at i (sess_guards x)\<rparr>)"
    and "is_locked s' = is_locked (sess_seq x) \<Longrightarrow>
      sess_inv b (x\<lparr>sess_seq := s', sess_guards := remove_at i (sess_guards x),
        seq_cst_guards := seq_cst_guards x + kept_lock (consume_lock g)\<rparr>)"
proof -
  note used = guards_ok_used [OF _ assms(2), of s', folded g_def, OF _ assms(5)]
  from assms(1) have ok: "guards_ok x" by (simp add: sess_inv_def)
  show "is_locked s' = (is_locked (sess_seq x) \<and> \<not> is_holding_lock g) \<Longrightarrow>
      sess_inv b (x\<lparr>sess_seq := s', sess_guards := remove_at i (sess_guards x)\<rparr>)"
    using used [OF ok, of 0] assms(4) by (simp add: sess_inv_def)
  show "is_locked s' = is_locked (sess_seq x) \<Longrightarrow>
      sess_inv b (x\<lparr>sess_seq := s', sess_guards := remove_at i (sess_guards x),
        seq_cst_guards := seq_cst_guards x + kept_lock (consume_lock g)\<rparr>)"
    using used [OF ok, of "kept_lock (consume_lock g)"] assms(4)
    by (simp add: sess_inv_def kept_lock_def consume_lock_def)
qed

lemma api_ack:
  assumes "sess_inv b x" and "i < length (sess_guards x)"
  defines "g \<equiv> sess_guards x ! i"
  shows "\<exists>x'. api_step b (ApiDrop i) x = Some ([Ack (guard_reply_no g)], x') \<and> sess_inv b x'"
    and "\<exists>x'. api_step b (ApiAck i) x = Some ([Ack (guard_reply_no g)], x') \<and> sess_inv b x'"
proof -
  let ?s = "sess_seq x"
  note facts = guard_facts [OF assms(1,2), folded g_def]
  note used = used_guard [OF assms(1,2), folded g_def]
  obtain s1 where "ack_raw b (guard_reply_no g) (is_holding_lock g) ?s
      = Some (True, [Ack (guard_reply_no g)], s1)" and "sound b s1"
    "reserved s1 = reserved ?s - {#guard_reply_no g#}"
    "is_locked s1 = (is_locked ?s \<and> \<not> is_holding_lock g)"
    using redeem_views(1) [OF facts(1-3)] by blast
  with used(1) [of s1] facts(5)
  show "\<exists>x'. api_step b (ApiDrop i) x = Some ([Ack (guard_reply_no g)], x') \<and> sess_inv b x'"
    by (simp add: guard_drop_def)
  obtain s2 where "ack_raw b (guard_reply_no g) False ?s
      = Some (True, [Ack (guard_reply_no g)], s2)" and "sound b s2"
    "reserved s2 = reserved ?s - {#guard_reply_no g#}" "is_locked s2 = is_locked ?s"
    using redeem_views(1) [OF facts(1,2,4)] by auto
  with used(2) [of s2] facts(5)
  show "\<exists>x'. api_step b (ApiAck i) x = Some ([Ack (guard_reply_no g)], x') \<and> sess_inv b x'"
    by (simp add: guard_ack_def)
qed

lemma api_reply:
  assumes "sess_inv b x" and "i < length (sess_guards x)" and "time_ok b t (sess_seq x)"
  defines "g \<equiv> sess_guards x ! i"
  shows "\<exists>p x'. api_step b (ApiReply i t c f) x = Some ([p], x')
      \<and> reply_part p = Some (guard_reply_no g) \<and> sess_inv b x'"
    and "\<exists>p x'. api_step b (ApiReplyStay i t c f) x = Some ([p], x')
      \<and> reply_part p = Some (guard_reply_no g) \<and> sess_inv b x'"
proof -
  let ?s = "sess_seq x"
  note facts = guard_facts [OF assms(1,2), folded g_def]
  note used = used_guard [OF assms(1,2), folded g_def]
  let ?d = "f (seq_no_of ?s) (guard_reply_no g)"
  obtain s3 p where "reply_raw b t (guard_reply_no g) (is_holding_lock g) c ?d ?s = Some (True, [p], s3)"
    and "reply_part p = Some (guard_reply_no g)" "sound b s3" "reserved s3 = reserved ?s - {#guard_reply_no g#}"
    "is_locked s3 = (is_locked ?s \<and> \<not> is_holding_lock g)"
    using redeem_views(2) [OF facts(1-3) assms(3)] by blast
  with used(1) [of s3] facts(5)
  show "\<exists>p x'. api_step b (ApiReply i t c f) x = Some ([p], x')
      \<and> reply_part p = Some (guard_reply_no g) \<and> sess_inv b x'"
    by (simp add: guard_reply_with_def Let_def)
  obtain s4 p4 where "reply_raw b t (guard_reply_no g) False c ?d ?s = Some (True, [p4], s4)"
    and "reply_part p4 = Some (guard_reply_no g)" "sound b s4" "reserved s4 = reserved ?s - {#guard_reply_no g#}" "is_locked s4 = is_locked ?s"
    using redeem_views(2) [OF facts(1,2,4) assms(3)] by (metis (full_types))
  with used(2) [of s4] facts(5)
  show "\<exists>p x'. api_step b (ApiReplyStay i t c f) x = Some ([p], x')
      \<and> reply_part p = Some (guard_reply_no g) \<and> sess_inv b x'"
    by (simp add: guard_reply_with_stay_locked_def Let_def)
qed

lemma api_unlock:
  assumes "sess_inv b x" and "i < length (sess_guards x)"
  shows "\<exists>x'. api_step b (ApiUnlock i) x = Some ([], x') \<and> sess_inv b x'"
proof (cases "is_holding_lock (sess_guards x ! i)")
  case True
  let ?g = "sess_guards x ! i"
  let ?x = "x\<lparr>sess_seq := unlock_raw (sess_seq x),
    sess_guards := (sess_guards x)[i := ?g\<lparr>is_holding_lock := False\<rparr>]\<rparr>"
  note facts = guard_facts [OF assms]
  have "map guard_reply_no ((sess_guards x)[i := ?g\<lparr>is_holding_lock := False\<rparr>])
      = map guard_reply_no (sess_guards x)"
    using assms(2) by (simp add: map_update list_update_same_conv)
  then have "mset (map guard_reply_no (sess_guards ?x)) = reserved (sess_seq ?x)"
    using assms(1) by (simp add: sess_inv_def guards_ok_def del: mset_map)
  moreover have "holders ?x + 1 = holders x"
    using update_count [OF assms(2), of is_holding_lock "?g\<lparr>is_holding_lock := False\<rparr>"] True
    by (simp add: holders_def)
  then have "holders ?x = 0"
    using assms(1) by (simp add: sess_inv_def guards_ok_def split: if_splits)
  ultimately have "sess_inv b ?x"
    using unlock_raw_sound [OF facts(1)] by (simp add: sess_inv_def guards_ok_def)
  then show ?thesis using True facts(5) by (simp add: guard_unlock_def)
next
  case False
  then show ?thesis using assms(1) guard_facts(5) [OF assms] by (simp add: guard_unlock_def)
qed

lemma api_drop_seq_cst:
  assumes "sess_inv b x" and "0 < seq_cst_guards x"
  shows "\<exists>x'. api_step b ApiDropSeqCst x = Some ([], x') \<and> sess_inv b x'"
proof -
  let ?x = "x\<lparr>sess_seq := unlock_raw (sess_seq x), seq_cst_guards := seq_cst_guards x - 1\<rparr>"
  from assms have "sound b (sess_seq x)" and "guards_ok x" by (simp_all add: sess_inv_def)
  then have "sess_inv b ?x"
    using assms(2) unlock_raw_sound [of b "sess_seq x"]
    by (auto simp: sess_inv_def guards_ok_def holders_def split: if_splits)
  then show ?thesis using assms(2) by (simp add: seq_cst_guard_drop_def)
qed

lemma api_send:
  assumes "sess_inv b x" and "time_ok b t (sess_seq x)"
  shows "\<exists>ps x'. api_step b (ApiSend t c d) x = Some (ps, x') \<and> sess_inv b x'"
proof -
  from assms(1) have sound: "sound b (sess_seq x)" by (simp add: sess_inv_def)
  obtain out s' where step: "exec b (TrySend t c d) (sess_seq x) = Some (out, s')" and s': "sound b s'"
    by (rule sound_exec [OF sound, of "TrySend t c d"]) (use assms(2) in auto)
  from step obtain r where run: "try_send_direct b t c d (sess_seq x) = Some (r, s')"
    by (auto simp: bind_eq_Some_conv split: prod.splits)
  from send_gains [OF sound_core [OF sound] step] have "gains [] (sess_seq x) s'" by blast
  from sess_inv_send [OF assms(1) s' this] run show ?thesis
    by (cases r) (simp_all add: try_send_def)
qed

lemma service_sound:
  assumes "sound b s" and "service_ok b t s"
  shows "\<exists>left ps s'. service b t s = Some (left, ps, s') \<and> sound b s' \<and> gains [] s s'"
proof -
  have time: "time_ok b t s" using assms(2) by (simp add: service_ok_def)
  obtain out s' where step: "exec b (ServiceAll t) s = Some (out, s')" and s': "sound b s'"
    by (rule sound_exec [OF assms(1), of "ServiceAll t"]) (use time in auto)
  from step obtain ps where run: "service_loop b t None s = Some (ps, s')"
    by (auto simp: bind_eq_Some_conv split: prod.splits)
  have "i64_sub b (next_service_timestamp s') t = Some (next_service_timestamp s' - t)"
    using service_time_left [OF sound_core [OF assms(1)] assms(2) _ run] by (cases b) simp_all
  moreover have "gains [] s s'" using send_gains [OF sound_core [OF assms(1)] step] by blast
  ultimately show ?thesis using run s' by (simp add: service_def)
qed

lemma api_service:
  assumes "sess_inv b x" and "service_ok b t (sess_seq x)"
  shows "\<exists>ps x'. api_step b (ApiService t) x = Some (ps, x') \<and> sess_inv b x'"
proof -
  from assms(1) have "sound b (sess_seq x)" by (simp add: sess_inv_def)
  with service_sound [OF _ assms(2)] sess_inv_send [OF assms(1)] show ?thesis by fastforce
qed

lemma api_service_direct:
  assumes "sess_inv b x" and "time_ok b t (sess_seq x)"
  shows "\<exists>ps x'. api_step b (ApiServiceDirect t) x = Some (ps, x') \<and> sess_inv b x'"
proof -
  from assms have sound: "sound b (sess_seq x)" by (simp add: sess_inv_def)
  obtain out s' where step: "exec b (ServiceAll t) (sess_seq x) = Some (out, s')" and s': "sound b s'"
    by (rule sound_exec [OF sound, of "ServiceAll t"]) (use assms(2) in auto)
  from step obtain ps where run: "service_loop b t None (sess_seq x) = Some (ps, s')"
    by (auto simp: bind_eq_Some_conv split: prod.splits)
  from send_gains [OF sound_core [OF sound] step] have "gains [] (sess_seq x) s'" by blast
  from sess_inv_send [OF assms(1) s' this] run show ?thesis by simp
qed

lemma api_keeps:
  assumes "sess_inv b x" and "api_ok b c x"
  shows "\<exists>ps x'. api_step b c x = Some (ps, x') \<and> sess_inv b x'"
proof (cases c)
  case (ApiSend t q d)
  with assms(2) api_send [OF assms(1), of t q d] show ?thesis
    by (auto simp del: api_step.simps)
next
  case (ApiReceive p)
  with assms(2) api_receive [OF assms(1), of p] show ?thesis
    by (auto simp del: api_step.simps)
next
  case ApiPump
  with assms(2) api_pump [OF assms(1)] show ?thesis
    by (auto simp del: api_step.simps)
next
  case (ApiReply i t q f)
  with assms(2) api_reply(1) [OF assms(1), of i t q f] show ?thesis
    by (auto simp del: api_step.simps)
next
  case (ApiReplyStay i t q f)
  with assms(2) api_reply(2) [OF assms(1), of i t q f] show ?thesis
    by (auto simp del: api_step.simps)
next
  case (ApiAck i)
  with assms(2) api_ack(2) [OF assms(1), of i] show ?thesis
    by (auto simp del: api_step.simps)
next
  case (ApiUnlock i)
  with assms(2) api_unlock [OF assms(1), of i] show ?thesis
    by (auto simp del: api_step.simps)
next
  case (ApiDrop i)
  with assms(2) api_ack(1) [OF assms(1), of i] show ?thesis
    by (auto simp del: api_step.simps)
next
  case ApiDropSeqCst
  with assms(2) api_drop_seq_cst [OF assms(1)] show ?thesis
    by (auto simp del: api_step.simps)
next
  case (ApiService t)
  with assms(2) api_service [OF assms(1), of t] show ?thesis
    by (auto simp del: api_step.simps)
next
  case (ApiServiceDirect t)
  with assms(2) api_service_direct [OF assms(1), of t] show ?thesis
    by (auto simp del: api_step.simps)
qed

interpretation safe_api: call_machine "api_step b" "sess_inv b" "api_ok b" for b
  by unfold_locales (rule api_keeps)

section \<open>Properties\<close>

definition new_session :: "('s, 'r) seqex \<Rightarrow> ('s, 'r) session" where
  "new_session s = \<lparr> sess_seq = s, sess_guards = [], seq_cst_guards = 0 \<rparr>"

lemma new_sess_inv:
  assumes "window_ring cap" and "new_seqex b' cap iv n = Some s"
  shows "sess_inv b (new_session s)"
proof -
  have cap: "0 < cap" using assms(1) by (rule window_ring.cap_pos)
  have "is_locked s = False" by (rule new_seqex_views(4) [OF cap assms(2)])
  then show ?thesis
    using new_seqex_wf [OF assms] new_seqex_timer [OF cap assms(2)] new_seqex_views(2) [OF cap assms(2)]
    by (simp add: sess_inv_def sound_def guards_ok_def holders_def new_session_def)
qed

text \<open>
  C23. Guards make the API safe. In a session that uses the instance only through guards that exist,
  and, in a debug build, with times that do not overflow and data packets whose reply numbers name the
  entry in their slot when they are handed over, no call panics, in either build: the code's check against unlocking twice never fails. After any
  sequence of calls the live guards are exactly the issued reply numbers, at most one guard holds
  the SeqCst lock, and one does exactly while the instance is locked.
\<close>

theorem guarded_sessions_never_panic:
  assumes "window_ring cap" and "new_seqex b cap iv n = Some s"
    and "permitted (api_step b) (api_ok b) cs (new_session s)"
  shows "\<exists>outs x. run (api_step b) cs (new_session s) = Some (outs, x) \<and> length outs = length cs
    \<and> mset (map guard_reply_no (sess_guards x)) = reserved (sess_seq x)
    \<and> holders x = (if is_locked (sess_seq x) then 1 else 0)"
proof -
  obtain outs x where "run (api_step b) cs (new_session s) = Some (outs, x)"
    and "length outs = length cs" and "sess_inv b x"
    using safe_api.run_ok [OF new_sess_inv [OF assms(1,2)] assms(3)] by blast
  then show ?thesis by (auto simp: sess_inv_def guards_ok_def)
qed

definition guarded_calls :: "(nat, nat) api_call list" where
  "guarded_calls = [ApiReceive (SeqCstPayload 0 4), ApiReceive (Payload 1 5), ApiAck 0,
     ApiReply 0 10 False (\<lambda>n r. 7), ApiReceive (SeqCstPayload 2 6), ApiDropSeqCst, ApiPump,
     ApiUnlock 0, ApiDrop 0, ApiService 300]"

theorem guarded_sessions_never_panic_witness:
  "\<exists>outs x. run (api_step Debug) guarded_calls (new_session (fresh 8)) = Some (outs, x)
    \<and> length outs = 10 \<and> holders x = (if is_locked (sess_seq x) then 1 else 0)"
proof -
  have "permitted (api_step Debug) (api_ok Debug) guarded_calls (new_session (fresh 8))"
    by code_simp
  from guarded_sessions_never_panic [OF small_rings(2) fresh_new_small(2) this]
  obtain outs x where "run (api_step Debug) guarded_calls (new_session (fresh 8)) = Some (outs, x)"
    and "length outs = length guarded_calls" and "holders x = (if is_locked (sess_seq x) then 1 else 0)"
    by blast
  moreover have "length guarded_calls = 10" by (simp add: guarded_calls_def)
  ultimately show ?thesis by metis
qed

text \<open>
  C24. Every guard answers exactly once. Whenever a live guard is used, one packet goes on the
  wire: the acknowledgement of the packet the guard stands for when it is dropped or acknowledged,
  a reply to it when it is replied to; no answer is ever refused.
\<close>

theorem guards_always_answer:
  assumes "sess_inv b x" and "i < length (sess_guards x)" and "time_ok b t (sess_seq x)"
  defines "r \<equiv> guard_reply_no (sess_guards x ! i)"
  shows "(\<exists>x'. api_step b (ApiDrop i) x = Some ([Ack r], x') \<and> sess_inv b x')
    \<and> (\<exists>x'. api_step b (ApiAck i) x = Some ([Ack r], x') \<and> sess_inv b x')
    \<and> (\<exists>p x'. api_step b (ApiReply i t c f) x = Some ([p], x') \<and> reply_part p = Some r \<and> sess_inv b x')
    \<and> (\<exists>p x'. api_step b (ApiReplyStay i t c f) x = Some ([p], x')
          \<and> reply_part p = Some r \<and> sess_inv b x')"
  unfolding r_def
  using api_ack [OF assms(1,2)] api_reply [OF assms(1-3), of c f] by blast

theorem guards_always_answer_witness:
  "\<exists>x x' p. map_option snd (api_step Debug (ApiReceive (SeqCstPayload 0 4)) (new_session (fresh 8))) = Some x
    \<and> api_step Debug (ApiReply 0 10 False (\<lambda>n r. 7)) x = Some ([p], x') \<and> reply_part p = Some 0"
proof -
  have inv: "sess_inv Debug (new_session (fresh 8))"
    by (rule new_sess_inv [OF small_rings(2) fresh_new_small(2) [where b = Debug]])
  have "api_ok Debug (ApiReceive (SeqCstPayload 0 4)) (new_session (fresh 8))" by code_simp
  from api_keeps [OF inv this] obtain ps x where
    step: "api_step Debug (ApiReceive (SeqCstPayload 0 4)) (new_session (fresh 8)) = Some (ps, x)"
    and x: "sess_inv Debug x" by blast
  have "map_option (\<lambda>(ps, x). map guard_reply_no (sess_guards x))
      (api_step Debug (ApiReceive (SeqCstPayload 0 4)) (new_session (fresh 8))) = Some [0]"
    by code_simp
  with step have guards: "map guard_reply_no (sess_guards x) = [0]" by (simp del: api_step.simps)
  have "map_option (\<lambda>(ps, x). time_ok Debug 10 (sess_seq x))
      (api_step Debug (ApiReceive (SeqCstPayload 0 4)) (new_session (fresh 8))) = Some True"
    by code_simp
  with step have time: "time_ok Debug 10 (sess_seq x)" by (simp del: api_step.simps)
  from guards have len: "0 < length (sess_guards x)" and no: "guard_reply_no (sess_guards x ! 0) = 0"
    by (cases "sess_guards x"; simp)+
  from guards_always_answer [OF x len time, of False "\<lambda>n r. 7"] step no show ?thesis
    by (auto simp del: api_step.simps)
qed

text \<open>The acknowledgement a low-level receive asks for.\<close>

fun resends :: "try_raw_recv_error + 'a \<Rightarrow> seq_no list" where
  "resends (Inl (RawDroppedDuplicateResendAck n)) = [n]"
| "resends (Inl RawDroppedTooEarly) = []"
| "resends (Inl RawDroppedDuplicate) = []"
| "resends (Inl RawWaitingForRecv) = []"
| "resends (Inl RawWaitingForReply) = []"
| "resends (Inr _) = []"

lemma resends_wait [simp]: "resends (Inl (wait_error s c n ro)) = []"
  by (simp add: wait_error_def split: try_error.split)

lemma receive_resends:
  assumes "core_inv s"
  obtains q s' where "receive_data b into c n ro d s = Some (q, s')"
    and "resends q = (if below_window s n \<and> \<not> reply_pending s n then [n] else [])"
proof -
  note shape = core_parts(1) [OF assms]
  consider "below_window s n" | "\<not> below_window s n" "\<not> in_window s n"
    | "in_window s n" "\<not> deliverable s c n ro" | "in_window s n" "deliverable s c n ro"
    by blast
  then show thesis
  proof cases
    case 1
    from that [OF receive_below [OF assms 1]] 1 show thesis by simp
  next
    case 2
    from that [OF receive_above [OF shape 2]] 2 show thesis by simp
  next
    case 3
    then show thesis
      using that receive_wait_views [OF assms 3, of b into d] window_ranges(3) [OF shape] by auto
  next
    case 4
    then show thesis
      using that receive_hand_views [OF assms 4, of b into d] window_ranges(3) [OF shape] by auto
  qed
qed

text \<open>
  C25. \<^verbatim>\<open>try_receive_raw\<close> resends an acknowledgement exactly for the duplicates
  that need one: those below the window with no reply pending. For any other packet it sends
  nothing, and the errors it returns are those of the low-level receive.
\<close>

theorem resend_ack_iff_settled_duplicate:
  assumes "core_inv s"
  shows "\<exists>r s'. try_receive_raw b into p s = Some (r, (case seq_part p of
        Some n \<Rightarrow> if below_window s n \<and> \<not> reply_pending s n then [Ack n] else []
      | None \<Rightarrow> []), s')
    \<and> (\<exists>q. try_receive_raw_and_direct b into p s = Some (q, s')
        \<and> r = (case q of Inl e \<Rightarrow> Inl (recv_error_from e) | Inr a \<Rightarrow> Inr a))"
proof (cases "seq_part p")
  case None
  then obtain m where "p = Ack m" by (cases p) simp_all
  then show ?thesis
    by (simp add: try_receive_raw_def receive_ack_eq [OF core_parts(1) [OF assms]]
        split: option.split)
next
  case (Some n)
  obtain q s' where "receive_data b into (is_seq_cst p) n (reply_part p) (the (payload p)) s = Some (q, s')"
    and "resends q = (if below_window s n \<and> \<not> reply_pending s n then [n] else [])"
    by (rule receive_resends [OF assms])
  then show ?thesis
    using Some by (cases q rule: resends.cases) (auto simp: try_receive_raw_def receive_eq split: if_splits)
qed

theorem resend_ack_iff_settled_duplicate_witness:
  "\<exists>r s'. try_receive_raw Debug (\<lambda>d. d) (Payload 4294967295 5) (fresh 8) = Some (r, [Ack 4294967295], s')"
proof -
  have "below_window (fresh 8) 4294967295" "\<not> reply_pending (fresh 8) 4294967295"
    by (simp_all add: below_window_def reply_pending_def fresh_def new_seqex_Some reserved_def
        entries_def)
  then show ?thesis
    using resend_ack_iff_settled_duplicate [OF seq_inv_core [OF fresh_inv(2)], of Debug "\<lambda>d. d" "Payload 4294967295 5"]
    by auto
qed

text \<open>
  \<^verbatim>\<open>service\<close> panics before the epoch. On an idle instance, whose
  timestamp is the largest one, a debug build overflows when the clock is negative; a release
  build wraps and asks to be called again at once, or in the past. The trait allows any clock.
\<close>

theorem service_needs_nonnegative_clock:
  assumes "next_service_timestamp s = i64_max" and "sint t < 0"
  shows "service Debug t s = None
    \<and> service Release t s = Some (i64_min_of (resend_interval s) (i64_max - t), [], s)
    \<and> sint (i64_max - t) < 0"
proof -
  have "service_loop b t None s = Some ([], s)" for b
    using assms by (intro service_loop_early) (simp add: i64_max_def)
  moreover have "\<not> i64_in_range (sint i64_max - sint t)"
    using assms(2) by (simp add: i64_in_range_def i64_max_def)
  moreover have "sint (i64_max - t) < 0"
  proof -
    have "sint (i64_max - t) = (sint i64_max - sint t + 2 ^ 63) mod 2 ^ 64 - 2 ^ 63"
      by (simp add: sint_word_ariths signed_take_bit_eq_take_bit_shift take_bit_eq_mod)
    also have "\<dots> = (sint i64_max - sint t + 2 ^ 63 - 2 ^ 64) mod 2 ^ 64 - 2 ^ 63"
      by (simp only: mod_diff_right_eq [of _ "2 ^ 64 :: int", symmetric] mod_self diff_zero)
    also have "\<dots> < 0"
      using assms(2) sint_i64(1) [of t] by (simp add: i64_max_def)
    finally show ?thesis .
  qed
  ultimately show ?thesis
    using assms(1) by (simp add: service_def i64_sub_def)
qed

theorem service_needs_nonnegative_clock_witness:
  "service Debug (- 1) (fresh 8) = None"
proof -
  have "next_service_timestamp (fresh 8) = i64_max" by (simp add: fresh_def new_seqex_Some)
  moreover have "sint (- 1 :: i64) < 0" by simp
  ultimately show ?thesis using service_needs_nonnegative_clock by blast
qed

text \<open>
  \<^verbatim>\<open>consume\<close> and \<^verbatim>\<open>new\<close> are inverse to each other: taking a
  received value apart loses nothing, and \<^verbatim>\<open>new\<close> refuses only the empty parts.
\<close>

theorem recv_new_consume:
  "recv_new g e = Some r \<longleftrightarrow> recv_consume r = (g, e)"
  by (cases r; cases "(g, e)" rule: recv_new.cases) auto

end
