(* ===== verification/Sync.thy ===== *)
theory Sync
  imports Guards
begin

text \<open>
  The thread-safe API (\<^verbatim>\<open>src/sync.rs\<close>), one definition per method: the
  state behind the mutex, the wake-ups a method sends to the two condition variables, the reply
  guards, and the blocking methods as the code between two waits. How threads interleave is in the
  next theory.

  A method that holds the mutex from its first line to its last is one function on the state. It
  returns its result, the packets passed to \<^verbatim>\<open>tl.send\<close> and the notifications
  it makes, with the state.
\<close>

section \<open>State and errors\<close>

record ('s, 'r) inner =
  inner_seq :: "('s, 'r) seqex"
  recv_waiters :: nat
  reply_sender_waiters :: bool
  reply_receiver_waiters :: bool
  closed :: bool

datatype sync_recv_error = SyncWaitingForReply | SyncOutOfSequence | SyncClosed

datatype recv_error = RecvOutOfSequence | RecvClosed

datatype try_send_error = SendWaitingForRecv | SendWaitingForReply | SendClosed

datatype closed_error = ClosedError

fun sync_recv_error_from :: "recv_error \<Rightarrow> sync_recv_error" where
  "sync_recv_error_from RecvOutOfSequence = SyncOutOfSequence"
| "sync_recv_error_from RecvClosed = SyncClosed"

fun send_error_from :: "try_error \<Rightarrow> try_send_error" where
  "send_error_from WaitingForRecv = SendWaitingForRecv"
| "send_error_from WaitingForReply = SendWaitingForReply"

fun display_sync_recv_error :: "sync_recv_error \<Rightarrow> string" where
  "display_sync_recv_error SyncOutOfSequence = ''packet arrived but cannot yet be processed''"
| "display_sync_recv_error SyncWaitingForReply =
     ''can't process packet until a reply is finished''"
| "display_sync_recv_error SyncClosed =
     ''can't receive packet because the session was explicitly closed''"

definition display_recv_error :: "recv_error \<Rightarrow> string" where
  "display_recv_error e = display_sync_recv_error (sync_recv_error_from e)"

fun display_try_send_error :: "try_send_error \<Rightarrow> string" where
  "display_try_send_error SendWaitingForRecv = ''can't send until another packet is received''"
| "display_try_send_error SendWaitingForReply = ''can't send until a reply is finished''"
| "display_try_send_error SendClosed = ''can't send because the session was explicitly closed''"

definition display_closed_error :: "closed_error \<Rightarrow> string" where
  "display_closed_error e = ''can't send because the session was explicitly closed''"

definition sync_new :: "build \<Rightarrow> nat \<Rightarrow> i64 \<Rightarrow> seq_no \<Rightarrow> ('s, 'r) inner option" where
  "sync_new b cap retry_interval initial_seq_no = do {
     s \<leftarrow> new_seqex b cap retry_interval initial_seq_no;
     Some \<lparr> inner_seq = s, recv_waiters = 0, reply_sender_waiters = False,
            reply_receiver_waiters = False, closed = False \<rparr>
   }"

definition sync_default :: "build \<Rightarrow> nat \<Rightarrow> ('s, 'r) inner option" where
  "sync_default b cap = sync_new b cap DEFAULT_RESEND_INTERVAL_MS DEFAULT_INITIAL_SEQ_NO"

section \<open>Notifications\<close>

text \<open>
  \<^verbatim>\<open>notify_all\<close> on \<^verbatim>\<open>wait_on_reply\<close> and
  \<^verbatim>\<open>notify_one\<close> on \<^verbatim>\<open>wait_on_recv\<close>.
\<close>

datatype wake = NotifyAllReply | NotifyOneRecv

definition notify_reply :: "('s, 'r) inner \<Rightarrow> wake list \<times> ('s, 'r) inner" where
  "notify_reply x =
     (if reply_sender_waiters x \<or> reply_receiver_waiters x
      then ([NotifyAllReply], x\<lparr>reply_sender_waiters := False\<rparr>)
      else ([], x))"

definition notify_recv :: "('s, 'r) inner \<Rightarrow> wake list \<times> ('s, 'r) inner" where
  "notify_recv x = (if 0 < recv_waiters x then ([NotifyOneRecv], x) else ([], x))"

section \<open>Receiving and pumping\<close>

definition sync_try_receive ::
  "build \<Rightarrow> 'r packet \<Rightarrow> ('s, 'r) inner \<Rightarrow>
   ((sync_recv_error + (('s, 'r) recv_ok \<times> bool)) \<times> 's packet list \<times> wake list
     \<times> ('s, 'r) inner) option" where
  "sync_try_receive b packet x =
     (if closed x then Some (Inl SyncClosed, [], [], x)
      else do {
        (res, ps, s) \<leftarrow> try_receive_raw b (\<lambda>d. d) packet (inner_seq x);
        let x = x\<lparr>inner_seq := s\<rparr>;
        case res of
          Inr (r, do_pump) \<Rightarrow>
            (let (ws, x) = notify_recv x in Some (Inr (recv_from_raw r, do_pump), ps, ws, x))
        | Inl e \<Rightarrow>
            Some (Inl (case e of
                         RecvWaitingForReply \<Rightarrow> SyncWaitingForReply
                       | _ \<Rightarrow> SyncOutOfSequence), ps, [], x)
      })"

definition sync_try_pump ::
  "build \<Rightarrow> ('s, 'r) inner \<Rightarrow>
   ((try_error + (('s, 'r) recv_ok \<times> bool)) \<times> wake list \<times> ('s, 'r) inner) option" where
  "sync_try_pump b x = do {
     (res, s) \<leftarrow> try_pump_raw b (inner_seq x);
     let x = x\<lparr>inner_seq := s\<rparr>;
     case res of
       Inr (r, do_pump) \<Rightarrow>
         (let (ws, x) = notify_recv x in Some (Inr (recv_from_raw r, do_pump), ws, x))
     | Inl e \<Rightarrow> Some (Inl e, [], x)
   }"

text \<open>
  A blocking method runs until it returns or waits on a condition variable; on its wake-up it goes
  on with the state it finds.
\<close>

datatype 'a outcome = Return 'a | WaitRecv | WaitReply

text \<open>One iteration of the loop of \<^verbatim>\<open>pump\<close>.\<close>

definition pump_loop ::
  "build \<Rightarrow> ('s, 'r) inner \<Rightarrow>
   ((('s, 'r) recv_ok \<times> bool) option outcome \<times> wake list \<times> ('s, 'r) inner) option" where
  "pump_loop b x = do {
     (res, s) \<leftarrow> try_pump_raw b (inner_seq x);
     let x = x\<lparr>inner_seq := s\<rparr>;
     case res of
       Inr (r, do_pump) \<Rightarrow>
         (let (ws, x) = notify_recv x in Some (Return (Some (recv_from_raw r, do_pump)), ws, x))
     | Inl WaitingForRecv \<Rightarrow> Some (Return None, [], x)
     | Inl WaitingForReply \<Rightarrow> Some (WaitReply, [], x\<lparr>reply_receiver_waiters := True\<rparr>)
   }"

definition sync_pump ::
  "build \<Rightarrow> ('s, 'r) inner \<Rightarrow>
   ((('s, 'r) recv_ok \<times> bool) option outcome \<times> wake list \<times> ('s, 'r) inner) option" where
  "sync_pump b x =
     (if reply_receiver_waiters x then Some (Return None, [], x) else pump_loop b x)"

definition sync_pump_woken ::
  "build \<Rightarrow> ('s, 'r) inner \<Rightarrow>
   ((('s, 'r) recv_ok \<times> bool) option outcome \<times> wake list \<times> ('s, 'r) inner) option" where
  "sync_pump_woken b x = pump_loop b (x\<lparr>reply_receiver_waiters := False\<rparr>)"

text \<open>
  \<^verbatim>\<open>receive\<close> calls \<^verbatim>\<open>try_receive\<close> and goes on
  with \<^verbatim>\<open>pump\<close> when the packet waits for a reply; the mutex is free between
  the two. \<open>None\<close>: go on with a pump.
\<close>

fun receive_match :: "sync_recv_error + 'a \<Rightarrow> (recv_error + 'a) option" where
  "receive_match (Inr a) = Some (Inr a)"
| "receive_match (Inl SyncWaitingForReply) = None"
| "receive_match (Inl SyncOutOfSequence) = Some (Inl RecvOutOfSequence)"
| "receive_match (Inl SyncClosed) = Some (Inl RecvClosed)"

definition recv_of_pump :: "'a option \<Rightarrow> recv_error + 'a" where
  "recv_of_pump r = (case r of Some a \<Rightarrow> Inr a | None \<Rightarrow> Inl RecvOutOfSequence)"

section \<open>Iterators over received packets\<close>

text \<open>
  \<open>iter_live\<close> is whether \<^verbatim>\<open>seq\<close> is \<^verbatim>\<open>Some\<close>.
\<close>

record ('s, 'r) recv_iter =
  iter_live :: bool
  iter_first :: "('s, 'r) recv_ok option"
  iter_blocking :: bool

definition recv_iter_new ::
  "bool \<Rightarrow> 'e + (('s, 'r) recv_ok \<times> bool) \<Rightarrow> ('s, 'r) recv_iter" where
  "recv_iter_new blocking ret =
     (case ret of
        Inr (r, do_pump) \<Rightarrow>
          \<lparr> iter_live = do_pump, iter_first = Some r, iter_blocking = blocking \<rparr>
      | Inl _ \<Rightarrow> \<lparr> iter_live = False, iter_first = None, iter_blocking = blocking \<rparr>)"

definition sync_receive_all ::
  "recv_error + (('s, 'r) recv_ok \<times> bool) \<Rightarrow> ('s, 'r) recv_iter" where
  "sync_receive_all ret = recv_iter_new True ret"

definition sync_try_receive_all ::
  "build \<Rightarrow> 'r packet \<Rightarrow> ('s, 'r) inner \<Rightarrow>
   (('s, 'r) recv_iter \<times> 's packet list \<times> wake list \<times> ('s, 'r) inner) option" where
  "sync_try_receive_all b packet x = do {
     (ret, ps, ws, x) \<leftarrow> sync_try_receive b packet x;
     Some (recv_iter_new False ret, ps, ws, x)
   }"

text \<open>What the iterator does with the answer of the pump.\<close>

definition recv_iter_pumped ::
  "(('s, 'r) recv_ok \<times> bool) option \<Rightarrow> ('s, 'r) recv_iter \<Rightarrow>
   ('s, 'r) recv_ok option \<times> ('s, 'r) recv_iter" where
  "recv_iter_pumped ret it =
     (case ret of
        Some (item, do_pump) \<Rightarrow> (Some item, if do_pump then it else it\<lparr>iter_live := False\<rparr>)
      | None \<Rightarrow> (None, it))"

definition recv_iter_next ::
  "build \<Rightarrow> ('s, 'r) recv_iter \<Rightarrow> ('s, 'r) inner \<Rightarrow>
   ((('s, 'r) recv_ok option \<times> ('s, 'r) recv_iter) outcome \<times> wake list \<times> ('s, 'r) inner) option" where
  "recv_iter_next b it x =
     (case iter_first it of
        Some item \<Rightarrow> Some (Return (Some item, it\<lparr>iter_first := None\<rparr>), [], x)
      | None \<Rightarrow>
          if \<not> iter_live it then Some (Return (None, it), [], x)
          else if iter_blocking it then do {
            (ret, ws, x) \<leftarrow> sync_pump b x;
            Some (case ret of
                    Return r \<Rightarrow> Return (recv_iter_pumped r it)
                  | WaitRecv \<Rightarrow> WaitRecv
                  | WaitReply \<Rightarrow> WaitReply, ws, x)
          }
          else do {
            (ret, ws, x) \<leftarrow> sync_try_pump b x;
            Some (Return (recv_iter_pumped (case ret of Inr a \<Rightarrow> Some a | Inl _ \<Rightarrow> None) it), ws, x)
          })"

section \<open>Sending\<close>

text \<open>The timestamp that \<^verbatim>\<open>service_scheduled\<close> is due at, if it went down.\<close>

definition lowered :: "i64 \<Rightarrow> i64 \<Rightarrow> i64 option" where
  "lowered pre_nst nst = (if sint nst < sint pre_nst then Some nst else None)"

definition sync_try_send_with ::
  "build \<Rightarrow> i64 \<Rightarrow> bool \<Rightarrow> (seq_no \<Rightarrow> 's) \<Rightarrow> ('s, 'r) inner \<Rightarrow>
   (((try_send_error \<times> (seq_no \<Rightarrow> 's)) + i64 option) \<times> 's packet list \<times> ('s, 'r) inner) option" where
  "sync_try_send_with b time seq_cst f x =
     (if closed x then Some (Inl (SendClosed, f), [], x)
      else do {
        let pre_nst = next_service_timestamp (inner_seq x);
        (res, ps, s) \<leftarrow> try_send_with b time seq_cst f (inner_seq x);
        Some (case res of
                Inr () \<Rightarrow> Inr (lowered pre_nst (next_service_timestamp s))
              | Inl (e, f) \<Rightarrow> Inl (send_error_from e, f), ps, x\<lparr>inner_seq := s\<rparr>)
      })"

definition sync_try_send ::
  "build \<Rightarrow> i64 \<Rightarrow> bool \<Rightarrow> 's \<Rightarrow> ('s, 'r) inner \<Rightarrow>
   (((try_send_error \<times> 's) + i64 option) \<times> 's packet list \<times> ('s, 'r) inner) option" where
  "sync_try_send b time seq_cst packet_data x =
     (if closed x then Some (Inl (SendClosed, packet_data), [], x)
      else do {
        let pre_nst = next_service_timestamp (inner_seq x);
        (res, ps, s) \<leftarrow> try_send b time seq_cst packet_data (inner_seq x);
        Some (case res of
                Inr () \<Rightarrow> Inr (lowered pre_nst (next_service_timestamp s))
              | Inl (e, d) \<Rightarrow> Inl (send_error_from e, d), ps, x\<lparr>inner_seq := s\<rparr>)
      })"

text \<open>
  The macro \<^verbatim>\<open>send!\<close>, without timeout: \<open>send1\<close> is its parameter
  \<^verbatim>\<open>$try_send\<close>, applied to the data or the closure \<open>d\<close>, which a failed
  attempt hands back. The variable \<^verbatim>\<open>pre_nst\<close> is read again after every wait,
  so it is the timestamp at the start of the attempt.
\<close>

type_synonym ('d, 's, 'r) attempt =
  "'d \<Rightarrow> ('s, 'r) seqex \<Rightarrow>
   (((try_error \<times> 'd) + unit) \<times> 's packet list \<times> ('s, 'r) seqex) option"

definition send_loop ::
  "('d, 's, 'r) attempt \<Rightarrow> 'd \<Rightarrow> ('s, 'r) inner \<Rightarrow>
   ((closed_error + i64 option) outcome \<times> 'd \<times> 's packet list \<times> ('s, 'r) inner) option" where
  "send_loop send1 d x = do {
     let pre_nst = next_service_timestamp (inner_seq x);
     (res, ps, s) \<leftarrow> send1 d (inner_seq x);
     let x = x\<lparr>inner_seq := s\<rparr>;
     case res of
       Inr _ \<Rightarrow> Some (Return (Inr (lowered pre_nst (next_service_timestamp s))), d, ps, x)
     | Inl (WaitingForRecv, d) \<Rightarrow>
         Some (WaitRecv, d, ps, x\<lparr>recv_waiters := recv_waiters x + 1\<rparr>)
     | Inl (WaitingForReply, d) \<Rightarrow>
         Some (WaitReply, d, ps, x\<lparr>reply_sender_waiters := True\<rparr>)
   }"

definition send_if_open ::
  "('d, 's, 'r) attempt \<Rightarrow> 'd \<Rightarrow> ('s, 'r) inner \<Rightarrow>
   ((closed_error + i64 option) outcome \<times> 'd \<times> 's packet list \<times> ('s, 'r) inner) option" where
  "send_if_open send1 d x =
     (if closed x then Some (Return (Inl ClosedError), d, [], x) else send_loop send1 d x)"

definition send_woken_recv ::
  "build \<Rightarrow> ('d, 's, 'r) attempt \<Rightarrow> 'd \<Rightarrow> ('s, 'r) inner \<Rightarrow>
   ((closed_error + i64 option) outcome \<times> 'd \<times> 's packet list \<times> ('s, 'r) inner) option" where
  "send_woken_recv b send1 d x = do {
     waiters \<leftarrow> usize_sub b (recv_waiters x) 1;
     send_if_open send1 d (x\<lparr>recv_waiters := waiters\<rparr>)
   }"

definition sync_send ::
  "build \<Rightarrow> i64 \<Rightarrow> bool \<Rightarrow> 's \<Rightarrow> ('s, 'r) inner \<Rightarrow>
   ((closed_error + i64 option) outcome \<times> 's \<times> 's packet list \<times> ('s, 'r) inner) option" where
  "sync_send b time seq_cst packet_data x =
     send_if_open (try_send b time seq_cst) packet_data x"

definition sync_send_with ::
  "build \<Rightarrow> i64 \<Rightarrow> bool \<Rightarrow> (seq_no \<Rightarrow> 's) \<Rightarrow> ('s, 'r) inner \<Rightarrow>
   ((closed_error + i64 option) outcome \<times> (seq_no \<Rightarrow> 's) \<times> 's packet list \<times> ('s, 'r) inner) option" where
  "sync_send_with b time seq_cst f x = send_if_open (try_send_with b time seq_cst) f x"

section \<open>Sending with a timeout\<close>

definition i64_saturating_add :: "i64 \<Rightarrow> i64 \<Rightarrow> i64" where
  "i64_saturating_add x y =
     (if 2 ^ 63 \<le> sint x + sint y then i64_max
      else if sint x + sint y < - (2 ^ 63) then - i64_max - 1
      else x + y)"

text \<open>
  A wait with a timeout also says for how many milliseconds: the \<^verbatim>\<open>u64\<close> that
  \<^verbatim>\<open>as u64\<close> makes of the \<^verbatim>\<open>i64\<close> difference.
\<close>

type_synonym u64 = "64 word"

definition u64_of_i64 :: "i64 \<Rightarrow> u64" where
  "u64_of_i64 x = x"

datatype 'a timed_outcome = TimedReturn 'a | TimedWaitRecv u64 | TimedWaitReply u64

definition send_timeout_loop ::
  "build \<Rightarrow> ('d, 's, 'r) attempt \<Rightarrow> i64 \<Rightarrow> i64 \<Rightarrow> 'd \<Rightarrow> ('s, 'r) inner \<Rightarrow>
   (((try_send_error \<times> 'd) + i64 option) timed_outcome \<times> 'd \<times> 's packet list
     \<times> ('s, 'r) inner) option" where
  "send_timeout_loop b send1 end_time start_time d x = do {
     let pre_nst = next_service_timestamp (inner_seq x);
     (res, ps, s) \<leftarrow> send1 d (inner_seq x);
     let x = x\<lparr>inner_seq := s\<rparr>;
     case res of
       Inr _ \<Rightarrow> Some (TimedReturn (Inr (lowered pre_nst (next_service_timestamp s))), d, ps, x)
     | Inl (WaitingForRecv, d) \<Rightarrow> do {
         left \<leftarrow> i64_sub b end_time start_time;
         Some (TimedWaitRecv (u64_of_i64 left), d, ps, x\<lparr>recv_waiters := recv_waiters x + 1\<rparr>)
       }
     | Inl (WaitingForReply, d) \<Rightarrow> do {
         left \<leftarrow> i64_sub b end_time start_time;
         Some (TimedWaitReply (u64_of_i64 left), d, ps, x\<lparr>reply_sender_waiters := True\<rparr>)
       }
   }"

text \<open>The first lines of the macro; they also fix \<^verbatim>\<open>end_time\<close>.\<close>

definition send_timeout_start ::
  "build \<Rightarrow> ('d, 's, 'r) attempt \<Rightarrow> i64 \<Rightarrow> i64 \<Rightarrow> 'd \<Rightarrow> ('s, 'r) inner \<Rightarrow>
   (((try_send_error \<times> 'd) + i64 option) timed_outcome \<times> 'd \<times> 's packet list
     \<times> ('s, 'r) inner) option" where
  "send_timeout_start b send1 timeout start_time d x =
     (if closed x then Some (TimedReturn (Inl (SendClosed, d)), d, [], x)
      else send_timeout_loop b send1 (i64_saturating_add start_time timeout) start_time d x)"

definition send_timeout_woken_recv ::
  "build \<Rightarrow> ('d, 's, 'r) attempt \<Rightarrow> i64 \<Rightarrow> i64 \<Rightarrow> 'd \<Rightarrow> ('s, 'r) inner \<Rightarrow>
   (((try_send_error \<times> 'd) + i64 option) timed_outcome \<times> 'd \<times> 's packet list
     \<times> ('s, 'r) inner) option" where
  "send_timeout_woken_recv b send1 end_time start_time d x = do {
     waiters \<leftarrow> usize_sub b (recv_waiters x) 1;
     let x = x\<lparr>recv_waiters := waiters\<rparr>;
     if sint end_time \<le> sint start_time
     then Some (TimedReturn (Inl (SendWaitingForRecv, d)), d, [], x)
     else if closed x then Some (TimedReturn (Inl (SendClosed, d)), d, [], x)
     else send_timeout_loop b send1 end_time start_time d x
   }"

definition send_timeout_woken_reply ::
  "build \<Rightarrow> ('d, 's, 'r) attempt \<Rightarrow> i64 \<Rightarrow> i64 \<Rightarrow> 'd \<Rightarrow> ('s, 'r) inner \<Rightarrow>
   (((try_send_error \<times> 'd) + i64 option) timed_outcome \<times> 'd \<times> 's packet list
     \<times> ('s, 'r) inner) option" where
  "send_timeout_woken_reply b send1 end_time start_time d x =
     (if sint end_time \<le> sint start_time
      then Some (TimedReturn (Inl (SendWaitingForReply, d)), d, [], x)
      else if closed x then Some (TimedReturn (Inl (SendClosed, d)), d, [], x)
      else send_timeout_loop b send1 end_time start_time d x)"

definition sync_send_timeout ::
  "build \<Rightarrow> i64 \<Rightarrow> i64 \<Rightarrow> bool \<Rightarrow> i64 \<Rightarrow> 's \<Rightarrow> ('s, 'r) inner \<Rightarrow>
   (((try_send_error \<times> 's) + i64 option) timed_outcome \<times> 's \<times> 's packet list
     \<times> ('s, 'r) inner) option" where
  "sync_send_timeout b start_time time seq_cst timeout packet_data x =
     send_timeout_start b (try_send b time seq_cst) timeout start_time packet_data x"

definition sync_send_with_timeout ::
  "build \<Rightarrow> i64 \<Rightarrow> i64 \<Rightarrow> bool \<Rightarrow> i64 \<Rightarrow> (seq_no \<Rightarrow> 's) \<Rightarrow> ('s, 'r) inner \<Rightarrow>
   (((try_send_error \<times> (seq_no \<Rightarrow> 's)) + i64 option) timed_outcome \<times> (seq_no \<Rightarrow> 's)
     \<times> 's packet list \<times> ('s, 'r) inner) option" where
  "sync_send_with_timeout b start_time time seq_cst timeout f x =
     send_timeout_start b (try_send_with b time seq_cst) timeout start_time f x"

section \<open>Service and close\<close>

definition sync_service ::
  "build \<Rightarrow> i64 \<Rightarrow> ('s, 'r) inner \<Rightarrow> (i64 \<times> 's packet list \<times> ('s, 'r) inner) option" where
  "sync_service b current_time x = do {
     (left, ps, s) \<leftarrow> service b current_time (inner_seq x);
     Some (left, ps, x\<lparr>inner_seq := s\<rparr>)
   }"

definition sync_service_scheduled ::
  "build \<Rightarrow> i64 \<Rightarrow> ('s, 'r) inner \<Rightarrow>
   ((closed_error + i64) \<times> 's packet list \<times> ('s, 'r) inner) option" where
  "sync_service_scheduled b current_time x =
     (if closed x then Some (Inl ClosedError, [], x)
      else do {
        (ps, s) \<leftarrow> service_loop b current_time None (inner_seq x);
        Some (Inr (next_service_timestamp s), ps, x\<lparr>inner_seq := s\<rparr>)
      })"

definition sync_close :: "('s, 'r) inner \<Rightarrow> wake list \<times> ('s, 'r) inner" where
  "sync_close x = notify_recv (x\<lparr>closed := True\<rparr>)"

definition is_closed :: "('s, 'r) inner \<Rightarrow> bool" where
  "is_closed x = closed x"

section \<open>Reply guards\<close>

text \<open>A guard has the components of the single-threaded one.\<close>

definition sync_is_seq_cst :: "reply_guard \<Rightarrow> bool" where
  "sync_is_seq_cst g = is_holding_lock g"

definition sync_to_components :: "reply_guard \<Rightarrow> seq_no \<times> bool" where
  "sync_to_components g = (guard_reply_no g, is_holding_lock g)"

definition sync_from_components :: "seq_no \<Rightarrow> bool \<Rightarrow> reply_guard" where
  "sync_from_components reply_no holding = guard_new reply_no holding"

definition sync_guard_drop ::
  "build \<Rightarrow> reply_guard \<Rightarrow> ('s, 'r) inner \<Rightarrow>
   ('s packet list \<times> wake list \<times> ('s, 'r) inner) option" where
  "sync_guard_drop b g x = do {
     (ps, s) \<leftarrow>
       (if \<not> closed x then do {
          (_, ps, s) \<leftarrow> ack_raw b (guard_reply_no g) (is_holding_lock g) (inner_seq x);
          Some (ps, s)
        }
        else Some ([], inner_seq x));
     let (ws, x) = notify_reply (x\<lparr>inner_seq := s\<rparr>);
     Some (ps, ws, x)
   }"

definition sync_seq_cst_drop ::
  "seq_cst_guard \<Rightarrow> ('s, 'r) inner \<Rightarrow> wake list \<times> ('s, 'r) inner" where
  "sync_seq_cst_drop g x = notify_reply (x\<lparr>inner_seq := unlock_raw (inner_seq x)\<rparr>)"

definition sync_consume_lock ::
  "reply_guard \<Rightarrow> ('s, 'r) inner \<Rightarrow> seq_cst_guard option \<times> wake list \<times> ('s, 'r) inner" where
  "sync_consume_lock g x =
     (if is_holding_lock g then (Some SeqCstGuard, [], x)
      else let (ws, x) = notify_reply x in (None, ws, x))"

text \<open>
  When the instance is closed, \<^verbatim>\<open>reply_with\<close> returns before it forgets the
  guard, so the guard is dropped.
\<close>

definition sync_guard_reply_with ::
  "build \<Rightarrow> i64 \<Rightarrow> bool \<Rightarrow> (seq_no \<Rightarrow> seq_no \<Rightarrow> 's) \<Rightarrow> reply_guard \<Rightarrow> ('s, 'r) inner \<Rightarrow>
   (i64 option \<times> 's packet list \<times> wake list \<times> ('s, 'r) inner) option" where
  "sync_guard_reply_with b time seq_cst f g x =
     (if closed x then do {
        (ps, ws, x) \<leftarrow> sync_guard_drop b g x;
        Some (None, ps, ws, x)
      }
      else do {
        let pre_nst = next_service_timestamp (inner_seq x);
        let seq_no = seq_no_of (inner_seq x);
        (_, ps, s) \<leftarrow> reply_raw b time (guard_reply_no g) (is_holding_lock g) seq_cst
                        (f seq_no (guard_reply_no g)) (inner_seq x);
        let nst = next_service_timestamp s;
        let (ws, x) = notify_reply (x\<lparr>inner_seq := s\<rparr>);
        Some (lowered pre_nst nst, ps, ws, x)
      })"

definition sync_guard_reply ::
  "build \<Rightarrow> i64 \<Rightarrow> bool \<Rightarrow> 's \<Rightarrow> reply_guard \<Rightarrow> ('s, 'r) inner \<Rightarrow>
   (i64 option \<times> 's packet list \<times> wake list \<times> ('s, 'r) inner) option" where
  "sync_guard_reply b time seq_cst packet_data g x =
     sync_guard_reply_with b time seq_cst (\<lambda>_ _. packet_data) g x"

definition sync_guard_ack ::
  "build \<Rightarrow> reply_guard \<Rightarrow> ('s, 'r) inner \<Rightarrow>
   (seq_cst_guard option \<times> 's packet list \<times> wake list \<times> ('s, 'r) inner) option" where
  "sync_guard_ack b g x = do {
     (ps, s) \<leftarrow>
       (if \<not> closed x then do {
          (_, ps, s) \<leftarrow> ack_raw b (guard_reply_no g) False (inner_seq x);
          Some (ps, s)
        }
        else Some ([], inner_seq x));
     let (l, ws, x) = sync_consume_lock g (x\<lparr>inner_seq := s\<rparr>);
     Some (l, ps, ws, x)
   }"

definition sync_guard_unlock ::
  "reply_guard \<Rightarrow> ('s, 'r) inner \<Rightarrow> bool \<times> reply_guard \<times> wake list \<times> ('s, 'r) inner" where
  "sync_guard_unlock g x =
     (if is_holding_lock g then
        let g = g\<lparr>is_holding_lock := False\<rparr>;
            (ws, x) = notify_reply (x\<lparr>inner_seq := unlock_raw (inner_seq x)\<rparr>)
        in (True, g, ws, x)
      else (False, g, [], x))"

definition sync_guard_reply_with_stay_locked ::
  "build \<Rightarrow> i64 \<Rightarrow> bool \<Rightarrow> (seq_no \<Rightarrow> seq_no \<Rightarrow> 's) \<Rightarrow> reply_guard \<Rightarrow> ('s, 'r) inner \<Rightarrow>
   ((seq_cst_guard option \<times> i64 option) \<times> 's packet list \<times> wake list \<times> ('s, 'r) inner) option" where
  "sync_guard_reply_with_stay_locked b time seq_cst f g x =
     (if closed x then let (l, ws, x) = sync_consume_lock g x in Some ((l, None), [], ws, x)
      else do {
        let pre_nst = next_service_timestamp (inner_seq x);
        let seq_no = seq_no_of (inner_seq x);
        (_, ps, s) \<leftarrow> reply_raw b time (guard_reply_no g) False seq_cst
                        (f seq_no (guard_reply_no g)) (inner_seq x);
        let nst = next_service_timestamp s;
        let (l, ws, x) = sync_consume_lock g (x\<lparr>inner_seq := s\<rparr>);
        Some ((l, lowered pre_nst nst), ps, ws, x)
      })"

definition sync_guard_reply_stay_locked ::
  "build \<Rightarrow> i64 \<Rightarrow> bool \<Rightarrow> 's \<Rightarrow> reply_guard \<Rightarrow> ('s, 'r) inner \<Rightarrow>
   ((seq_cst_guard option \<times> i64 option) \<times> 's packet list \<times> wake list \<times> ('s, 'r) inner) option" where
  "sync_guard_reply_stay_locked b time seq_cst packet_data g x =
     sync_guard_reply_with_stay_locked b time seq_cst (\<lambda>_ _. packet_data) g x"

end
