(* ===== verification/Threads.thy ===== *)
theory Threads
  imports Sync
begin

text \<open>
  Threads on one thread-safe instance. A thread is outside every method, asleep on a condition
  variable inside one, or awake and about to take the mutex again. A step is one critical section:
  from taking the mutex to releasing it, by returning or by waiting. A notification takes effect
  some time after its section; which waiter a \<^verbatim>\<open>notify_one\<close> wakes is open, and
  any waiter may wake by itself (spuriously or on its timeout).
\<close>

section \<open>Threads and shared state\<close>

text \<open>
  Waiting phases hold what the rest of the method needs: whether the thread has been woken, the
  arguments of the send, and its \<^verbatim>\<open>end_time\<close> if it has a timeout. In
  \<open>ToPump\<close> a \<^verbatim>\<open>receive\<close> is between its two critical sections.
\<close>

datatype 's phase =
    Idle
  | SendOnRecv bool bool 's "i64 option"
  | SendOnReply bool bool 's "i64 option"
  | PumpOnReply bool
  | ToPump

fun awake :: "'s phase \<Rightarrow> bool" where
  "awake Idle = False"
| "awake (SendOnRecv w _ _ _) = w"
| "awake (SendOnReply w _ _ _) = w"
| "awake (PumpOnReply w) = w"
| "awake ToPump = True"

fun on_recv :: "'s phase \<Rightarrow> bool" where
  "on_recv (SendOnRecv _ _ _ _) = True"
| "on_recv _ = False"

fun on_pump :: "'s phase \<Rightarrow> bool" where
  "on_pump (PumpOnReply _) = True"
| "on_pump _ = False"

fun asleep_recv :: "'s phase \<Rightarrow> bool" where
  "asleep_recv (SendOnRecv w _ _ _) = (\<not> w)"
| "asleep_recv _ = False"

fun asleep_send :: "'s phase \<Rightarrow> bool" where
  "asleep_send (SendOnReply w _ _ _) = (\<not> w)"
| "asleep_send _ = False"

fun asleep_reply :: "'s phase \<Rightarrow> bool" where
  "asleep_reply (SendOnReply w _ _ _) = (\<not> w)"
| "asleep_reply (PumpOnReply w) = (\<not> w)"
| "asleep_reply _ = False"

fun wake_up :: "'s phase \<Rightarrow> 's phase" where
  "wake_up (SendOnRecv _ c d e) = SendOnRecv True c d e"
| "wake_up (SendOnReply _ c d e) = SendOnReply True c d e"
| "wake_up (PumpOnReply _) = PumpOnReply True"
| "wake_up ph = ph"

record ('s, 'r) shared =
  sh_inner :: "('s, 'r) inner"
  sh_guards :: "reply_guard list"
  sh_locks :: nat

text \<open>
  What a thread may do: call a method, or go on with the one it is in. \<open>Continue\<close> has the two
  times that a woken send reads.
\<close>

datatype ('s, 'r) action =
    CallTrySend i64 bool 's
  | CallSend i64 bool 's
  | CallSendTimeout i64 i64 bool i64 's
  | CallTryReceive "'r packet"
  | CallReceive "'r packet"
  | CallTryPump
  | CallPump
  | CallReply nat i64 bool "seq_no \<Rightarrow> seq_no \<Rightarrow> 's"
  | CallReplyStay nat i64 bool "seq_no \<Rightarrow> seq_no \<Rightarrow> 's"
  | CallAck nat
  | CallUnlock nat
  | CallDrop nat
  | CallDropSeqCst
  | CallService i64
  | CallServiceScheduled i64
  | CallClose
  | Continue i64 i64

fun ready :: "'s phase \<Rightarrow> ('s, 'r) action \<Rightarrow> bool" where
  "ready ph (Continue _ _) = awake ph"
| "ready ph _ = (ph = Idle)"

section \<open>One critical section\<close>

text \<open>The phase a send or a pump is in after its critical section.\<close>

fun send_phase :: "bool \<Rightarrow> 'a outcome \<Rightarrow> 's \<Rightarrow> 's phase" where
  "send_phase c (Return _) d = Idle"
| "send_phase c WaitRecv d = SendOnRecv False c d None"
| "send_phase c WaitReply d = SendOnReply False c d None"

fun timed_phase :: "bool \<Rightarrow> i64 \<Rightarrow> 'a timed_outcome \<Rightarrow> 's \<Rightarrow> 's phase" where
  "timed_phase c e (TimedReturn _) d = Idle"
| "timed_phase c e (TimedWaitRecv _) d = SendOnRecv False c d (Some e)"
| "timed_phase c e (TimedWaitReply _) d = SendOnReply False c d (Some e)"

fun pump_phase :: "'a outcome \<Rightarrow> 's phase" where
  "pump_phase (Return _) = Idle"
| "pump_phase _ = PumpOnReply False"

fun pumped_guards :: "(('s, 'r) recv_ok \<times> bool) option outcome \<Rightarrow> reply_guard list" where
  "pumped_guards (Return (Some r)) = received_guards (Inr r :: unit + _)"
| "pumped_guards _ = []"

definition after_pump ::
  "((('s, 'r) recv_ok \<times> bool) option outcome \<times> wake list \<times> ('s, 'r) inner) option \<Rightarrow>
   ('s, 'r) shared \<Rightarrow> ('s phase \<times> 's packet list \<times> wake list \<times> ('s, 'r) shared) option" where
  "after_pump res sh = do {
     (r, ws, x) \<leftarrow> res;
     Some (pump_phase r, [], ws, sh\<lparr>sh_inner := x, sh_guards := sh_guards sh @ pumped_guards r\<rparr>)
   }"

fun act :: "build \<Rightarrow> ('s, 'r) action \<Rightarrow> 's phase \<Rightarrow> ('s, 'r) shared \<Rightarrow>
    ('s phase \<times> 's packet list \<times> wake list \<times> ('s, 'r) shared) option" where
  "act b (CallTrySend t c d) ph sh = do {
     (_, ps, x) \<leftarrow> sync_try_send b t c d (sh_inner sh);
     Some (Idle, ps, [], sh\<lparr>sh_inner := x\<rparr>)
   }"
| "act b (CallSend t c d) ph sh = do {
     (r, d, ps, x) \<leftarrow> sync_send b t c d (sh_inner sh);
     Some (send_phase c r d, ps, [], sh\<lparr>sh_inner := x\<rparr>)
   }"
| "act b (CallSendTimeout t0 t c timeout d) ph sh = do {
     (r, d, ps, x) \<leftarrow> sync_send_timeout b t0 t c timeout d (sh_inner sh);
     Some (timed_phase c (i64_saturating_add t0 timeout) r d, ps, [], sh\<lparr>sh_inner := x\<rparr>)
   }"
| "act b (CallTryReceive p) ph sh = do {
     (r, ps, ws, x) \<leftarrow> sync_try_receive b p (sh_inner sh);
     Some (Idle, ps, ws, sh\<lparr>sh_inner := x, sh_guards := sh_guards sh @ received_guards r\<rparr>)
   }"
| "act b (CallReceive p) ph sh = do {
     (r, ps, ws, x) \<leftarrow> sync_try_receive b p (sh_inner sh);
     Some (if receive_match r = None then ToPump else Idle, ps, ws,
           sh\<lparr>sh_inner := x, sh_guards := sh_guards sh @ received_guards r\<rparr>)
   }"
| "act b CallTryPump ph sh = do {
     (r, ws, x) \<leftarrow> sync_try_pump b (sh_inner sh);
     Some (Idle, [], ws, sh\<lparr>sh_inner := x, sh_guards := sh_guards sh @ received_guards r\<rparr>)
   }"
| "act b CallPump ph sh = after_pump (sync_pump b (sh_inner sh)) sh"
| "act b (CallReply i t c f) ph sh = do {
     g \<leftarrow> arr_get (sh_guards sh) i;
     (_, ps, ws, x) \<leftarrow> sync_guard_reply_with b t c f g (sh_inner sh);
     Some (Idle, ps, ws, sh\<lparr>sh_inner := x, sh_guards := remove_at i (sh_guards sh)\<rparr>)
   }"
| "act b (CallReplyStay i t c f) ph sh = do {
     g \<leftarrow> arr_get (sh_guards sh) i;
     ((l, _), ps, ws, x) \<leftarrow> sync_guard_reply_with_stay_locked b t c f g (sh_inner sh);
     Some (Idle, ps, ws, sh\<lparr>sh_inner := x, sh_guards := remove_at i (sh_guards sh),
                            sh_locks := sh_locks sh + kept_lock l\<rparr>)
   }"
| "act b (CallAck i) ph sh = do {
     g \<leftarrow> arr_get (sh_guards sh) i;
     (l, ps, ws, x) \<leftarrow> sync_guard_ack b g (sh_inner sh);
     Some (Idle, ps, ws, sh\<lparr>sh_inner := x, sh_guards := remove_at i (sh_guards sh),
                            sh_locks := sh_locks sh + kept_lock l\<rparr>)
   }"
| "act b (CallUnlock i) ph sh = do {
     g \<leftarrow> arr_get (sh_guards sh) i;
     let (_, g, ws, x) = sync_guard_unlock g (sh_inner sh);
     Some (Idle, [], ws, sh\<lparr>sh_inner := x, sh_guards := (sh_guards sh)[i := g]\<rparr>)
   }"
| "act b (CallDrop i) ph sh = do {
     g \<leftarrow> arr_get (sh_guards sh) i;
     (ps, ws, x) \<leftarrow> sync_guard_drop b g (sh_inner sh);
     Some (Idle, ps, ws, sh\<lparr>sh_inner := x, sh_guards := remove_at i (sh_guards sh)\<rparr>)
   }"
| "act b CallDropSeqCst ph sh =
     (if sh_locks sh = 0 then None
      else let (ws, x) = sync_seq_cst_drop SeqCstGuard (sh_inner sh)
           in Some (Idle, [], ws, sh\<lparr>sh_inner := x, sh_locks := sh_locks sh - 1\<rparr>))"
| "act b (CallService t) ph sh = do {
     (_, ps, x) \<leftarrow> sync_service b t (sh_inner sh);
     Some (Idle, ps, [], sh\<lparr>sh_inner := x\<rparr>)
   }"
| "act b (CallServiceScheduled t) ph sh = do {
     (_, ps, x) \<leftarrow> sync_service_scheduled b t (sh_inner sh);
     Some (Idle, ps, [], sh\<lparr>sh_inner := x\<rparr>)
   }"
| "act b CallClose ph sh =
     (let (ws, x) = sync_close (sh_inner sh) in Some (Idle, [], ws, sh\<lparr>sh_inner := x\<rparr>))"
| "act b (Continue t t') (SendOnRecv _ c d None) sh = do {
     (r, d, ps, x) \<leftarrow> send_woken_recv b (try_send b t' c) d (sh_inner sh);
     Some (send_phase c r d, ps, [], sh\<lparr>sh_inner := x\<rparr>)
   }"
| "act b (Continue t t') (SendOnReply _ c d None) sh = do {
     (r, d, ps, x) \<leftarrow> send_if_open (try_send b t' c) d (sh_inner sh);
     Some (send_phase c r d, ps, [], sh\<lparr>sh_inner := x\<rparr>)
   }"
| "act b (Continue t t') (SendOnRecv _ c d (Some e)) sh = do {
     (r, d, ps, x) \<leftarrow> send_timeout_woken_recv b (try_send b t' c) e t d (sh_inner sh);
     Some (timed_phase c e r d, ps, [], sh\<lparr>sh_inner := x\<rparr>)
   }"
| "act b (Continue t t') (SendOnReply _ c d (Some e)) sh = do {
     (r, d, ps, x) \<leftarrow> send_timeout_woken_reply b (try_send b t' c) e t d (sh_inner sh);
     Some (timed_phase c e r d, ps, [], sh\<lparr>sh_inner := x\<rparr>)
   }"
| "act b (Continue t t') (PumpOnReply _) sh = after_pump (sync_pump_woken b (sh_inner sh)) sh"
| "act b (Continue t t') ToPump sh = after_pump (sync_pump b (sh_inner sh)) sh"
| "act b (Continue t t') Idle sh = None"

section \<open>Interleaving\<close>

text \<open>
  The code releases the mutex before it notifies, so a notification is pending until it is
  delivered. \<open>woken\<close>: what it does to the threads then.
\<close>

record ('s, 'r) sys =
  threads :: "'s phase list"
  pending :: "wake list"
  common :: "('s, 'r) shared"

inductive woken :: "wake \<Rightarrow> 's phase list \<Rightarrow> 's phase list \<Rightarrow> bool" where
  all_reply: "woken NotifyAllReply th (map (\<lambda>ph. if asleep_reply ph then wake_up ph else ph) th)"
| one_recv: "i < length th \<Longrightarrow> asleep_recv (th ! i) \<Longrightarrow> woken NotifyOneRecv th (th[i := wake_up (th ! i)])"
| no_recv: "list_all (\<lambda>ph. \<not> asleep_recv ph) th \<Longrightarrow> woken NotifyOneRecv th th"

inductive_cases woken_replyE: "woken NotifyAllReply th th'"
inductive_cases woken_recvE: "woken NotifyOneRecv th th'"
inductive_simps woken_reply_iff: "woken NotifyAllReply th th'"

inductive sys_step :: "build \<Rightarrow> ('s, 'r) sys \<Rightarrow> ('s, 'r) sys \<Rightarrow> bool" for b where
  section_run: "i < length (threads x) \<Longrightarrow> ready (threads x ! i) a \<Longrightarrow>
    act b a (threads x ! i) (common x) = Some (ph, ps, ws, sh) \<Longrightarrow>
    sys_step b x (x\<lparr>threads := (threads x)[i := ph], pending := pending x @ ws, common := sh\<rparr>)"
| delivery: "pending x = vs @ w # ws \<Longrightarrow> woken w (threads x) th \<Longrightarrow>
    sys_step b x (x\<lparr>threads := th, pending := vs @ ws\<rparr>)"
| self_woken: "i < length (threads x) \<Longrightarrow> asleep_recv (threads x ! i) \<or> asleep_reply (threads x ! i) \<Longrightarrow>
    sys_step b x (x\<lparr>threads := (threads x)[i := wake_up (threads x ! i)]\<rparr>)"

inductive reachable :: "build \<Rightarrow> ('s, 'r) sys \<Rightarrow> ('s, 'r) sys \<Rightarrow> bool" for b where
  start: "reachable b x x"
| onward: "reachable b x y \<Longrightarrow> sys_step b y z \<Longrightarrow> reachable b x z"

text \<open>A new instance with \<open>k\<close> threads that are about to use it.\<close>

definition new_sys :: "nat \<Rightarrow> ('s, 'r) inner \<Rightarrow> ('s, 'r) sys" where
  "new_sys k x = \<lparr> threads = replicate k Idle, pending = [],
     common = \<lparr> sh_inner = x, sh_guards = [], sh_locks = 0 \<rparr> \<rparr>"

text \<open>
  Schedules, to run a given interleaving: thread \<open>i\<close> runs a section, the pending notification \<open>j\<close>
  is delivered (to \<open>i\<close>, if it is for one thread), thread \<open>i\<close> wakes by itself.
\<close>

datatype ('s, 'r) event = Section nat "('s, 'r) action" | Deliver nat nat | SelfWake nat

fun sys_exec :: "build \<Rightarrow> ('s, 'r) event \<Rightarrow> ('s, 'r) sys \<Rightarrow> (unit \<times> ('s, 'r) sys) option" where
  "sys_exec b (Section i a) x = do {
     ph \<leftarrow> arr_get (threads x) i;
     if ready ph a then do {
       (ph, ps, ws, sh) \<leftarrow> act b a ph (common x);
       Some ((), x\<lparr>threads := (threads x)[i := ph], pending := pending x @ ws, common := sh\<rparr>)
     }
     else None
   }"
| "sys_exec b (Deliver j i) x = do {
     w \<leftarrow> arr_get (pending x) j;
     let x' = x\<lparr>pending := remove_at j (pending x)\<rparr>;
     case w of
       NotifyAllReply \<Rightarrow>
         Some ((), x'\<lparr>threads := map (\<lambda>ph. if asleep_reply ph then wake_up ph else ph) (threads x)\<rparr>)
     | NotifyOneRecv \<Rightarrow>
         if list_all (\<lambda>ph. \<not> asleep_recv ph) (threads x) then Some ((), x')
         else if i < length (threads x) \<and> asleep_recv (threads x ! i)
         then Some ((), x'\<lparr>threads := (threads x)[i := wake_up (threads x ! i)]\<rparr>)
         else None
   }"
| "sys_exec b (SelfWake i) x = do {
     ph \<leftarrow> arr_get (threads x) i;
     if asleep_recv ph \<or> asleep_reply ph
     then Some ((), x\<lparr>threads := (threads x)[i := wake_up ph]\<rparr>) else None
   }"

lemma sys_exec_step:
  assumes "sys_exec b ev x = Some (u, y)"
  shows "sys_step b x y"
proof (cases ev)
  case (Section i a)
  with assms show ?thesis
    by (auto simp: arr_get_def bind_eq_Some_conv intro!: section_run split: if_splits)
next
  case (Deliver j i)
  with assms obtain w where j: "j < length (pending x)" and w: "pending x ! j = w"
    by (auto simp: arr_get_def bind_eq_Some_conv split: if_splits)
  have split: "pending x = take j (pending x) @ w # drop (Suc j) (pending x)"
    using id_take_nth_drop [OF j] w by simp
  obtain th where "woken w (threads x) th" and "y = x\<lparr>threads := th, pending := remove_at j (pending x)\<rparr>"
    using assms Deliver j w
    by (cases w) (force simp: arr_get_def Let_def intro: woken.intros split: if_splits)+
  with delivery [OF split] show ?thesis by (simp add: remove_at_def)
next
  case (SelfWake i)
  with assms show ?thesis
    by (auto simp: arr_get_def bind_eq_Some_conv intro!: self_woken split: if_splits)
qed

lemma reachable_trans: "reachable b y z \<Longrightarrow> reachable b x y \<Longrightarrow> reachable b x z"
  by (induction rule: reachable.induct) (auto intro: reachable.onward)

lemma schedule_reachable: "run (sys_exec b) evs x = Some (us, y) \<Longrightarrow> reachable b x y"
proof (induction evs arbitrary: x us)
  case (Cons ev evs)
  then obtain u x1 us1 where "sys_exec b ev x = Some (u, x1)" and "run (sys_exec b) evs x1 = Some (us1, y)"
    by (auto simp: bind_eq_Some_conv simp del: sys_exec.simps)
  with Cons.IH have "reachable b x1 y" and "reachable b x x1"
    by (auto intro: reachable.intros sys_exec_step)
  then show ?case by (rule reachable_trans)
qed (simp add: reachable.start)

section \<open>What a critical section does to the waiters\<close>

text \<open>
  \<open>effect ph ph' ws x x'\<close>: a thread went from \<open>ph\<close> to \<open>ph'\<close>, made the notifications \<open>ws\<close>, and
  changed the three fields about waiters accordingly.
\<close>

definition effect ::
  "'s phase \<Rightarrow> 's phase \<Rightarrow> wake list \<Rightarrow> ('s, 'r) inner \<Rightarrow> ('s, 'r) inner \<Rightarrow> bool" where
  "effect ph ph' ws x x' \<longleftrightarrow>
     recv_waiters x' + of_bool (on_recv ph) = recv_waiters x + of_bool (on_recv ph')
   \<and> reply_receiver_waiters x' = (on_pump ph' \<or> reply_receiver_waiters x \<and> \<not> on_pump ph)
   \<and> (on_pump ph' \<and> reply_receiver_waiters x \<longrightarrow> on_pump ph)
   \<and> (if ws = [NotifyAllReply] then \<not> reply_sender_waiters x' \<and> \<not> asleep_reply ph'
      else ws \<in> {[], [NotifyOneRecv]}
        \<and> reply_sender_waiters x' = (reply_sender_waiters x \<or> asleep_send ph')
        \<and> (ws = [NotifyOneRecv] \<longrightarrow> \<not> asleep_recv ph'))"

lemma notify_cases:
  "notify_reply x = (ws, x') \<Longrightarrow> inner_seq x' = inner_seq x \<and> recv_waiters x' = recv_waiters x
     \<and> reply_receiver_waiters x' = reply_receiver_waiters x \<and> closed x' = closed x
     \<and> \<not> reply_sender_waiters x'
     \<and> ws = (if reply_sender_waiters x \<or> reply_receiver_waiters x then [NotifyAllReply] else [])"
  "notify_recv x = (vs, x') \<Longrightarrow> x' = x \<and> vs = (if 0 < recv_waiters x then [NotifyOneRecv] else [])"
  by (auto simp: notify_reply_def notify_recv_def split: if_splits)

text \<open>A section that returns without waiting, and leaves the fields as they are or notifies.\<close>

lemma effect_same:
  "\<not> on_recv ph \<Longrightarrow> \<not> on_pump ph \<Longrightarrow> \<not> on_recv ph' \<Longrightarrow> \<not> on_pump ph' \<Longrightarrow> \<not> asleep_reply ph' \<Longrightarrow>
   recv_waiters x' = recv_waiters x \<Longrightarrow> reply_receiver_waiters x' = reply_receiver_waiters x \<Longrightarrow>
   reply_sender_waiters x' = reply_sender_waiters x \<Longrightarrow> ws \<in> {[], [NotifyOneRecv]} \<Longrightarrow>
   effect ph ph' ws x x'"
  by (cases ph') (auto simp: effect_def)

lemma effect_notify:
  assumes "notify_reply x1 = (ws, x')" and "recv_waiters x1 = recv_waiters x"
    and "reply_receiver_waiters x1 = reply_receiver_waiters x"
    and "reply_sender_waiters x1 = reply_sender_waiters x"
  shows "effect Idle Idle ws x x'"
  using assms notify_cases(1) [OF assms(1)] by (auto simp: effect_def)

text \<open>The sends.\<close>

lemma send_loop_effect:
  assumes "send_loop send1 d x = Some (r, d', ps, x')"
  shows "effect Idle (send_phase c r d') [] x x'"
proof -
  from assms obtain res ps1 s where run: "send1 d (inner_seq x) = Some (res, ps1, s)"
    by (cases "send1 d (inner_seq x)") (auto simp: send_loop_def Let_def)
  show ?thesis
  proof (cases res)
    case (Inl q)
    obtain e d1 where q: "q = (e, d1)" by (cases q)
    with Inl run assms show ?thesis by (cases e) (auto simp: send_loop_def effect_def)
  qed (use run assms in \<open>auto simp: send_loop_def effect_def\<close>)
qed

lemma send_if_open_effect:
  assumes "send_if_open send1 d x = Some (r, d', ps, x')"
  shows "effect Idle (send_phase c r d') [] x x'"
  using assms send_loop_effect [of send1 d x r d' ps x' c]
  by (auto simp: send_if_open_def effect_def split: if_splits)

lemma send_timeout_loop_effect:
  assumes "send_timeout_loop b send1 e t d x = Some (r, d', ps, x')"
  shows "effect Idle (timed_phase c e r d') [] x x'"
proof -
  from assms obtain res ps1 s where run: "send1 d (inner_seq x) = Some (res, ps1, s)"
    by (cases "send1 d (inner_seq x)") (auto simp: send_timeout_loop_def Let_def)
  show ?thesis
  proof (cases res)
    case (Inl q)
    obtain err d1 where q: "q = (err, d1)" by (cases q)
    with Inl run assms show ?thesis
      by (cases err; cases "i64_sub b e t") (auto simp: send_timeout_loop_def effect_def)
  qed (use run assms in \<open>auto simp: send_timeout_loop_def effect_def\<close>)
qed

lemma effect_from_recv:
  assumes "effect Idle ph' [] (x\<lparr>recv_waiters := recv_waiters x - 1\<rparr>) x'" and "0 < recv_waiters x"
    and "on_recv ph" and "\<not> on_pump ph"
  shows "effect ph ph' [] x x'"
  using assms by (auto simp: effect_def)

lemma effect_from_reply:
  assumes "effect Idle ph' ws x x'" and "\<not> on_recv ph" and "\<not> on_pump ph"
  shows "effect ph ph' ws x x'"
  using assms by (auto simp: effect_def)

lemma send_woken_recv_effect:
  assumes "send_woken_recv b send1 d x = Some (r, d', ps, x')" and "0 < recv_waiters x"
  shows "effect (SendOnRecv w c' q e) (send_phase c r d') [] x x'"
proof -
  from assms have "send_if_open send1 d (x\<lparr>recv_waiters := recv_waiters x - 1\<rparr>) = Some (r, d', ps, x')"
    by (simp add: send_woken_recv_def)
  from effect_from_recv [OF send_if_open_effect [OF this] assms(2)] show ?thesis by simp
qed

lemma send_timeout_woken_recv_effect:
  assumes "send_timeout_woken_recv b send1 e t d x = Some (r, d', ps, x')" and "0 < recv_waiters x"
  shows "effect (SendOnRecv w c' q e') (timed_phase c e r d') [] x x'"
proof -
  let ?x = "x\<lparr>recv_waiters := recv_waiters x - 1\<rparr>"
  from assms have "effect Idle (timed_phase c e r d') [] ?x x'"
    using send_timeout_loop_effect [of b send1 e t d ?x r d' ps x' c]
    by (auto simp: send_timeout_woken_recv_def Let_def effect_def split: if_splits)
  from effect_from_recv [OF this assms(2)] show ?thesis by simp
qed

lemma send_timeout_woken_reply_effect:
  assumes "send_timeout_woken_reply b send1 e t d x = Some (r, d', ps, x')"
  shows "effect (SendOnReply w c' q e') (timed_phase c e r d') [] x x'"
proof -
  from assms have "effect Idle (timed_phase c e r d') [] x x'"
    using send_timeout_loop_effect [of b send1 e t d x r d' ps x' c]
    by (auto simp: send_timeout_woken_reply_def effect_def split: if_splits)
  then show ?thesis by (rule effect_from_reply) simp_all
qed

lemma send_timeout_start_effect:
  assumes "send_timeout_start b send1 timeout t d x = Some (r, d', ps, x')"
  shows "effect Idle (timed_phase c (i64_saturating_add t timeout) r d') [] x x'"
  using assms send_timeout_loop_effect [of b send1 "i64_saturating_add t timeout" t d x r d' ps x' c]
  by (auto simp: send_timeout_start_def effect_def split: if_splits)

text \<open>The pumps.\<close>

lemma pump_loop_effect:
  assumes "pump_loop b x = Some (r, ws, x')"
  shows "recv_waiters x' = recv_waiters x" and "reply_sender_waiters x' = reply_sender_waiters x"
    and "reply_receiver_waiters x' = (on_pump (pump_phase r :: 's phase) \<or> reply_receiver_waiters x)"
    and "ws \<in> {[], [NotifyOneRecv]}"
    and "r \<noteq> WaitRecv" and "r = WaitReply \<Longrightarrow> ws = []"
proof -
  from assms obtain res s where run: "try_pump_raw b (inner_seq x) = Some (res, s)"
    by (cases "try_pump_raw b (inner_seq x)") (auto simp: pump_loop_def Let_def)
  have "recv_waiters x' = recv_waiters x \<and> reply_sender_waiters x' = reply_sender_waiters x
    \<and> reply_receiver_waiters x' = (on_pump (pump_phase r :: 's phase) \<or> reply_receiver_waiters x)
    \<and> ws \<in> {[], [NotifyOneRecv]} \<and> r \<noteq> WaitRecv \<and> (r = WaitReply \<longrightarrow> ws = [])"
  proof (cases res)
    case (Inl e)
    with run assms show ?thesis by (cases e) (auto simp: pump_loop_def)
  next
    case (Inr q)
    obtain a do_pump where "q = (a, do_pump)" by (cases q)
    with Inr run assms show ?thesis
      by (auto simp: pump_loop_def notify_recv_def Let_def split: if_splits)
  qed
  then show "recv_waiters x' = recv_waiters x" and "reply_sender_waiters x' = reply_sender_waiters x"
    and "reply_receiver_waiters x' = (on_pump (pump_phase r :: 's phase) \<or> reply_receiver_waiters x)"
    and "ws \<in> {[], [NotifyOneRecv]}" and "r \<noteq> WaitRecv" and "r = WaitReply \<Longrightarrow> ws = []"
    by blast+
qed

lemma pump_phase_simps [simp]:
  "\<not> on_recv (pump_phase r)" "\<not> asleep_send (pump_phase r)" "\<not> asleep_recv (pump_phase r)"
  by (cases r; simp)+

lemma sync_pump_effect:
  assumes "sync_pump b x = Some (r, ws, x')" and "\<not> on_recv ph" and "\<not> on_pump ph"
  shows "effect ph (pump_phase r) ws x x'"
  using assms pump_loop_effect [of b x r ws x']
  by (auto simp: sync_pump_def effect_def split: if_splits)

lemma sync_pump_woken_effect:
  assumes "sync_pump_woken b x = Some (r, ws, x')"
  shows "effect (PumpOnReply w) (pump_phase r) ws x x'"
  using assms pump_loop_effect [of b "x\<lparr>reply_receiver_waiters := False\<rparr>" r ws x']
  by (auto simp: sync_pump_woken_def effect_def)

text \<open>The methods that do not wait.\<close>

lemma try_receive_effect:
  assumes "sync_try_receive b p x = Some (r, ps, ws, x')" and "ph' = Idle \<or> ph' = ToPump"
  shows "effect Idle ph' ws x x'"
proof (cases "closed x")
  case True
  with assms show ?thesis by (auto simp: sync_try_receive_def intro!: effect_same)
next
  case False
  with assms obtain res ps1 s where
    run: "try_receive_raw b (\<lambda>d. d) p (inner_seq x) = Some (res, ps1, s)"
    by (cases "try_receive_raw b (\<lambda>d. d) p (inner_seq x)") (auto simp: sync_try_receive_def)
  show ?thesis
  proof (cases res)
    case (Inl e)
    with False run assms show ?thesis
      by (auto simp: sync_try_receive_def intro!: effect_same)
  next
    case (Inr q)
    obtain a do_pump where "q = (a, do_pump)" by (cases q)
    with Inr False run assms show ?thesis
      by (auto simp: sync_try_receive_def notify_recv_def Let_def intro!: effect_same split: if_splits)
  qed
qed

lemma try_pump_effect:
  assumes "sync_try_pump b x = Some (r, ws, x')"
  shows "effect Idle Idle ws x x'"
proof -
  from assms obtain res s where run: "try_pump_raw b (inner_seq x) = Some (res, s)"
    by (cases "try_pump_raw b (inner_seq x)") (auto simp: sync_try_pump_def)
  show ?thesis
  proof (cases res)
    case (Inl e)
    with run assms show ?thesis by (auto simp: sync_try_pump_def intro!: effect_same)
  next
    case (Inr q)
    obtain a do_pump where "q = (a, do_pump)" by (cases q)
    with Inr run assms show ?thesis
      by (auto simp: sync_try_pump_def notify_recv_def Let_def intro!: effect_same split: if_splits)
  qed
qed

lemma plain_effect:
  "sync_try_send b t c d x = Some (r, ps, x') \<Longrightarrow> effect Idle Idle [] x x'"
  "sync_service b t x = Some (left, ps, x') \<Longrightarrow> effect Idle Idle [] x x'"
  "sync_service_scheduled b t x = Some (q, ps, x') \<Longrightarrow> effect Idle Idle [] x x'"
  "sync_close x = (ws, x') \<Longrightarrow> effect Idle Idle ws x x'"
  by (auto simp: sync_try_send_def sync_service_def sync_service_scheduled_def sync_close_def
      notify_recv_def Let_def bind_eq_Some_conv intro!: effect_same split: if_splits prod.splits)

lemma drop_effect:
  "sync_guard_drop b g x = Some (ps, ws, x') \<Longrightarrow> effect Idle Idle ws x x'"
  by (auto simp: sync_guard_drop_def Let_def bind_eq_Some_conv intro!: effect_notify
      split: prod.splits if_splits)

lemma seq_cst_drop_effect:
  "sync_seq_cst_drop g x = (ws, x') \<Longrightarrow> effect Idle Idle ws x x'"
  unfolding sync_seq_cst_drop_def
  by (erule effect_notify [of "x\<lparr>inner_seq := unlock_raw (inner_seq x)\<rparr>"]) simp_all

lemma consume_lock_effect:
  assumes "sync_consume_lock g x1 = (l, ws, x')" and "recv_waiters x1 = recv_waiters x"
    and "reply_receiver_waiters x1 = reply_receiver_waiters x"
    and "reply_sender_waiters x1 = reply_sender_waiters x"
  shows "effect Idle Idle ws x x'"
proof (cases "is_holding_lock g")
  case True
  with assms show ?thesis by (auto simp: sync_consume_lock_def intro!: effect_same)
next
  case False
  with assms(1) have "notify_reply x1 = (ws, x')"
    by (auto simp: sync_consume_lock_def split: prod.splits)
  then show ?thesis using assms(2-4) by (rule effect_notify)
qed

lemma guard_effect:
  "sync_guard_reply_with b t c f g x = Some (o1, ps, ws, x') \<Longrightarrow> effect Idle Idle ws x x'"
  "sync_guard_reply_with_stay_locked b t c f g x = Some (o2, ps, ws, x') \<Longrightarrow> effect Idle Idle ws x x'"
  "sync_guard_ack b g x = Some (l, ps, ws, x') \<Longrightarrow> effect Idle Idle ws x x'"
  "sync_guard_unlock g x = (u, g', ws, x') \<Longrightarrow> effect Idle Idle ws x x'"
proof -
  assume "sync_guard_reply_with b t c f g x = Some (o1, ps, ws, x')"
  then show "effect Idle Idle ws x x'"
    by (cases "closed x")
      (auto simp: sync_guard_reply_with_def Let_def bind_eq_Some_conv
        intro: drop_effect effect_notify split: prod.splits)
next
  assume run: "sync_guard_reply_with_stay_locked b t c f g x = Some (o2, ps, ws, x')"
  show "effect Idle Idle ws x x'"
  proof (cases "closed x")
    case True
    obtain l1 ws1 x1 where "sync_consume_lock g x = (l1, ws1, x1)" by (cases "sync_consume_lock g x")
    with run True show ?thesis
      by (auto simp: sync_guard_reply_with_stay_locked_def intro: consume_lock_effect)
  next
    case False
    with run obtain q ps1 s where reply: "reply_raw b t (guard_reply_no g) False c
        (f (seq_no_of (inner_seq x)) (guard_reply_no g)) (inner_seq x) = Some (q, ps1, s)"
      by (auto simp: sync_guard_reply_with_stay_locked_def Let_def bind_eq_Some_conv)
    obtain l1 ws1 x1 where consume: "sync_consume_lock g (x\<lparr>inner_seq := s\<rparr>) = (l1, ws1, x1)"
      by (cases "sync_consume_lock g (x\<lparr>inner_seq := s\<rparr>)")
    with run False reply have "ws1 = ws" "x1 = x'"
      by (simp_all add: sync_guard_reply_with_stay_locked_def Let_def)
    with consume_lock_effect [OF consume, of x] show ?thesis by simp
  qed
next
  assume run: "sync_guard_ack b g x = Some (l, ps, ws, x')"
  then have "\<exists>s. sync_consume_lock g (x\<lparr>inner_seq := s\<rparr>) = (l, ws, x')"
    by (cases "closed x")
      (auto simp: sync_guard_ack_def Let_def bind_eq_Some_conv split_beta prod_eq_iff
        intro: exI [of _ "inner_seq x"])
  then obtain s where "sync_consume_lock g (x\<lparr>inner_seq := s\<rparr>) = (l, ws, x')" ..
  from consume_lock_effect [OF this, of x] show "effect Idle Idle ws x x'" by simp
next
  assume "sync_guard_unlock g x = (u, g', ws, x')"
  then show "effect Idle Idle ws x x'"
    by (cases "is_holding_lock g")
      (auto simp: sync_guard_unlock_def Let_def intro: effect_notify effect_same split: prod.splits)
qed

text \<open>Every critical section.\<close>

lemma after_pump_effect:
  assumes "after_pump res sh = Some (ph', ps, ws, sh')"
  obtains r where "res = Some (r, ws, sh_inner sh')" and "ph' = pump_phase r"
  using assms by (auto simp: after_pump_def bind_eq_Some_conv split: prod.splits)

lemma act_effect:
  assumes "ready ph a" and "act b a ph sh = Some (ph', ps, ws, sh')"
    and "on_recv ph \<Longrightarrow> 0 < recv_waiters (sh_inner sh)"
  shows "effect ph ph' ws (sh_inner sh) (sh_inner sh')"
  using assms
proof (cases rule: act.cases [of "(b, a, ph, sh)"])
  case (2 b t c d ph sh)
  with assms show ?thesis
    by (auto simp: sync_send_def bind_eq_Some_conv intro: send_if_open_effect)
next
  case (3 b t0 t c timeout d ph sh)
  with assms show ?thesis
    by (auto simp: sync_send_timeout_def bind_eq_Some_conv intro: send_timeout_start_effect)
next
  case (7 b ph sh)
  with assms show ?thesis
    by (auto elim!: after_pump_effect intro: sync_pump_effect)
next
  case (17 b t t' w c d sh)
  with assms show ?thesis
    by (auto simp: bind_eq_Some_conv intro: send_woken_recv_effect)
next
  case (18 b t t' w c d sh)
  with assms show ?thesis
    by (auto simp: bind_eq_Some_conv intro: effect_from_reply [OF send_if_open_effect])
next
  case (19 b t t' w c d e sh)
  with assms show ?thesis
    by (auto simp: bind_eq_Some_conv intro: send_timeout_woken_recv_effect)
next
  case (20 b t t' w c d e sh)
  with assms show ?thesis
    by (auto simp: bind_eq_Some_conv intro: send_timeout_woken_reply_effect)
next
  case (21 b t t' w sh)
  with assms show ?thesis
    by (auto elim!: after_pump_effect intro: sync_pump_woken_effect)
next
  case (22 b t t' sh)
  with assms show ?thesis
    by (auto elim!: after_pump_effect intro: sync_pump_effect)
next
  case (11 b i ph sh)
  with assms obtain g where g: "arr_get (sh_guards sh) i = Some g"
    by (auto simp: bind_eq_Some_conv)
  obtain u g' vs x' where "sync_guard_unlock g (sh_inner sh) = (u, g', vs, x')"
    by (cases "sync_guard_unlock g (sh_inner sh)")
  with 11 assms g show ?thesis by (auto intro: guard_effect)
qed (auto simp: bind_eq_Some_conv Let_def intro: plain_effect try_receive_effect try_pump_effect
      guard_effect drop_effect seq_cst_drop_effect split: if_splits prod.splits)

end
