(* ===== verification/Wakeups.thy ===== *)
theory Wakeups
  imports Threads
begin

text \<open>
  Waiting and waking in the thread-safe API. The counters behind the mutex are shown to be exact in
  every reachable state; from that follows who is woken by which method, and which threads are not
  woken although they could go on.
\<close>

section \<open>The waiters of a reachable state\<close>

definition inner_of :: "('s, 'r) sys \<Rightarrow> ('s, 'r) inner" where
  "inner_of y = sh_inner (common y)"

definition waiters_ok :: "('s, 'r) sys \<Rightarrow> bool" where
  "waiters_ok y \<longleftrightarrow>
     recv_waiters (inner_of y) = length (filter on_recv (threads y))
   \<and> length (filter on_pump (threads y)) = of_bool (reply_receiver_waiters (inner_of y))
   \<and> (list_ex asleep_send (threads y) \<longrightarrow>
        reply_sender_waiters (inner_of y) \<or> NotifyAllReply \<in> set (pending y))"

lemma wake_up_simps [simp]:
  "on_recv (wake_up ph) = on_recv ph" "on_pump (wake_up ph) = on_pump ph"
  "\<not> asleep_send (wake_up ph)" "\<not> asleep_recv (wake_up ph)" "\<not> asleep_reply (wake_up ph)"
  by (cases ph; simp)+

lemma filter_positive: "i < length xs \<Longrightarrow> P (xs ! i) \<Longrightarrow> 0 < length (filter P xs)"
  by (metis filter_empty_conv length_greater_0_conv nth_mem)

lemma filter_same_count:
  "i < length xs \<Longrightarrow> P y = P (xs ! i) \<Longrightarrow> length (filter P (xs[i := y])) = length (filter P xs)"
  using update_count [of i xs P y] by (simp split: if_splits)

lemma filter_map_count:
  "(\<And>x. P (f x) = P x) \<Longrightarrow> length (filter P (map f xs)) = length (filter P xs)"
  by (induction xs) simp_all

lemma list_ex_update: "list_ex P (xs[i := y]) \<Longrightarrow> P y \<or> list_ex P xs"
  by (auto simp: list_ex_iff dest: set_update_subset_insert [THEN subsetD])

lemma waiters_ok_effect:
  assumes ok: "waiters_ok y" and i: "i < length (threads y)"
    and eff: "effect (threads y ! i) ph ws (inner_of y) (sh_inner sh)"
  shows "waiters_ok (y\<lparr>threads := (threads y)[i := ph], pending := pending y @ ws, common := sh\<rparr>)"
proof -
  let ?th = "threads y" and ?x = "inner_of y" and ?x' = "sh_inner sh"
  have "recv_waiters ?x' = length (filter on_recv (?th[i := ph]))"
    using ok eff update_count [OF i, of on_recv ph]
    by (auto simp: waiters_ok_def effect_def split: if_splits)
  moreover have "length (filter on_pump (?th[i := ph])) = of_bool (reply_receiver_waiters ?x')"
    using ok eff update_count [OF i, of on_pump ph] filter_positive [OF i, of on_pump]
    by (auto simp: waiters_ok_def effect_def split: if_splits)
  moreover have "reply_sender_waiters ?x' \<or> NotifyAllReply \<in> set (pending y @ ws)"
    if "list_ex asleep_send (?th[i := ph])"
    using ok eff list_ex_update [OF that]
    by (auto simp: waiters_ok_def effect_def split: if_splits)
  ultimately show ?thesis by (simp add: waiters_ok_def inner_of_def)
qed

lemma waiters_ok_woken:
  assumes ok: "waiters_ok y" and pend: "pending y = vs @ w # ws" and wake: "woken w (threads y) th"
  shows "waiters_ok (y\<lparr>threads := th, pending := vs @ ws\<rparr>)"
  using wake
proof cases
  case all_reply
  have "list_ex asleep_send th = False"
    unfolding all_reply(2) by (auto simp: list_ex_iff) (metis asleep_send.elims(2) asleep_reply.simps(1))
  moreover have "length (filter on_recv th) = length (filter on_recv (threads y))"
    "length (filter on_pump th) = length (filter on_pump (threads y))"
    unfolding all_reply(2) by (rule filter_map_count; simp)+
  ultimately show ?thesis using ok by (simp add: waiters_ok_def inner_of_def)
next
  case (one_recv i)
  then have "\<not> asleep_send (threads y ! i)" by (cases "threads y ! i") simp_all
  with one_recv ok pend show ?thesis
    using list_ex_update [of asleep_send "threads y" i "wake_up (threads y ! i)"]
    by (auto simp: waiters_ok_def inner_of_def filter_same_count)
next
  case no_recv
  with ok pend show ?thesis by (auto simp: waiters_ok_def inner_of_def)
qed

text \<open>A section that runs in a reachable state changes the counters as its phase change says.\<close>

lemma section_effect:
  assumes ok: "waiters_ok y" and i: "i < length (threads y)" and rdy: "ready (threads y ! i) a"
    and run: "act b a (threads y ! i) (common y) = Some (ph, ps, ws, sh)"
  shows "effect (threads y ! i) ph ws (inner_of y) (sh_inner sh)"
proof -
  have "0 < recv_waiters (inner_of y)" if "on_recv (threads y ! i)"
    using ok filter_positive [of i "threads y" on_recv] i that by (simp add: waiters_ok_def)
  with act_effect [OF rdy run] show ?thesis by (simp add: inner_of_def)
qed

lemma section_sender_flag:
  assumes "waiters_ok y" and "i < length (threads y)" and "ready (threads y ! i) a"
    and "act b a (threads y ! i) (common y) = Some (ph, ps, ws, sh)"
  shows "reply_sender_waiters (sh_inner sh) = (asleep_send ph
      \<or> reply_sender_waiters (inner_of y) \<and> NotifyAllReply \<notin> set ws)"
proof -
  have "\<not> asleep_send ph" if "\<not> asleep_reply ph" using that by (cases ph) simp_all
  then show ?thesis
    using section_effect [OF assms] by (auto simp: effect_def split: if_splits)
qed

lemma waiters_ok_step:
  assumes "sys_step b y z" and ok: "waiters_ok y"
  shows "waiters_ok z"
  using assms(1)
proof cases
  case (section_run i a ph ps ws sh)
  from waiters_ok_effect [OF ok section_run(2) section_effect [OF ok section_run(2-4)]] section_run(1)
  show ?thesis by simp
next
  case (delivery vs w ws th)
  then show ?thesis using waiters_ok_woken [OF ok] by simp
next
  case (self_woken i)
  then show ?thesis
    using ok list_ex_update [of asleep_send "threads y" i "wake_up (threads y ! i)"]
    by (auto simp: waiters_ok_def inner_of_def filter_same_count)
qed

lemma waiters_ok_reachable: "reachable b x y \<Longrightarrow> waiters_ok x \<Longrightarrow> waiters_ok y"
  by (induction rule: reachable.induct) (auto intro: waiters_ok_step)

lemma waiters_ok_new:
  "sync_new b cap iv n = Some x \<Longrightarrow> waiters_ok (new_sys k x)"
  by (auto simp: sync_new_def new_sys_def waiters_ok_def inner_of_def bind_eq_Some_conv list_ex_iff
      filter_replicate)


section \<open>Who releases reply waiters\<close>

text \<open>The calls that end with \<^verbatim>\<open>notify_reply\<close>.\<close>

definition holds_lock_at :: "nat \<Rightarrow> reply_guard list \<Rightarrow> bool" where
  "holds_lock_at i gs \<longleftrightarrow> i < length gs \<and> is_holding_lock (gs ! i)"

fun releasing :: "('s, 'r) action \<Rightarrow> reply_guard list \<Rightarrow> bool" where
  "releasing (CallReply i t c f) gs = True"
| "releasing (CallDrop i) gs = True"
| "releasing CallDropSeqCst gs = True"
| "releasing (CallUnlock i) gs = holds_lock_at i gs"
| "releasing (CallAck i) gs = (\<not> holds_lock_at i gs)"
| "releasing (CallReplyStay i t c f) gs = (\<not> holds_lock_at i gs)"
| "releasing _ gs = False"

definition notifies :: "('s, 'r) inner \<Rightarrow> wake list \<Rightarrow> bool" where
  "notifies x ws \<longleftrightarrow>
     ws = (if reply_sender_waiters x \<or> reply_receiver_waiters x then [NotifyAllReply] else [])"

lemma notifiesI:
  "notify_reply x1 = (ws, x') \<Longrightarrow> reply_receiver_waiters x1 = reply_receiver_waiters x \<Longrightarrow>
   reply_sender_waiters x1 = reply_sender_waiters x \<Longrightarrow> notifies x ws"
  using notify_cases(1) [of x1 ws x'] by (simp add: notifies_def)

lemma drop_notifies: "sync_guard_drop b g x = Some (ps, ws, x') \<Longrightarrow> notifies x ws"
  by (auto simp: sync_guard_drop_def Let_def bind_eq_Some_conv intro: notifiesI
      split: prod.splits if_splits)

lemma consume_notifies:
  "sync_consume_lock g x1 = (l, ws, x') \<Longrightarrow> \<not> is_holding_lock g \<Longrightarrow>
   reply_receiver_waiters x1 = reply_receiver_waiters x \<Longrightarrow>
   reply_sender_waiters x1 = reply_sender_waiters x \<Longrightarrow> notifies x ws"
  by (auto simp: sync_consume_lock_def intro: notifiesI split: prod.splits)

lemma reply_notifies:
  assumes "sync_guard_reply_with b t c f g x = Some (o1, ps, ws, x')"
  shows "notifies x ws"
  using assms by (cases "closed x")
    (auto simp: sync_guard_reply_with_def Let_def bind_eq_Some_conv
      intro: drop_notifies notifiesI split: prod.splits)

lemma ack_consumes:
  assumes "sync_guard_ack b g x = Some (l, ps, ws, x')"
  obtains s where "sync_consume_lock g (x\<lparr>inner_seq := s\<rparr>) = (l, ws, x')"
proof -
  have "\<exists>s. sync_consume_lock g (x\<lparr>inner_seq := s\<rparr>) = (l, ws, x')"
    using assms by (cases "closed x")
      (auto simp: sync_guard_ack_def Let_def bind_eq_Some_conv split_beta prod_eq_iff
        intro: exI [of _ "inner_seq x"])
  then show thesis using that by blast
qed

lemma reply_stay_consumes:
  assumes "sync_guard_reply_with_stay_locked b t c f g x = Some ((l, o2), ps, ws, x')"
  obtains s where "sync_consume_lock g (x\<lparr>inner_seq := s\<rparr>) = (l, ws, x')"
proof -
  have "\<exists>s. sync_consume_lock g (x\<lparr>inner_seq := s\<rparr>) = (l, ws, x')"
    using assms by (cases "closed x")
      (auto simp: sync_guard_reply_with_stay_locked_def Let_def bind_eq_Some_conv split_beta prod_eq_iff
        intro: exI [of _ "inner_seq x"])
  then show thesis using that by blast
qed

lemma releasing_notifies:
  assumes rel: "releasing a (sh_guards sh)" and act: "act b a ph sh = Some (ph', ps, ws, sh')"
  shows "notifies (sh_inner sh) ws"
proof (cases a)
  case (CallAck i)
  with act obtain g l where "arr_get (sh_guards sh) i = Some g"
    and run: "sync_guard_ack b g (sh_inner sh) = Some (l, ps, ws, sh_inner sh')"
    by (auto simp: bind_eq_Some_conv split: prod.splits)
  with rel CallAck have "\<not> is_holding_lock g" by (simp add: arr_get_def holds_lock_at_def split: if_splits)
  moreover obtain s where "sync_consume_lock g ((sh_inner sh)\<lparr>inner_seq := s\<rparr>) = (l, ws, sh_inner sh')"
    by (rule ack_consumes [OF run])
  ultimately show ?thesis by (auto intro: consume_notifies)
next
  case (CallReplyStay i t c f)
  with act obtain g l o2 where "arr_get (sh_guards sh) i = Some g"
    and run: "sync_guard_reply_with_stay_locked b t c f g (sh_inner sh) = Some ((l, o2), ps, ws, sh_inner sh')"
    by (auto simp: bind_eq_Some_conv split: prod.splits)
  with rel CallReplyStay have "\<not> is_holding_lock g"
    by (simp add: arr_get_def holds_lock_at_def split: if_splits)
  moreover obtain s where "sync_consume_lock g ((sh_inner sh)\<lparr>inner_seq := s\<rparr>) = (l, ws, sh_inner sh')"
    by (rule reply_stay_consumes [OF run])
  ultimately show ?thesis by (auto intro: consume_notifies)
next
  case (CallUnlock i)
  with rel act show ?thesis
    by (auto simp: arr_get_def holds_lock_at_def sync_guard_unlock_def Let_def bind_eq_Some_conv
        intro: notifiesI split: if_splits prod.splits)
qed (use rel act in \<open>auto simp: bind_eq_Some_conv sync_seq_cst_drop_def Let_def
  intro: reply_notifies drop_notifies notifiesI split: if_splits prod.splits\<close>)

lemma asleep_reply_cases: "asleep_reply ph \<Longrightarrow> asleep_send ph \<or> on_pump ph"
  by (cases ph) simp_all

lemma asleep_reply_flags:
  assumes "waiters_ok y" and "list_ex asleep_reply (threads y)"
  shows "reply_sender_waiters (inner_of y) \<or> reply_receiver_waiters (inner_of y)
    \<or> NotifyAllReply \<in> set (pending y)"
proof -
  from assms(2) obtain i where i: "i < length (threads y)" "asleep_reply (threads y ! i)"
    by (auto simp: list_ex_length)
  then consider "asleep_send (threads y ! i)" | "on_pump (threads y ! i)"
    using asleep_reply_cases by blast
  then show ?thesis
  proof cases
    case 1
    with i(1) have "list_ex asleep_send (threads y)" by (auto simp: list_ex_length)
    with assms(1) show ?thesis by (auto simp: waiters_ok_def)
  next
    case 2
    then show ?thesis
      using assms(1) filter_positive [of i "threads y" on_pump] i(1) by (auto simp: waiters_ok_def)
  qed
qed

lemma woken_reply_none: "woken NotifyAllReply th th' \<Longrightarrow> list_all (\<lambda>ph. \<not> asleep_reply ph) th'"
  by (auto simp: woken_reply_iff list_all_iff)

section \<open>Small instances\<close>

definition sync_fresh :: "nat \<Rightarrow> (nat, nat) inner" where
  "sync_fresh cap = \<lparr> inner_seq = fresh cap, recv_waiters = 0, reply_sender_waiters = False,
     reply_receiver_waiters = False, closed = False \<rparr>"

lemma sync_fresh_new:
  "sync_new b 4 250 0 = Some (sync_fresh 4)" "sync_new b 8 250 0 = Some (sync_fresh 8)"
  by (simp_all add: sync_new_def sync_fresh_def fresh_new_small)

text \<open>A run given by what is seen of its last state.\<close>

lemma observed_run:
  assumes "map_option (\<lambda>(us, y). obs y) (run step evs x) = Some v"
  obtains us y where "run step evs x = Some (us, y)" and "obs y = v"
  using assms by auto

text \<open>Four packets fill the window; then threads 0 and 1 wait for an acknowledgement.\<close>

definition two_waiting :: "(nat, nat) event list" where
  "two_waiting =
     [Section 2 (CallTrySend 0 False 1), Section 2 (CallTrySend 0 False 2),
      Section 2 (CallTrySend 0 False 3), Section 2 (CallTrySend 0 False 4),
      Section 0 (CallSend 0 False 5), Section 1 (CallSend 0 False 6)]"

text \<open>Thread 1 waits to pump the SeqCst packet behind the one that thread 0 is processing.\<close>

definition one_pumping :: "(nat, nat) event list" where
  "one_pumping =
     [Section 0 (CallReceive (SeqCstPayload 0 1)), Section 1 (CallReceive (SeqCstPayload 1 2)),
      Section 1 (Continue 0 0)]"

section \<open>Properties\<close>

text \<open>
  C28. The waiter counts are exact. In every state that threads using a new instance can reach,
  \<^verbatim>\<open>recv_waiters\<close> is the number of sends between their wait and their wake-up, so
  it never underflows; at most one thread waits to pump, and one does exactly while the flag is
  set. Every section leaves \<^verbatim>\<open>reply_sender_waiters\<close> set exactly if it puts a send
  to sleep on \<^verbatim>\<open>wait_on_reply\<close>, or finds the flag set and does not notify; so a send
  asleep there is announced by the flag or about to be notified.
\<close>

theorem waiter_counts_exact:
  assumes "sync_new b0 cap iv n = Some x" and "reachable b (new_sys k x) y"
  shows "recv_waiters (inner_of y) = length (filter on_recv (threads y))
    \<and> length (filter on_pump (threads y)) = of_bool (reply_receiver_waiters (inner_of y))
    \<and> (list_ex asleep_send (threads y) \<longrightarrow>
          reply_sender_waiters (inner_of y) \<or> NotifyAllReply \<in> set (pending y))
    \<and> (\<forall>i a ph ps ws sh. i < length (threads y) \<longrightarrow> ready (threads y ! i) a \<longrightarrow>
          act b a (threads y ! i) (common y) = Some (ph, ps, ws, sh) \<longrightarrow>
          reply_sender_waiters (sh_inner sh) = (asleep_send ph
            \<or> reply_sender_waiters (inner_of y) \<and> NotifyAllReply \<notin> set ws))"
proof -
  have ok: "waiters_ok y" by (rule waiters_ok_reachable [OF assms(2) waiters_ok_new [OF assms(1)]])
  with section_sender_flag [OF ok] show ?thesis unfolding waiters_ok_def by blast
qed

theorem waiter_counts_exact_witness:
  "\<exists>y. reachable Debug (new_sys 3 (sync_fresh 4)) y
    \<and> recv_waiters (inner_of y) = 2 \<and> length (filter on_recv (threads y)) = 2"
proof -
  have "map_option (\<lambda>(us, y). recv_waiters (inner_of y))
      (run (sys_exec Debug) two_waiting (new_sys 3 (sync_fresh 4))) = Some 2"
    by code_simp
  then obtain us y where "run (sys_exec Debug) two_waiting (new_sys 3 (sync_fresh 4)) = Some (us, y)"
    and two: "recv_waiters (inner_of y) = 2" by (rule observed_run)
  then have "reachable Debug (new_sys 3 (sync_fresh 4)) y" using schedule_reachable by blast
  with waiter_counts_exact [OF sync_fresh_new(1) this] two show ?thesis by auto
qed

text \<open>
  C29. No lost wake-up on replies. Whoever is asleep on \<^verbatim>\<open>wait_on_reply\<close> when a
  guard is dropped or replied to, a lock is released, or a guard that does not hold the lock is used up by
  \<^verbatim>\<open>ack\<close> or \<^verbatim>\<open>reply_stay_locked\<close>, has a notification on its way, and after its
  delivery nobody sleeps there.
\<close>

theorem release_wakes_reply_waiters:
  assumes "sync_new b0 cap iv n = Some x" and "reachable b (new_sys k x) y"
    and "list_ex asleep_reply (threads y)" and "releasing a (sh_guards (common y))"
    and "act b a ph (common y) = Some (ph', ps, ws, sh)"
  shows "NotifyAllReply \<in> set (pending y @ ws)
    \<and> (\<forall>th th'. woken NotifyAllReply th th' \<longrightarrow> list_all (\<lambda>ph. \<not> asleep_reply ph) th')"
proof -
  have "waiters_ok y" by (rule waiters_ok_reachable [OF assms(2) waiters_ok_new [OF assms(1)]])
  from asleep_reply_flags [OF this assms(3)] releasing_notifies [OF assms(4,5)]
  show ?thesis using woken_reply_none by (auto simp: notifies_def inner_of_def)
qed

theorem release_wakes_reply_waiters_witness:
  "\<exists>y ph ps ws sh. reachable Debug (new_sys 2 (sync_fresh 8)) y
    \<and> act Debug (CallDrop 0) Idle (common y) = Some (ph, ps, ws, sh)
    \<and> NotifyAllReply \<in> set (pending y @ ws)"
proof -
  have "map_option (\<lambda>(us, y). (list_ex asleep_reply (threads y),
        act Debug (CallDrop 0) Idle (common y) \<noteq> None))
      (run (sys_exec Debug) one_pumping (new_sys 2 (sync_fresh 8))) = Some (True, True)"
    by code_simp
  then obtain us y where "run (sys_exec Debug) one_pumping (new_sys 2 (sync_fresh 8)) = Some (us, y)"
    and seen: "(list_ex asleep_reply (threads y), act Debug (CallDrop 0) Idle (common y) \<noteq> None)
      = (True, True)"
    by (rule observed_run)
  then have reach: "reachable Debug (new_sys 2 (sync_fresh 8)) y" using schedule_reachable by blast
  from seen obtain ph ps ws sh where
    drop: "act Debug (CallDrop 0) Idle (common y) = Some (ph, ps, ws, sh)" by auto
  have "releasing (CallDrop 0 :: (nat, nat) action) (sh_guards (common y))" by simp
  from release_wakes_reply_waiters [OF sync_fresh_new(2) reach _ this drop] seen reach drop
  show ?thesis by blast
qed

end
