(* ===== verification/Sync_Safety.thy ===== *)
theory Sync_Safety
  imports Wakeups
begin

text \<open>
  Safety of the thread-safe API. While an instance is open, every critical section is one call of
  the single-threaded API, so an interleaving of threads is a session and inherits its invariant;
  what remains of it after \<^verbatim>\<open>close\<close> is proved here.
\<close>

section \<open>The call a critical section makes\<close>

definition sess_of :: "('s, 'r) shared \<Rightarrow> ('s, 'r) session" where
  "sess_of sh = \<lparr> sess_seq = inner_seq (sh_inner sh), sess_guards = sh_guards sh,
     seq_cst_guards = sh_locks sh \<rparr>"

definition pump_call :: "('s, 'r) inner \<Rightarrow> ('s, 'r) api_call option" where
  "pump_call x = (if reply_receiver_waiters x then None else Some ApiPump)"

fun section_call :: "('s, 'r) action \<Rightarrow> 's phase \<Rightarrow> ('s, 'r) inner \<Rightarrow> ('s, 'r) api_call option" where
  "section_call (CallTrySend t c d) ph x = Some (ApiSend t c d)"
| "section_call (CallSend t c d) ph x = Some (ApiSend t c d)"
| "section_call (CallSendTimeout t0 t c timeout d) ph x = Some (ApiSend t c d)"
| "section_call (CallTryReceive p) ph x = Some (ApiReceive p)"
| "section_call (CallReceive p) ph x = Some (ApiReceive p)"
| "section_call CallTryPump ph x = Some ApiPump"
| "section_call CallPump ph x = pump_call x"
| "section_call (CallReply i t c f) ph x = Some (ApiReply i t c f)"
| "section_call (CallReplyStay i t c f) ph x = Some (ApiReplyStay i t c f)"
| "section_call (CallAck i) ph x = Some (ApiAck i)"
| "section_call (CallUnlock i) ph x = Some (ApiUnlock i)"
| "section_call (CallDrop i) ph x = Some (ApiDrop i)"
| "section_call CallDropSeqCst ph x = Some ApiDropSeqCst"
| "section_call (CallService t) ph x = Some (ApiService t)"
| "section_call (CallServiceScheduled t) ph x = Some (ApiServiceDirect t)"
| "section_call CallClose ph x = None"
| "section_call (Continue t t') (SendOnRecv w c d None) x = Some (ApiSend t' c d)"
| "section_call (Continue t t') (SendOnReply w c d None) x = Some (ApiSend t' c d)"
| "section_call (Continue t t') (SendOnRecv w c d (Some e)) x =
     (if sint e \<le> sint t then None else Some (ApiSend t' c d))"
| "section_call (Continue t t') (SendOnReply w c d (Some e)) x =
     (if sint e \<le> sint t then None else Some (ApiSend t' c d))"
| "section_call (Continue t t') (PumpOnReply w) x = Some ApiPump"
| "section_call (Continue t t') ToPump x = pump_call x"
| "section_call (Continue t t') Idle x = None"

definition opt_step :: "build \<Rightarrow> ('s, 'r) api_call option \<Rightarrow> ('s, 'r) session \<Rightarrow>
    ('s packet list \<times> ('s, 'r) session) option" where
  "opt_step b c x = (case c of None \<Rightarrow> Some ([], x) | Some c \<Rightarrow> api_step b c x)"

text \<open>
  The same call on a closed session: nothing is sent or received, and a guard is used up without
  an answer; pumping, unlocking and \<^verbatim>\<open>service\<close> go on as before.
\<close>

definition use_up :: "nat \<Rightarrow> (reply_guard \<Rightarrow> nat) \<Rightarrow> ('s, 'r) session \<Rightarrow>
    ('s packet list \<times> ('s, 'r) session) option" where
  "use_up i k x = do {
     g \<leftarrow> arr_get (sess_guards x) i;
     Some ([], x\<lparr>sess_guards := remove_at i (sess_guards x), seq_cst_guards := seq_cst_guards x + k g\<rparr>)
   }"

fun shut_step :: "build \<Rightarrow> ('s, 'r) api_call \<Rightarrow> ('s, 'r) session \<Rightarrow>
    ('s packet list \<times> ('s, 'r) session) option" where
  "shut_step b (ApiSend t c d) x = Some ([], x)"
| "shut_step b (ApiReceive p) x = Some ([], x)"
| "shut_step b (ApiServiceDirect t) x = Some ([], x)"
| "shut_step b (ApiReply i t c f) x = use_up i (\<lambda>_. 0) x"
| "shut_step b (ApiDrop i) x = use_up i (\<lambda>_. 0) x"
| "shut_step b (ApiReplyStay i t c f) x = use_up i (\<lambda>g. kept_lock (consume_lock g)) x"
| "shut_step b (ApiAck i) x = use_up i (\<lambda>g. kept_lock (consume_lock g)) x"
| "shut_step b c x = api_step b c x"

definition shut_opt_step :: "build \<Rightarrow> ('s, 'r) api_call option \<Rightarrow> ('s, 'r) session \<Rightarrow>
    ('s packet list \<times> ('s, 'r) session) option" where
  "shut_opt_step b c x = (case c of None \<Rightarrow> Some ([], x) | Some c \<Rightarrow> shut_step b c x)"

text \<open>The time left of a timed send is computed without overflow.\<close>

fun deadline_ok :: "build \<Rightarrow> ('s, 'r) action \<Rightarrow> 's phase \<Rightarrow> bool" where
  "deadline_ok b (Continue t t') (SendOnRecv w c d (Some e)) =
     (b = Debug \<longrightarrow> sint t < sint e \<longrightarrow> i64_in_range (sint e - sint t))"
| "deadline_ok b (Continue t t') (SendOnReply w c d (Some e)) =
     (b = Debug \<longrightarrow> sint t < sint e \<longrightarrow> i64_in_range (sint e - sint t))"
| "deadline_ok b a ph = True"

text \<open>What a section puts on the wire, and the session after it.\<close>

definition visible :: "('s phase \<times> 's packet list \<times> wake list \<times> ('s, 'r) shared) option \<Rightarrow>
    ('s packet list \<times> ('s, 'r) session) option" where
  "visible r = map_option (\<lambda>(ph, ps, ws, sh). (ps, sess_of sh)) r"

lemma visible_simps [simp]:
  "visible None = None" "visible (Some (ph, ps, ws, sh)) = Some (ps, sess_of sh)"
  by (simp_all add: visible_def)

lemma sess_of_simps [simp]:
  "sess_seq (sess_of sh) = inner_seq (sh_inner sh)"
  "sess_guards (sess_of sh) = sh_guards sh"
  "seq_cst_guards (sess_of sh) = sh_locks sh"
  by (simp_all add: sess_of_def)

lemma map_eq_cases:
  assumes "map_option f p = map_option g q"
  obtains "p = None" and "q = None" | x y where "p = Some x" and "q = Some y" and "f x = g y"
  using assms by (cases p; cases q) auto

section \<open>Sends\<close>

lemma send_loop_seq:
  "map_option (\<lambda>(r, d', ps, x'). (ps, inner_seq x')) (send_loop send1 d x)
     = map_option (\<lambda>(res, ps, s). (ps, s)) (send1 d (inner_seq x))"
  by (cases "send1 d (inner_seq x)")
    (auto simp: send_loop_def Let_def split: sum.split try_error.split)

lemma send_timeout_loop_seq:
  assumes "b = Debug \<longrightarrow> i64_in_range (sint e - sint t)"
  shows "map_option (\<lambda>(r, d', ps, x'). (ps, inner_seq x')) (send_timeout_loop b send1 e t d x)
     = map_option (\<lambda>(res, ps, s). (ps, s)) (send1 d (inner_seq x))"
proof -
  have "i64_sub b e t = Some (e - t)" using assms by (cases b) auto
  then show ?thesis
    by (cases "send1 d (inner_seq x)")
      (auto simp: send_timeout_loop_def Let_def split: sum.split try_error.split)
qed

lemma saturated_deadline: "i64_in_range (sint (i64_saturating_add t timeout) - sint t)"
proof -
  consider "2 ^ 63 \<le> sint t + sint timeout" | "sint t + sint timeout < - (2 ^ 63)"
    | "i64_in_range (sint t + sint timeout)"
    unfolding i64_in_range_def by linarith
  then show ?thesis
  proof cases
    case 3
    from timer_time [OF 3] 3 show ?thesis
      using sint_i64 [of timeout] by (auto simp: i64_saturating_add_def i64_in_range_def)
  qed (use sint_i64 [of t] sint_i64 [of timeout] in
      \<open>auto simp: i64_saturating_add_def i64_in_range_def i64_max_def\<close>)
qed

lemma send_if_open_seq:
  assumes "\<not> closed x"
  shows "map_option (\<lambda>(r, d', ps, x'). (ps, inner_seq x')) (send_if_open send1 d x)
     = map_option (\<lambda>(res, ps, s). (ps, s)) (send1 d (inner_seq x))"
  using assms send_loop_seq by (simp add: send_if_open_def)

section \<open>Receiving\<close>

lemma try_receive_seq:
  assumes "\<not> closed x"
  shows "map_option (\<lambda>(r, ps, ws, x'). (received_guards r, ps, inner_seq x')) (sync_try_receive b p x)
     = map_option (\<lambda>(r, ps, s). (received_guards r, ps, s)) (receive b p (inner_seq x))"
proof (cases "try_receive_raw b (\<lambda>d. d) p (inner_seq x)")
  case (Some q)
  obtain res ps s where "q = (res, ps, s)" by (cases q)
  with Some assms show ?thesis
    by (cases res) (auto simp: sync_try_receive_def receive_def notify_recv_def Let_def
        simp del: received_guards.simps(1) split: prod.split)
qed (use assms in \<open>simp add: sync_try_receive_def receive_def\<close>)

lemma try_pump_seq:
  "map_option (\<lambda>(r, ws, x'). (received_guards r, inner_seq x')) (sync_try_pump b x)
     = map_option (\<lambda>(r, s). (received_guards r, s)) (try_pump b (inner_seq x))"
proof (cases "try_pump_raw b (inner_seq x)")
  case (Some q)
  obtain res s where "q = (res, s)" by (cases q)
  with Some show ?thesis
    by (cases res) (auto simp: sync_try_pump_def try_pump_def notify_recv_def Let_def
        simp del: received_guards.simps(1) split: prod.split)
qed (simp add: sync_try_pump_def try_pump_def)

lemma pump_loop_seq:
  "map_option (\<lambda>(r, ws, x'). (pumped_guards r, inner_seq x')) (pump_loop b x)
     = map_option (\<lambda>(r, s). (received_guards r, s)) (try_pump b (inner_seq x))"
proof (cases "try_pump_raw b (inner_seq x)")
  case (Some q)
  obtain res s where q: "q = (res, s)" by (cases q)
  show ?thesis
  proof (cases res)
    case (Inl e)
    with Some q show ?thesis by (cases e) (auto simp: pump_loop_def try_pump_def)
  next
    case (Inr a)
    with Some q show ?thesis
      by (auto simp: pump_loop_def try_pump_def notify_recv_def Let_def
          simp del: received_guards.simps(1) split: prod.split)
  qed
qed (simp add: pump_loop_def try_pump_def)

lemma after_pump_visible:
  assumes "map_option (\<lambda>(r, ws, x'). (pumped_guards r, inner_seq x')) res
     = map_option (\<lambda>(r, s). (received_guards r, s)) (try_pump b (inner_seq (sh_inner sh)))"
  shows "visible (after_pump res sh) = api_step b ApiPump (sess_of sh)"
  using assms by (rule map_eq_cases) (auto simp: after_pump_def sess_of_def)

lemma sync_pump_visible:
  "visible (after_pump (sync_pump b (sh_inner sh)) sh)
     = opt_step b (pump_call (sh_inner sh)) (sess_of sh)"
proof (cases "reply_receiver_waiters (sh_inner sh)")
  case True
  then show ?thesis
    by (simp add: sync_pump_def after_pump_def pump_call_def opt_step_def sess_of_def)
next
  case False
  with after_pump_visible [OF pump_loop_seq] show ?thesis
    by (simp add: sync_pump_def pump_call_def opt_step_def del: api_step.simps)
qed

lemma sync_pump_woken_visible:
  "visible (after_pump (sync_pump_woken b (sh_inner sh)) sh) = api_step b ApiPump (sess_of sh)"
  by (rule after_pump_visible)
    (simp add: sync_pump_woken_def pump_loop_seq [of b "sh_inner sh\<lparr>reply_receiver_waiters := False\<rparr>", simplified])

section \<open>Every section of an open instance\<close>

lemma visible_send:
  assumes "map_option (\<lambda>(r, d', ps, x'). (ps, inner_seq x')) m
     = map_option (\<lambda>(res, ps, s). (ps, s)) (try_send b t c d (inner_seq (sh_inner sh)))"
  shows "visible (do { (r, d', ps, x) \<leftarrow> m; Some (f r d', ps, [], sh\<lparr>sh_inner := x\<rparr>) })
    = api_step b (ApiSend t c d) (sess_of sh)"
  using assms by (rule map_eq_cases) (auto simp: sess_of_def)

lemma visible_receive:
  assumes "\<not> closed (sh_inner sh)"
  shows "visible (do {
      (r, ps, ws, x) \<leftarrow> sync_try_receive b p (sh_inner sh);
      Some (f r, ps, ws, sh\<lparr>sh_inner := x, sh_guards := sh_guards sh @ received_guards r\<rparr>)
    }) = api_step b (ApiReceive p) (sess_of sh)"
  by (rule map_eq_cases [OF try_receive_seq [OF assms, of b p]]) (auto simp: sess_of_def)

lemma visible_try_pump:
  "visible (act b CallTryPump ph sh) = api_step b ApiPump (sess_of sh)"
  by (rule map_eq_cases [OF try_pump_seq [of b "sh_inner sh"]]) (auto simp: sess_of_def)

lemma notify_reply_seq:
  "notify_reply x = (ws, x') \<Longrightarrow> inner_seq x' = inner_seq x \<and> closed x' = closed x"
  using notify_cases(1) by blast

lemma consume_lock_seq:
  "sync_consume_lock g x = (l, ws, x') \<Longrightarrow> l = consume_lock g \<and> inner_seq x' = inner_seq x"
  by (auto simp: sync_consume_lock_def consume_lock_def split: if_splits prod.splits
      dest: notify_reply_seq)

lemma visible_drop:
  assumes "\<not> closed (sh_inner sh)"
  shows "visible (act b (CallDrop i) ph sh) = api_step b (ApiDrop i) (sess_of sh)"
proof (cases "arr_get (sh_guards sh) i")
  case (Some g)
  with assms show ?thesis
    by (cases "ack_raw b (guard_reply_no g) (is_holding_lock g) (inner_seq (sh_inner sh))")
      (auto simp: sync_guard_drop_def guard_drop_def sess_of_def dest: notify_reply_seq
        split: prod.split)
qed simp

lemma visible_ack:
  assumes "\<not> closed (sh_inner sh)"
  shows "visible (act b (CallAck i) ph sh) = api_step b (ApiAck i) (sess_of sh)"
proof (cases "arr_get (sh_guards sh) i")
  case (Some g)
  with assms show ?thesis
    by (cases "ack_raw b (guard_reply_no g) False (inner_seq (sh_inner sh))")
      (auto simp: sync_guard_ack_def guard_ack_def sess_of_def dest: consume_lock_seq
        split: prod.split)
qed simp

lemma visible_reply:
  assumes "\<not> closed (sh_inner sh)"
  shows "visible (act b (CallReply i t c f) ph sh) = api_step b (ApiReply i t c f) (sess_of sh)"
proof (cases "arr_get (sh_guards sh) i")
  case (Some g)
  with assms show ?thesis
    by (cases "reply_raw b t (guard_reply_no g) (is_holding_lock g) c
        (f (seq_no_of (inner_seq (sh_inner sh))) (guard_reply_no g)) (inner_seq (sh_inner sh))")
      (auto simp: sync_guard_reply_with_def guard_reply_with_def sess_of_def Let_def
        dest: notify_reply_seq split: prod.split)
qed simp

lemma visible_reply_stay:
  assumes "\<not> closed (sh_inner sh)"
  shows "visible (act b (CallReplyStay i t c f) ph sh) = api_step b (ApiReplyStay i t c f) (sess_of sh)"
proof (cases "arr_get (sh_guards sh) i")
  case (Some g)
  with assms show ?thesis
    by (cases "reply_raw b t (guard_reply_no g) False c
        (f (seq_no_of (inner_seq (sh_inner sh))) (guard_reply_no g)) (inner_seq (sh_inner sh))")
      (auto simp: sync_guard_reply_with_stay_locked_def guard_reply_with_stay_locked_def sess_of_def
        Let_def dest: consume_lock_seq split: prod.split)
qed simp

lemma visible_unlock:
  "visible (act b (CallUnlock i) ph sh) = api_step b (ApiUnlock i) (sess_of sh)"
proof (cases "arr_get (sh_guards sh) i")
  case (Some g)
  then show ?thesis
    by (cases "is_holding_lock g")
      (auto simp: sync_guard_unlock_def guard_unlock_def sess_of_def Let_def
        dest: notify_reply_seq split: prod.split)
qed simp

lemma visible_drop_seq_cst:
  "visible (act b CallDropSeqCst ph sh) = api_step b ApiDropSeqCst (sess_of sh)"
  by (auto simp: sync_seq_cst_drop_def seq_cst_guard_drop_def sess_of_def Let_def
      dest: notify_reply_seq split: prod.split)

lemma visible_try_send:
  assumes "\<not> closed (sh_inner sh)"
  shows "visible (act b (CallTrySend t c d) ph sh) = api_step b (ApiSend t c d) (sess_of sh)"
  using assms
  by (cases "try_send b t c d (inner_seq (sh_inner sh))")
    (auto simp: sync_try_send_def sess_of_def Let_def)

lemma visible_service:
  "visible (act b (CallService t) ph sh) = api_step b (ApiService t) (sess_of sh)"
  by (cases "service b t (inner_seq (sh_inner sh))") (auto simp: sync_service_def sess_of_def)

lemma visible_service_scheduled:
  assumes "\<not> closed (sh_inner sh)"
  shows "visible (act b (CallServiceScheduled t) ph sh) = api_step b (ApiServiceDirect t) (sess_of sh)"
  using assms
  by (cases "service_loop b t None (inner_seq (sh_inner sh))")
    (auto simp: sync_service_scheduled_def sess_of_def)

lemma visible_close: "visible (act b CallClose ph sh) = Some ([], sess_of sh)"
  by (auto simp: sync_close_def notify_recv_def sess_of_def split: prod.split)

lemma timed_return_visible:
  "visible (Some (ph, [], ws, sh\<lparr>sh_inner := sh_inner sh\<lparr>recv_waiters := k\<rparr>\<rparr>)) = Some ([], sess_of sh)"
  by (simp add: sess_of_def)

lemma open_section_visible:
  assumes opn: "\<not> closed (sh_inner sh)" and "ready ph a" and "deadline_ok b a ph"
    and "on_recv ph \<Longrightarrow> 0 < recv_waiters (sh_inner sh)"
  shows "visible (act b a ph sh) = opt_step b (section_call a ph (sh_inner sh)) (sess_of sh)"
proof (cases rule: act.cases [of "(b, a, ph, sh)"])
  case (2 b' t c d ph' sh')
  with opn visible_send [OF send_if_open_seq [OF opn, of "try_send b t c" d], of "send_phase c"] show ?thesis
    by (simp add: sync_send_def opt_step_def del: api_step.simps)
next
  case (3 b' t0 t c timeout d ph' sh')
  let ?e = "i64_saturating_add t0 timeout"
  have "map_option (\<lambda>(r, d', ps, x'). (ps, inner_seq x'))
      (send_timeout_loop b (try_send b t c) ?e t0 d (sh_inner sh))
    = map_option (\<lambda>(res, ps, s). (ps, s)) (try_send b t c d (inner_seq (sh_inner sh)))"
    by (rule send_timeout_loop_seq) (simp add: saturated_deadline)
  from visible_send [OF this, of "timed_phase c ?e"] 3 opn show ?thesis
    by (simp add: sync_send_timeout_def send_timeout_start_def opt_step_def del: api_step.simps)
next
  case (17 b' t t' w c d sh')
  then have "\<not> closed (sh_inner sh\<lparr>recv_waiters := recv_waiters (sh_inner sh) - 1\<rparr>)"
    using opn by simp
  from send_if_open_seq [OF this, of "try_send b t' c" d]
  have "map_option (\<lambda>(r, d', ps, x'). (ps, inner_seq x'))
      (send_woken_recv b (try_send b t' c) d (sh_inner sh))
    = map_option (\<lambda>(res, ps, s). (ps, s)) (try_send b t' c d (inner_seq (sh_inner sh)))"
    using 17 assms(4) by (simp add: send_woken_recv_def)
  from visible_send [OF this, of "send_phase c"] 17 show ?thesis
    by (simp add: opt_step_def del: api_step.simps)
next
  case (18 b' t t' w c d sh')
  with visible_send [OF send_if_open_seq [OF opn, of "try_send b t' c" d], of "send_phase c"] show ?thesis
    by (simp add: opt_step_def del: api_step.simps)
next
  case (19 b' t t' w c d e sh')
  let ?x = "sh_inner sh\<lparr>recv_waiters := recv_waiters (sh_inner sh) - 1\<rparr>"
  show ?thesis
  proof (cases "sint e \<le> sint t")
    case True
    with 19 assms(4) show ?thesis
      by (simp add: send_timeout_woken_recv_def opt_step_def sess_of_def)
  next
    case False
    with 19 assms(3) send_timeout_loop_seq [of b e t "try_send b t' c" d ?x]
    have "map_option (\<lambda>(r, d', ps, x'). (ps, inner_seq x'))
        (send_timeout_woken_recv b (try_send b t' c) e t d (sh_inner sh))
      = map_option (\<lambda>(res, ps, s). (ps, s)) (try_send b t' c d (inner_seq (sh_inner sh)))"
      using 19 assms(4) opn by (simp add: send_timeout_woken_recv_def)
    from visible_send [OF this, of "timed_phase c e"] 19 False show ?thesis
      by (simp add: opt_step_def del: api_step.simps)
  qed
next
  case (20 b' t t' w c d e sh')
  show ?thesis
  proof (cases "sint e \<le> sint t")
    case True
    with 20 show ?thesis by (simp add: send_timeout_woken_reply_def opt_step_def sess_of_def)
  next
    case False
    with 20 assms(3) send_timeout_loop_seq [of b e t "try_send b t' c" d "sh_inner sh"]
    have "map_option (\<lambda>(r, d', ps, x'). (ps, inner_seq x'))
        (send_timeout_woken_reply b (try_send b t' c) e t d (sh_inner sh))
      = map_option (\<lambda>(res, ps, s). (ps, s)) (try_send b t' c d (inner_seq (sh_inner sh)))"
      using 20 opn by (simp add: send_timeout_woken_reply_def)
    from visible_send [OF this, of "timed_phase c e"] 20 False show ?thesis
      by (simp add: opt_step_def del: api_step.simps)
  qed
next
  case (4 b' p ph' sh')
  with visible_receive [OF opn, of b p "\<lambda>_. Idle"] show ?thesis
    by (simp add: opt_step_def del: api_step.simps)
next
  case (5 b' p ph' sh')
  with visible_receive [OF opn, of b p "\<lambda>r. if receive_match r = None then ToPump else Idle"]
  show ?thesis by (simp add: opt_step_def del: api_step.simps)
qed (use opn assms(2) sync_pump_visible sync_pump_woken_visible visible_try_pump visible_drop visible_ack
    visible_reply visible_reply_stay visible_unlock visible_drop_seq_cst visible_try_send
    visible_service visible_service_scheduled visible_close in
    \<open>simp_all add: opt_step_def del: api_step.simps act.simps(1,6,8-16)\<close>)

section \<open>After close\<close>

lemma closed_methods [simp]:
  assumes "closed x"
  shows "sync_try_send b t c d x = Some (Inl (SendClosed, d), [], x)"
    and "send_if_open send1 d1 x = Some (Return (Inl ClosedError), d1, [], x)"
    and "send_timeout_start b send1 timeout t d1 x = Some (TimedReturn (Inl (SendClosed, d1)), d1, [], x)"
    and "sync_try_receive b p x = Some (Inl SyncClosed, [], [], x)"
    and "sync_service_scheduled b t x = Some (Inl ClosedError, [], x)"
  using assms
  by (simp_all add: sync_try_send_def send_if_open_def send_timeout_start_def sync_try_receive_def
      sync_service_scheduled_def)

lemma pump_loop_closed:
  assumes "pump_loop b x = Some (r, ws, x')"
  shows "closed x' = closed x"
proof -
  from assms obtain res s where run: "try_pump_raw b (inner_seq x) = Some (res, s)"
    by (cases "try_pump_raw b (inner_seq x)") (auto simp: pump_loop_def)
  show ?thesis
  proof (cases res)
    case (Inl e)
    with run assms show ?thesis by (cases e) (auto simp: pump_loop_def)
  next
    case (Inr q)
    with run assms show ?thesis
      by (cases q) (auto simp: pump_loop_def notify_recv_def Let_def split: if_splits)
  qed
qed

lemma after_pump_closed:
  assumes "after_pump res sh = Some (ph', ps, ws, sh')"
    and "\<And>r ws x'. res = Some (r, ws, x') \<Longrightarrow> closed x'"
  shows "closed (sh_inner sh')"
  using assms by (auto simp: after_pump_def bind_eq_Some_conv)

lemma try_pump_closed:
  assumes "sync_try_pump b x = Some (r, ws, x')"
  shows "closed x' = closed x"
proof -
  from assms obtain res s where run: "try_pump_raw b (inner_seq x) = Some (res, s)"
    by (cases "try_pump_raw b (inner_seq x)") (auto simp: sync_try_pump_def)
  with assms show ?thesis
    by (cases res) (auto simp: sync_try_pump_def notify_recv_def Let_def split: if_splits)
qed

lemma consume_lock_closed: "sync_consume_lock g x = (l, ws, x') \<Longrightarrow> closed x' = closed x"
  by (auto simp: sync_consume_lock_def dest: notify_reply_seq split: if_splits prod.splits)

lemma stays_closed:
  assumes act: "act b a ph sh = Some (ph', ps, ws, sh')" and shut: "closed (sh_inner sh)"
  shows "closed (sh_inner sh')"
proof (cases rule: act.cases [of "(b, a, ph, sh)"])
  case (6 b ph sh)
  with assms show ?thesis by (auto simp: bind_eq_Some_conv try_pump_closed)
next
  case (7 b ph sh)
  with assms show ?thesis
    by (auto elim!: after_pump_closed simp: sync_pump_def pump_loop_closed split: if_splits)
next
  case (9 b i t c f ph sh)
  with assms obtain g l o2 x' where sh': "sh_inner sh' = x'"
    and run: "sync_guard_reply_with_stay_locked b t c f g (sh_inner sh) = Some ((l, o2), ps, ws, x')"
    by (auto simp: bind_eq_Some_conv)
  obtain s where "sync_consume_lock g (sh_inner sh\<lparr>inner_seq := s\<rparr>) = (l, ws, x')"
    by (rule reply_stay_consumes [OF run])
  with 9 assms sh' show ?thesis by (auto dest: consume_lock_closed)
next
  case (10 b i ph sh)
  with assms obtain g l x' where sh': "sh_inner sh' = x'"
    and run: "sync_guard_ack b g (sh_inner sh) = Some (l, ps, ws, x')"
    by (auto simp: bind_eq_Some_conv)
  obtain s where "sync_consume_lock g (sh_inner sh\<lparr>inner_seq := s\<rparr>) = (l, ws, x')"
    by (rule ack_consumes [OF run])
  with 10 assms sh' show ?thesis by (auto dest: consume_lock_closed)
next
  case (21 b t t' w sh)
  with assms show ?thesis
    by (auto elim!: after_pump_closed simp: sync_pump_woken_def dest!: pump_loop_closed)
next
  case (22 b t t' sh)
  with assms show ?thesis
    by (auto elim!: after_pump_closed simp: sync_pump_def pump_loop_closed split: if_splits)
qed (use assms in \<open>auto simp: sync_send_def sync_send_timeout_def bind_eq_Some_conv Let_def
    sync_guard_drop_def sync_guard_reply_with_def sync_guard_unlock_def sync_seq_cst_drop_def sync_service_def sync_close_def
    notify_recv_def send_woken_recv_def send_timeout_woken_recv_def send_timeout_woken_reply_def
    dest!: notify_reply_seq consume_lock_closed split: if_splits prod.splits\<close>)


text \<open>Every section of a closed instance.\<close>

lemma closed_consume_visible:
  assumes "closed (sh_inner sh)"
  shows "visible (act b (CallAck i) ph sh) = shut_step b (ApiAck i) (sess_of sh)"
    and "visible (act b (CallReplyStay i t c f) ph sh) = shut_step b (ApiReplyStay i t c f) (sess_of sh)"
    and "visible (act b (CallDrop i) ph sh) = shut_step b (ApiDrop i) (sess_of sh)"
    and "visible (act b (CallReply i t c f) ph sh) = shut_step b (ApiReply i t c f) (sess_of sh)"
  using assms
  by (cases "arr_get (sh_guards sh) i";
      auto simp: sync_guard_ack_def sync_guard_reply_with_stay_locked_def sync_guard_drop_def
        sync_guard_reply_with_def use_up_def sess_of_def dest: consume_lock_seq notify_reply_seq
        split: prod.split)+

lemma closed_section_visible:
  assumes shut: "closed (sh_inner sh)" and "ready ph a"
    and "on_recv ph \<Longrightarrow> 0 < recv_waiters (sh_inner sh)"
  shows "visible (act b a ph sh) = shut_opt_step b (section_call a ph (sh_inner sh)) (sess_of sh)"
proof (cases rule: act.cases [of "(b, a, ph, sh)"])
  case (7 b' ph' sh')
  with sync_pump_visible [of b sh] show ?thesis
    by (simp add: shut_opt_step_def opt_step_def pump_call_def del: api_step.simps)
next
  case (22 b' t t' sh')
  with sync_pump_visible [of b sh] show ?thesis
    by (simp add: shut_opt_step_def opt_step_def pump_call_def del: api_step.simps)
qed (use assms sync_pump_woken_visible visible_try_pump closed_consume_visible visible_unlock
    visible_drop_seq_cst visible_service visible_close in
    \<open>simp_all add: shut_opt_step_def sync_send_def sync_send_timeout_def send_woken_recv_def
      send_timeout_woken_recv_def send_timeout_woken_reply_def sess_of_def
      del: api_step.simps act.simps(6,8-14,16)\<close>)


section \<open>What is left of the guard discipline\<close>

text \<open>
  After \<^verbatim>\<open>close\<close> guards are used up without giving back their numbers, and a
  dropped holder leaves the instance locked; equalities become inequalities.
\<close>

definition guards_left :: "('s, 'r) session \<Rightarrow> bool" where
  "guards_left x \<longleftrightarrow> mset (map guard_reply_no (sess_guards x)) \<subseteq># reserved (sess_seq x)
     \<and> holders x \<le> (if is_locked (sess_seq x) then 1 else 0)"

definition shut_inv :: "build \<Rightarrow> ('s, 'r) session \<Rightarrow> bool" where
  "shut_inv b x \<longleftrightarrow> sound b (sess_seq x) \<and> guards_left x"

lemma sess_shut_inv: "sess_inv b x \<Longrightarrow> shut_inv b x"
  by (simp add: sess_inv_def shut_inv_def guards_ok_def guards_left_def)

lemma guards_left_recv:
  assumes "guards_left x" and "gains gs (sess_seq x) s'"
  shows "guards_left (x\<lparr>sess_seq := s', sess_guards := sess_guards x @ gs\<rparr>)"
  using assms by (auto simp: guards_left_def gains_def holders_def subset_mset.add_mono)

lemma remove_at_numbers:
  "i < length gs \<Longrightarrow> mset (map f (remove_at i gs)) \<subseteq># mset (map f gs)"
  using remove_at_mset [of i "map f gs"] by (simp add: remove_at_map)

lemma guards_left_used:
  assumes left: "guards_left x" and i: "i < length (sess_guards x)"
    and k: "k \<le> (if is_holding_lock (sess_guards x ! i) then 1 else 0)"
  shows "guards_left (x\<lparr>sess_guards := remove_at i (sess_guards x), seq_cst_guards := seq_cst_guards x + k\<rparr>)"
proof -
  have "length (filter is_holding_lock (remove_at i (sess_guards x))) + (seq_cst_guards x + k) \<le> holders x"
    using k remove_at_count [OF i, of is_holding_lock] by (auto simp: holders_def split: if_splits)
  with left subset_mset.order_trans [OF remove_at_numbers [OF i]] show ?thesis
    by (auto simp: guards_left_def holders_def intro: order_trans split: if_splits)
qed

lemma use_up_left:
  assumes "shut_inv b x" and "i < length (sess_guards x)"
    and "\<And>g. k g \<le> (if is_holding_lock g then 1 else 0)"
  shows "\<exists>x'. use_up i k x = Some ([], x') \<and> shut_inv b x'"
  using assms arr_get_Some [OF assms(2)] guards_left_used [OF _ assms(2) assms(3)]
  by (auto simp: use_up_def shut_inv_def)

lemma kept_lock_le: "kept_lock (consume_lock g) \<le> (if is_holding_lock g then 1 else 0)"
  by (simp add: kept_lock_def consume_lock_def)

lemma use_up_dropped:
  "shut_inv b x \<Longrightarrow> i < length (sess_guards x) \<Longrightarrow>
   \<exists>ps x'. use_up i (\<lambda>_. 0) x = Some (ps, x') \<and> shut_inv b x'"
  using use_up_left [of b x i "\<lambda>_. 0"] by auto

lemma use_up_kept:
  "shut_inv b x \<Longrightarrow> i < length (sess_guards x) \<Longrightarrow>
   \<exists>ps x'. use_up i (\<lambda>g. kept_lock (consume_lock g)) x = Some (ps, x') \<and> shut_inv b x'"
  using use_up_left [of b x i "\<lambda>g. kept_lock (consume_lock g)"] kept_lock_le by auto

lemma shut_unlock:
  assumes "shut_inv b x" and i: "i < length (sess_guards x)"
  shows "\<exists>x'. api_step b (ApiUnlock i) x = Some ([], x') \<and> shut_inv b x'"
proof (cases "is_holding_lock (sess_guards x ! i)")
  case True
  let ?g = "(sess_guards x ! i)\<lparr>is_holding_lock := False\<rparr>"
  let ?x = "x\<lparr>sess_seq := unlock_raw (sess_seq x), sess_guards := (sess_guards x)[i := ?g]\<rparr>"
  have "map guard_reply_no ((sess_guards x)[i := ?g]) = map guard_reply_no (sess_guards x)"
    using i by (simp add: map_update list_update_same_conv)
  moreover have "holders ?x + 1 = holders x"
    using update_count [OF i, of is_holding_lock ?g] True by (simp add: holders_def)
  ultimately have "guards_left ?x"
    using assms(1) by (simp add: shut_inv_def guards_left_def del: mset_map split: if_splits)
  moreover have "sound b (sess_seq ?x)" using assms(1) unlock_raw_sound [of b "sess_seq x"] by (simp add: shut_inv_def)
  ultimately show ?thesis
    using True arr_get_Some [OF i] by (simp add: guard_unlock_def shut_inv_def)
next
  case False
  then show ?thesis using assms(1) arr_get_Some [OF i] by (simp add: guard_unlock_def)
qed

lemma shut_drop_seq_cst:
  assumes "shut_inv b x" and "0 < seq_cst_guards x"
  shows "\<exists>x'. api_step b ApiDropSeqCst x = Some ([], x') \<and> shut_inv b x'"
proof -
  let ?x = "x\<lparr>sess_seq := unlock_raw (sess_seq x), seq_cst_guards := seq_cst_guards x - 1\<rparr>"
  have "holders x \<le> 1" using assms by (auto simp: shut_inv_def guards_left_def split: if_splits)
  with assms(2) have "length (filter is_holding_lock (sess_guards x)) = 0 \<and> seq_cst_guards x = 1"
    unfolding holders_def by linarith
  then have "holders ?x = 0" by (simp add: holders_def)
  with assms have "shut_inv b ?x"
    using unlock_raw_sound [of b "sess_seq x"] by (simp add: shut_inv_def guards_left_def)
  then show ?thesis using assms(2) by (simp add: seq_cst_guard_drop_def)
qed

lemma shut_keeps:
  assumes inv: "shut_inv b x" and ok: "api_ok b c x"
  shows "\<exists>ps x'. shut_step b c x = Some (ps, x') \<and> shut_inv b x'"
proof (cases c)
  case ApiPump
  from inv ok ApiPump have "sound b (sess_seq x)" and "b = Debug \<longrightarrow> permits b Pump (sess_seq x)"
    by (simp_all add: shut_inv_def)
  from try_pump_sound [OF this] ApiPump inv show ?thesis
    by (auto simp: shut_inv_def guards_left_recv)
next
  case (ApiService t)
  with inv ok have "sound b (sess_seq x)" and "service_ok b t (sess_seq x)"
    by (simp_all add: shut_inv_def)
  from service_sound [OF this] ApiService inv guards_left_recv [of x "[]"] show ?thesis
    by (auto simp: shut_inv_def)
next
  case (ApiUnlock i)
  with shut_unlock [OF inv, of i] ok show ?thesis by (auto simp del: api_step.simps)
next
  case ApiDropSeqCst
  with shut_drop_seq_cst [OF inv] ok show ?thesis by (auto simp del: api_step.simps)
qed (use inv ok use_up_dropped [OF inv] use_up_kept [OF inv] in \<open>auto simp del: api_step.simps\<close>)

text \<open>The invariant of the state the threads share.\<close>

definition shared_inv :: "build \<Rightarrow> ('s, 'r) shared \<Rightarrow> bool" where
  "shared_inv b sh \<longleftrightarrow>
     (if closed (sh_inner sh) then shut_inv b (sess_of sh) else sess_inv b (sess_of sh))"

definition section_ok :: "build \<Rightarrow> ('s, 'r) action \<Rightarrow> 's phase \<Rightarrow> ('s, 'r) shared \<Rightarrow> bool" where
  "section_ok b a ph sh \<longleftrightarrow> ready ph a \<and> deadline_ok b a ph
     \<and> (case section_call a ph (sh_inner sh) of None \<Rightarrow> True | Some c \<Rightarrow> api_ok b c (sess_of sh))"

lemma section_keeps:
  assumes inv: "shared_inv b sh" and ok: "section_ok b a ph sh"
    and waiters: "on_recv ph \<Longrightarrow> 0 < recv_waiters (sh_inner sh)"
  shows "\<exists>ph' ps ws sh'. act b a ph sh = Some (ph', ps, ws, sh') \<and> shared_inv b sh'"
proof (cases "closed (sh_inner sh)")
  case True
  let ?c = "section_call a ph (sh_inner sh)"
  have "\<exists>ps x'. shut_opt_step b ?c (sess_of sh) = Some (ps, x') \<and> shut_inv b x'"
    using inv ok True shut_keeps [of b "sess_of sh"]
    by (cases ?c) (auto simp: shut_opt_step_def shared_inv_def section_ok_def simp del: shut_step.simps)
  then obtain ps x' where "visible (act b a ph sh) = Some (ps, x')" and x': "shut_inv b x'"
    using closed_section_visible [OF True _ waiters] ok by (auto simp: section_ok_def)
  then obtain ph' ws sh' where run: "act b a ph sh = Some (ph', ps, ws, sh')" and "sess_of sh' = x'"
    by (auto simp: visible_def)
  with x' stays_closed [OF run True] show ?thesis by (auto simp: shared_inv_def)
next
  case False
  let ?c = "section_call a ph (sh_inner sh)"
  have "\<exists>ps x'. opt_step b ?c (sess_of sh) = Some (ps, x') \<and> sess_inv b x'"
    using inv ok False api_keeps [of b "sess_of sh"]
    by (cases ?c) (auto simp: opt_step_def shared_inv_def section_ok_def simp del: api_step.simps)
  then obtain ps x' where "visible (act b a ph sh) = Some (ps, x')" and x': "sess_inv b x'"
    using open_section_visible [OF False _ _ waiters] ok by (auto simp: section_ok_def)
  then obtain ph' ws sh' where "act b a ph sh = Some (ph', ps, ws, sh')" and "sess_of sh' = x'"
    by (auto simp: visible_def)
  with x' sess_shut_inv [OF x'] show ?thesis by (auto simp: shared_inv_def)
qed


section \<open>Every interleaving\<close>

text \<open>
  What a schedule may ask for: threads call only when they are outside a method, with guards that
  exist; times do not overflow and the peer's reply numbers are in order. Nothing is asked about
  the order of sections, deliveries and wake-ups.
\<close>

fun event_ok :: "build \<Rightarrow> ('s, 'r) event \<Rightarrow> ('s, 'r) sys \<Rightarrow> bool" where
  "event_ok b (Section i a) y =
     (i < length (threads y) \<and> section_ok b a (threads y ! i) (common y))"
| "event_ok b (Deliver j i) y =
     (j < length (pending y) \<and> (pending y ! j = NotifyOneRecv \<longrightarrow>
        list_ex asleep_recv (threads y) \<longrightarrow> i < length (threads y) \<and> asleep_recv (threads y ! i)))"
| "event_ok b (SelfWake i) y =
     (i < length (threads y) \<and> (asleep_recv (threads y ! i) \<or> asleep_reply (threads y ! i)))"

definition sys_inv :: "build \<Rightarrow> ('s, 'r) sys \<Rightarrow> bool" where
  "sys_inv b y \<longleftrightarrow> waiters_ok y \<and> shared_inv b (common y)"

lemma not_asleep_recv:
  "list_all (\<lambda>ph. \<not> asleep_recv ph) th \<longleftrightarrow> \<not> list_ex asleep_recv th"
  by (simp add: list_all_iff list_ex_iff)

lemma sys_runs:
  assumes inv: "sys_inv b y" and ok: "event_ok b ev y"
  shows "\<exists>u z. sys_exec b ev y = Some (u, z) \<and> shared_inv b (common z)"
proof (cases ev)
  case (Section i a)
  then have i: "i < length (threads y)" and sec: "section_ok b a (threads y ! i) (common y)"
    using ok by simp_all
  have "0 < recv_waiters (sh_inner (common y))" if "on_recv (threads y ! i)"
    using inv filter_positive [of i "threads y" on_recv] i that
    by (simp add: sys_inv_def waiters_ok_def inner_of_def)
  from section_keeps [OF _ sec this] inv obtain ph ps ws sh where
    "act b a (threads y ! i) (common y) = Some (ph, ps, ws, sh)" and "shared_inv b sh"
    by (auto simp: sys_inv_def)
  with Section i sec show ?thesis by (simp add: arr_get_Some section_ok_def)
next
  case (Deliver j i)
  with ok inv show ?thesis
    by (cases "pending y ! j") (auto simp: arr_get_Some not_asleep_recv sys_inv_def Let_def)
next
  case (SelfWake i)
  with ok inv show ?thesis by (auto simp: arr_get_Some sys_inv_def)
qed

lemma sys_keeps:
  assumes "sys_inv b y" and "event_ok b ev y"
  shows "\<exists>u z. sys_exec b ev y = Some (u, z) \<and> sys_inv b z"
proof -
  obtain u z where run: "sys_exec b ev y = Some (u, z)" and "shared_inv b (common z)"
    using sys_runs [OF assms] by blast
  moreover have "waiters_ok z"
    using waiters_ok_step [OF sys_exec_step [OF run]] assms(1) by (simp add: sys_inv_def)
  ultimately show ?thesis by (auto simp: sys_inv_def)
qed

interpretation threaded: call_machine "sys_exec b" "sys_inv b" "event_ok b" for b
  by unfold_locales (rule sys_keeps)

lemma sync_new_views:
  assumes "sync_new b cap iv n = Some x"
  shows "new_seqex b cap iv n = Some (inner_seq x)" and "\<not> closed x"
  using assms by (auto simp: sync_new_def bind_eq_Some_conv)

lemma new_sys_inv:
  assumes "window_ring cap" and "sync_new b' cap iv n = Some x"
  shows "sys_inv b (new_sys k x)"
proof -
  have "sess_of (common (new_sys k x)) = new_session (inner_seq x)"
    by (simp add: new_sys_def sess_of_def new_session_def)
  with new_sess_inv [OF assms(1) sync_new_views(1) [OF assms(2)], of b] sync_new_views(2) [OF assms(2)]
    waiters_ok_new [OF assms(2)] show ?thesis
    by (simp add: sys_inv_def shared_inv_def new_sys_def)
qed

section \<open>Properties\<close>

text \<open>
  C26. Threads never panic. Threads use guards that exist and, in a debug build, times and deadlines do
  not overflow and the reply numbers of packets name the entry in their slot when they are handed over
  (\<open>event_ok\<close>). Then however the critical sections of any number of threads, the deliveries of
  notifications and spurious wake-ups interleave, no call panics and no waiter count underflows.
  At every point at most one guard holds the SeqCst lock and only while the instance is locked, and
  every live guard has an issued reply number of its own; until \<^verbatim>\<open>close\<close> the
  guards are exactly the issued numbers.
\<close>

theorem threads_never_panic:
  assumes "window_ring cap" and "sync_new b cap iv n = Some x"
    and "permitted (sys_exec b) (event_ok b) evs (new_sys k x)"
  shows "\<exists>us y. run (sys_exec b) evs (new_sys k x) = Some (us, y) \<and> length us = length evs
    \<and> holders (sess_of (common y)) \<le> (if is_locked (inner_seq (inner_of y)) then 1 else 0)
    \<and> mset (map guard_reply_no (sh_guards (common y))) \<subseteq># reserved (inner_seq (inner_of y))
    \<and> (\<not> closed (inner_of y) \<longrightarrow>
          mset (map guard_reply_no (sh_guards (common y))) = reserved (inner_seq (inner_of y)))"
proof -
  obtain us y where "run (sys_exec b) evs (new_sys k x) = Some (us, y)" "length us = length evs"
    and "sys_inv b y"
    using threaded.run_ok [OF new_sys_inv [OF assms(1,2)] assms(3)] by blast
  then show ?thesis
    by (auto simp: sys_inv_def shared_inv_def shut_inv_def sess_inv_def guards_ok_def
        guards_left_def inner_of_def split: if_splits)
qed

text \<open>
  Two receives, a pump that waits for the lock, a drop that wakes it, \<^verbatim>\<open>close\<close>, and
  the end of the second exchange after it.
\<close>

definition busy_schedule :: "(nat, nat) event list" where
  "busy_schedule = one_pumping @
     [Section 0 (CallSend 0 False 5), Section 2 CallPump, Section 0 (CallDrop 0), Deliver 0 0,
      Section 1 (Continue 0 0), Section 2 CallClose, Section 0 (CallAck 0), Section 0 CallDropSeqCst,
      Section 0 (CallService 300)]"

theorem threads_never_panic_witness:
  "\<exists>us y. run (sys_exec Debug) busy_schedule (new_sys 3 (sync_fresh 8)) = Some (us, y)
    \<and> length us = 12 \<and> holders (sess_of (common y)) \<le> 1"
proof -
  have "permitted (sys_exec Debug) (event_ok Debug) busy_schedule (new_sys 3 (sync_fresh 8))"
    by code_simp
  from threads_never_panic [OF small_rings(2) sync_fresh_new(2) this] obtain us y where
    "run (sys_exec Debug) busy_schedule (new_sys 3 (sync_fresh 8)) = Some (us, y)"
    and "length us = length busy_schedule"
    and "holders (sess_of (common y)) \<le> (if is_locked (inner_seq (inner_of y)) then 1 else 0)"
    by blast
  moreover have "length busy_schedule = 12" by (simp add: busy_schedule_def one_pumping_def)
  moreover have "(if P then 1 else 0) \<le> (1 :: nat)" for P by simp
  ultimately show ?thesis by (metis order_trans)
qed

text \<open>
  C27. Every critical section is atomic in the single-threaded API. While the instance is open, a
  section of any thread in any phase sends the packets and leaves the instance, guards and lock
  holders that one call on a session does; once it is closed, sending and receiving do nothing,
  guards are used up without an answer, and the rest is as before.
\<close>

theorem sections_refine_session:
  assumes "ready ph a" and "deadline_ok b a ph" and "on_recv ph \<Longrightarrow> 0 < recv_waiters (sh_inner sh)"
  shows "visible (act b a ph sh) =
    (if closed (sh_inner sh) then shut_opt_step b (section_call a ph (sh_inner sh)) (sess_of sh)
     else opt_step b (section_call a ph (sh_inner sh)) (sess_of sh))"
  using open_section_visible [OF _ assms] closed_section_visible [OF _ assms(1,3)] by simp

theorem sections_refine_session_witness:
  "visible (act Debug (CallSend 0 False (5 :: nat)) Idle (common (new_sys 1 (sync_fresh 8))))
    = api_step Debug (ApiSend 0 False 5) (sess_of (common (new_sys 1 (sync_fresh 8))))"
  using sections_refine_session [of Idle "CallSend 0 False 5" Debug "common (new_sys 1 (sync_fresh 8))"]
  by (simp add: opt_step_def new_sys_def sync_fresh_def del: api_step.simps act.simps)

end
