(* ===== verification/Sender_Wakeups.thy ===== *)
theory Sender_Wakeups
  imports Sync_Safety
begin

text \<open>
  Which sections notify \<^verbatim>\<open>wait_on_recv\<close>, and that none is missing: whenever a
  receive or a pump changes what a waiting send looks at, it wakes one of the sleeping senders.
\<close>

section \<open>Who notifies senders\<close>

text \<open>The sections that receive a packet or pump one.\<close>

fun receiving :: "('s, 'r) action \<Rightarrow> 's phase \<Rightarrow> bool" where
  "receiving (CallTryReceive p) ph = True"
| "receiving (CallReceive p) ph = True"
| "receiving CallTryPump ph = True"
| "receiving CallPump ph = True"
| "receiving (Continue t t') ToPump = True"
| "receiving (Continue t t') (PumpOnReply w) = True"
| "receiving _ _ = False"

lemma notify_reply_wakes: "notify_reply x = (ws, x') \<Longrightarrow> NotifyOneRecv \<notin> set ws"
  using notify_cases(1) [of x ws x'] by simp

lemma consume_lock_wakes: "sync_consume_lock g x = (l, ws, x') \<Longrightarrow> NotifyOneRecv \<notin> set ws"
  by (auto simp: sync_consume_lock_def dest: notify_reply_wakes split: if_splits prod.splits)

lemma only_receiving_notifies:
  assumes act: "act b a ph sh = Some (ph', ps, ws, sh')" and ws: "NotifyOneRecv \<in> set ws"
  shows "receiving a ph \<or> a = CallClose"
proof (rule ccontr)
  assume no: "\<not> (receiving a ph \<or> a = CallClose)"
  show False
  proof (cases rule: act.cases [of "(b, a, ph, sh)"])
    case (9 b i t c f ph sh)
    with act obtain g l o2 x' where
      "sync_guard_reply_with_stay_locked b t c f g (sh_inner sh) = Some ((l, o2), ps, ws, x')"
      by (auto simp: bind_eq_Some_conv)
    then show False by (rule reply_stay_consumes) (use ws consume_lock_wakes in blast)
  next
    case (10 b i ph sh)
    with act obtain g l x' where "sync_guard_ack b g (sh_inner sh) = Some (l, ps, ws, x')"
      by (auto simp: bind_eq_Some_conv)
    then show False by (rule ack_consumes) (use ws consume_lock_wakes in blast)
  qed (use act ws no in \<open>auto simp: bind_eq_Some_conv Let_def sync_guard_drop_def sync_guard_reply_with_def
      sync_guard_unlock_def sync_seq_cst_drop_def dest!: notify_reply_wakes split: if_splits prod.splits\<close>)
qed

section \<open>What a waiting send looks at\<close>

text \<open>A send waits for entries to leave the send window and for reply numbers.\<close>

definition send_view :: "('s, 'r) inner \<Rightarrow> (seq_no \<Rightarrow> 's send_entry option) \<times> seq_no multiset" where
  "send_view x = (sent (inner_seq x), reserved (inner_seq x))"

lemma send_view_simps [simp]:
  "send_view (x\<lparr>inner_seq := s\<rparr>) = (sent s, reserved s)" "send_view (x\<lparr>recv_waiters := k\<rparr>) = send_view x"
  "send_view (x\<lparr>reply_receiver_waiters := u\<rparr>) = send_view x"
  by (simp_all add: send_view_def)

lemma refused_packet_keeps:
  assumes core: "core_inv s" and run: "try_receive_raw_and_direct b into p s = Some (Inl e, s')"
  shows "sent s' = sent s \<and> reserved s' = reserved s"
proof (cases "seq_part p")
  case None
  then obtain r where "p = Ack r" by (cases p) simp_all
  with run show ?thesis
    by (auto simp: receive_ack_eq [OF core_parts(1) [OF core]] drop_sent_def split: option.splits)
next
  case (Some n)
  with run have data: "receive_data b into (is_seq_cst p) n (reply_part p) (the (payload p)) s = Some (Inl e, s')"
    by (simp add: receive_eq)
  from core show ?thesis
  proof (cases rule: receive_data_cases [where b = b and into = into and c = "is_seq_cst p" and n = n
        and ro = "reply_part p" and d = "the (payload p)"])
    case (store e')
    with data have s': "s' = put_recv (Occupied n (reply_part p) (is_seq_cst p) (into (the (payload p)))) s"
      by simp
    show ?thesis unfolding s' by (simp add: send_side_cong [of "put_recv _ s" s])
  qed (use data in simp_all)
qed

lemma refused_raw:
  assumes "try_receive_raw b into p s = Some (Inl e, ps, s')"
  obtains e1 where "try_receive_raw_and_direct b into p s = Some (Inl e1, s')"
proof -
  from assms obtain q s1 where raw: "try_receive_raw_and_direct b into p s = Some (q, s1)"
    by (auto simp: try_receive_raw_def bind_eq_Some_conv)
  show thesis
  proof (cases q)
    case (Inl e1)
    with raw assms that show thesis by (cases e1) (auto simp: try_receive_raw_def)
  qed (use raw assms in \<open>simp add: try_receive_raw_def\<close>)
qed

lemma refused_pump_keeps:
  assumes "core_inv s" and run: "try_pump_raw b s = Some (Inl e, s')"
  shows "s' = s"
  using assms(1) by (cases rule: pump_cases [where b = b]) (use run in simp_all)

lemma receive_notifies:
  assumes core: "core_inv (inner_seq x)" and run: "sync_try_receive b p x = Some (r, ps, ws, x')"
    and new: "send_view x' \<noteq> send_view x" and some: "0 < recv_waiters x"
  shows "ws = [NotifyOneRecv]"
proof (cases "closed x")
  case False
  with run obtain q ps1 s where raw: "try_receive_raw b (\<lambda>d. d) p (inner_seq x) = Some (q, ps1, s)"
    by (cases "try_receive_raw b (\<lambda>d. d) p (inner_seq x)") (auto simp: sync_try_receive_def)
  show ?thesis
  proof (cases q)
    case (Inl e)
    with raw have "try_receive_raw b (\<lambda>d. d) p (inner_seq x) = Some (Inl e, ps1, s)" by simp
    then obtain e1 where "try_receive_raw_and_direct b (\<lambda>d. d) p (inner_seq x) = Some (Inl e1, s)"
      by (rule refused_raw)
    from refused_packet_keeps [OF core this] Inl raw run False new show ?thesis
      by (auto simp: sync_try_receive_def send_view_def)
  next
    case (Inr a)
    with raw run False some show ?thesis
      by (cases a) (auto simp: sync_try_receive_def notify_recv_def Let_def)
  qed
qed (use run new in \<open>simp add: sync_try_receive_def\<close>)

lemma try_pump_notifies:
  assumes core: "core_inv (inner_seq x)" and run: "sync_try_pump b x = Some (r, ws, x')"
    and new: "send_view x' \<noteq> send_view x" and some: "0 < recv_waiters x"
  shows "ws = [NotifyOneRecv]"
proof -
  from run obtain q s where raw: "try_pump_raw b (inner_seq x) = Some (q, s)"
    by (cases "try_pump_raw b (inner_seq x)") (auto simp: sync_try_pump_def)
  show ?thesis
  proof (cases q)
    case (Inl e)
    with refused_pump_keeps [OF core, of b e s] raw run new show ?thesis
      by (simp add: sync_try_pump_def send_view_def)
  next
    case (Inr a)
    with raw run some show ?thesis
      by (cases a) (auto simp: sync_try_pump_def notify_recv_def Let_def)
  qed
qed

lemma pump_loop_notifies:
  assumes core: "core_inv (inner_seq x)" and run: "pump_loop b x = Some (r, ws, x')"
    and new: "send_view x' \<noteq> send_view x" and some: "0 < recv_waiters x"
  shows "ws = [NotifyOneRecv]"
proof -
  from run obtain q s where raw: "try_pump_raw b (inner_seq x) = Some (q, s)"
    by (cases "try_pump_raw b (inner_seq x)") (auto simp: pump_loop_def)
  show ?thesis
  proof (cases q)
    case (Inl e)
    with refused_pump_keeps [OF core, of b e s] raw run new show ?thesis
      by (cases e) (auto simp: pump_loop_def send_view_def)
  next
    case (Inr a)
    with raw run some show ?thesis
      by (cases a) (auto simp: pump_loop_def notify_recv_def Let_def)
  qed
qed

lemma sync_pump_notifies:
  assumes "core_inv (inner_seq x)" and "sync_pump b x = Some (r, ws, x') \<or> sync_pump_woken b x = Some (r, ws, x')"
    and "send_view x' \<noteq> send_view x" and "0 < recv_waiters x"
  shows "ws = [NotifyOneRecv]"
  using assms pump_loop_notifies [of x b r ws x']
    pump_loop_notifies [of "x\<lparr>reply_receiver_waiters := False\<rparr>" b r ws x']
  by (auto simp: sync_pump_def sync_pump_woken_def split: if_splits)

lemma receiving_notifies:
  assumes core: "core_inv (inner_seq (sh_inner sh))" and rec: "receiving a ph"
    and act: "act b a ph sh = Some (ph', ps, ws, sh')"
    and new: "send_view (sh_inner sh') \<noteq> send_view (sh_inner sh)" and some: "0 < recv_waiters (sh_inner sh)"
  shows "ws = [NotifyOneRecv]"
proof (cases rule: act.cases [of "(b, a, ph, sh)"])
  case (4 b p ph sh)
  with act core new some receive_notifies [of "sh_inner sh" b p] show ?thesis
    by (auto simp: bind_eq_Some_conv)
next
  case (5 b p ph sh)
  with act core new some receive_notifies [of "sh_inner sh" b p] show ?thesis
    by (auto simp: bind_eq_Some_conv)
next
  case (6 b ph sh)
  with act core new some try_pump_notifies [of "sh_inner sh" b] show ?thesis
    by (auto simp: bind_eq_Some_conv)
next
  case (7 b ph sh)
  with act core new some sync_pump_notifies [of "sh_inner sh" b] show ?thesis
    by (auto elim!: after_pump_effect)
next
  case (21 b t t' w sh)
  with act core new some sync_pump_notifies [of "sh_inner sh" b] show ?thesis
    by (auto elim!: after_pump_effect)
next
  case (22 b t t' sh)
  with act core new some sync_pump_notifies [of "sh_inner sh" b] show ?thesis
    by (auto elim!: after_pump_effect)
qed (use rec in auto)

section \<open>What the notification does\<close>

lemma woken_recv_count:
  assumes wake: "woken NotifyOneRecv th th'"
  shows "length (filter asleep_recv th') = length (filter asleep_recv th) - 1"
    and "filter asleep_reply th' = filter asleep_reply th"
proof -
  have same: "filter P (xs[i := y]) = filter P xs" if "\<not> P (xs ! i)" "\<not> P y" "i < length xs"
    for P and xs :: "'a phase list" and i y
    using that by (simp add: upd_conv_take_nth_drop id_take_nth_drop [symmetric])
      (subst (3) id_take_nth_drop [of i xs]; simp)
  have "length (filter asleep_recv th') = length (filter asleep_recv th) - 1
      \<and> filter asleep_reply th' = filter asleep_reply th"
    using wake
  proof cases
    case (one_recv i)
    then have "\<not> asleep_reply (th ! i)" by (cases "th ! i") simp_all
    with one_recv update_count [OF one_recv(2), of asleep_recv "wake_up (th ! i)"] same [of asleep_reply th i]
    show ?thesis by simp
  qed (simp add: list_all_iff)
  then show "length (filter asleep_recv th') = length (filter asleep_recv th) - 1"
    and "filter asleep_reply th' = filter asleep_reply th" by blast+
qed

text \<open>In a state that permitted events lead to.\<close>

lemma permitted_state:
  assumes "window_ring cap" and "sync_new b cap iv n = Some x"
    and "permitted (sys_exec b) (event_ok b) evs (new_sys k x)"
    and "run (sys_exec b) evs (new_sys k x) = Some (us, y)"
  shows "waiters_ok y" and "core_inv (inner_seq (inner_of y))"
proof -
  have "sys_inv b y" by (rule threaded.run_inv [OF new_sys_inv [OF assms(1,2)] assms(3,4)])
  then show "waiters_ok y" and "core_inv (inner_seq (inner_of y))"
    using sess_shut_inv [of b "sess_of (common y)"]
    by (auto simp: sys_inv_def shared_inv_def shut_inv_def sound_def inner_of_def split: if_splits)
qed

lemma sleeping_sender_counted:
  assumes "waiters_ok y" and "list_ex asleep_recv (threads y)"
  shows "0 < recv_waiters (inner_of y)"
proof -
  from assms(2) obtain i where i: "i < length (threads y)" "asleep_recv (threads y ! i)"
    by (auto simp: list_ex_length)
  then have "on_recv (threads y ! i)" by (cases "threads y ! i") simp_all
  with assms(1) filter_positive [OF i(1)] show ?thesis by (simp add: waiters_ok_def)
qed

text \<open>
  C34. No lost wake-up of senders. After any schedule of permitted events, if some send is asleep on
  \<^verbatim>\<open>wait_on_recv\<close>, then a receive or a pump of any thread that takes a packet out of the
  send window or issues a reply number, that is, one that accepts an acknowledgement or hands a packet
  over, notifies one waiter; and when that is delivered while senders sleep, exactly one of them wakes
  and those that wait for a reply sleep on.
\<close>

theorem receive_wakes_sender:
  assumes "window_ring cap" and "sync_new b cap iv n = Some x"
    and "permitted (sys_exec b) (event_ok b) evs (new_sys k x)"
    and "run (sys_exec b) evs (new_sys k x) = Some (us, y)"
    and "list_ex asleep_recv (threads y)" and "receiving a ph"
    and "act b a ph (common y) = Some (ph', ps, ws, sh)" and "send_view (sh_inner sh) \<noteq> send_view (inner_of y)"
  shows "ws = [NotifyOneRecv] \<and> (\<forall>(th :: 'p phase list) th'. woken NotifyOneRecv th th' \<longrightarrow>
      length (filter asleep_recv th') = length (filter asleep_recv th) - 1
      \<and> filter asleep_reply th' = filter asleep_reply th)"
proof -
  note ok = permitted_state [OF assms(1-4)]
  from receiving_notifies [OF _ assms(6,7)] ok(2) assms(8) sleeping_sender_counted [OF ok(1) assms(5)]
  have "ws = [NotifyOneRecv]" by (simp add: inner_of_def)
  with woken_recv_count show ?thesis by blast
qed

theorem receive_wakes_sender_witness:
  "\<exists>us y ph ps sh. run (sys_exec Debug) two_waiting (new_sys 3 (sync_fresh 4)) = Some (us, y)
    \<and> act Debug (CallTryReceive (Ack 2)) Idle (common y) = Some (ph, ps, [NotifyOneRecv], sh)"
proof -
  have ok: "permitted (sys_exec Debug) (event_ok Debug) two_waiting (new_sys 3 (sync_fresh 4))"
    by code_simp
  have "map_option (\<lambda>(us, y). (list_ex asleep_recv (threads y), sent (inner_seq (inner_of y)) 2 = None,
        map_option (\<lambda>(ph, ps, ws, sh). sent (inner_seq (sh_inner sh)) 2 = None)
          (act Debug (CallTryReceive (Ack 2)) Idle (common y))))
      (run (sys_exec Debug) two_waiting (new_sys 3 (sync_fresh 4))) = Some (True, False, Some True)"
    by code_simp
  then obtain us y where run: "run (sys_exec Debug) two_waiting (new_sys 3 (sync_fresh 4)) = Some (us, y)"
    and seen: "(list_ex asleep_recv (threads y), sent (inner_seq (inner_of y)) 2 = None,
        map_option (\<lambda>(ph, ps, ws, sh). sent (inner_seq (sh_inner sh)) 2 = None)
          (act Debug (CallTryReceive (Ack 2)) Idle (common y))) = (True, False, Some True)"
    by (rule observed_run)
  from seen obtain ph ps ws sh where
    got: "act Debug (CallTryReceive (Ack 2)) Idle (common y) = Some (ph, ps, ws, sh)"
    and gone: "sent (inner_seq (sh_inner sh)) 2 = None" by (auto simp del: act.simps)
  from gone seen have "send_view (sh_inner sh) \<noteq> send_view (inner_of y)" by (auto simp: send_view_def)
  from receive_wakes_sender [OF small_rings(1) sync_fresh_new(1) ok run _ _ got this, where 'p = nat] seen
  have "ws = [NotifyOneRecv]" by simp
  with run got show ?thesis by blast
qed

end
