(* ===== verification/Closing.thy ===== *)
theory Closing
  imports Sender_Wakeups
begin

text \<open>
  What \<^verbatim>\<open>close\<close> does for good: after it no thread sends or receives anything new, in
  any continuation, and it wakes one of the senders that sleep and leaves the others asleep.
\<close>

section \<open>Invariants of a closed instance\<close>

text \<open>
  Whatever the threads do on a closed instance, they do the calls of a closed session; so a property of
  sessions that these calls keep holds in every state reached later.
\<close>

lemma shut_section:
  assumes shut: "closed (inner_of y)" and ok: "waiters_ok y" and i: "i < length (threads y)"
    and rdy: "ready (threads y ! i) a" and run: "act b a (threads y ! i) (common y) = Some (ph, ps, ws, sh)"
  shows "shut_opt_step b (section_call a (threads y ! i) (inner_of y)) (sess_of (common y)) = Some (ps, sess_of sh)"
    and "closed (sh_inner sh)"
proof -
  have "0 < recv_waiters (inner_of y)" if "on_recv (threads y ! i)"
    using ok filter_positive [of i "threads y" on_recv] i that by (simp add: waiters_ok_def)
  with closed_section_visible [of "common y", OF _ rdy, of b] run shut
  show "shut_opt_step b (section_call a (threads y ! i) (inner_of y)) (sess_of (common y)) = Some (ps, sess_of sh)"
    by (simp add: inner_of_def)
  show "closed (sh_inner sh)" using stays_closed [OF run] shut by (simp add: inner_of_def)
qed

lemma closed_step:
  assumes step: "sys_step b y z" and shut: "closed (inner_of y)" and ok: "waiters_ok y"
    and P: "P (sess_of (common y))"
    and keeps: "\<And>c x ps x'. P x \<Longrightarrow> shut_step b c x = Some (ps, x') \<Longrightarrow> P x'"
  shows "closed (inner_of z) \<and> P (sess_of (common z))"
  using step
proof cases
  case (section_run i a ph ps ws sh)
  note sec = shut_section [OF shut ok section_run(2-4)]
  from sec(1) P keeps [of "sess_of (common y)"] have "P (sess_of sh)"
    by (auto simp: shut_opt_step_def split: option.splits)
  with sec(2) section_run(1) show ?thesis by (simp add: inner_of_def)
qed (use shut P in \<open>simp_all add: inner_of_def\<close>)

lemma closed_reachable:
  assumes "reachable b y z" and "closed (inner_of y)" and "waiters_ok y" and "P (sess_of (common y))"
    and keeps: "\<And>c x ps x'. P x \<Longrightarrow> shut_step b c x = Some (ps, x') \<Longrightarrow> P x'"
  shows "closed (inner_of z) \<and> waiters_ok z \<and> P (sess_of (common z))"
  using assms(1-4)
proof (induction rule: reachable.induct)
  case (onward y z z')
  then have z: "closed (inner_of z)" "waiters_ok z" "P (sess_of (common z))" by simp_all
  have "closed (inner_of z') \<and> P (sess_of (common z'))"
    by (rule closed_step [OF onward.hyps(2) z(1,2), where P = P, OF z(3)]) (rule keeps)
  with waiters_ok_step [OF onward.hyps(2) z(2)] show ?case by blast
qed simp

text \<open>Pumping and servicing, as far as a closed instance still does them.\<close>

lemma try_pump_views:
  assumes "core_inv s" and "try_pump b s = Some (r, s')"
  shows "core_inv s'" and "gains (received_guards r) s s'"
proof -
  from assms(2) obtain q where run: "try_pump_raw b s = Some (q, s')"
    by (cases "try_pump_raw b s") (auto simp: try_pump_def split: sum.splits)
  then have "exec b Pump s = Some (PumpOut q, s')" by simp
  with exec_keeps_core [OF assms(1)] show "core_inv s'" .
  from pump_gains [OF assms(1) run] run assms(2) show "gains (received_guards r) s s'"
    by (cases q) (auto simp: try_pump_def simp del: received_guards.simps(1))
qed

lemma service_views:
  assumes "core_inv s" and "service b t s = Some (left, ps, s')"
  shows "core_inv s'" and "gains [] s s'"
proof -
  from assms(2) obtain qs where "service_loop b t None s = Some (qs, s')"
    by (auto simp: service_def bind_eq_Some_conv)
  then have run: "exec b (ServiceAll t) s = Some (ServiceOut qs, s')" by simp
  with exec_keeps_core [OF assms(1)] show "core_inv s'" .
  from send_gains [OF assms(1) run] show "gains [] s s'" by blast
qed

section \<open>Nothing new after close\<close>

text \<open>The packets kept for resending.\<close>

definition kept_packets :: "('s, 'r) seqex \<Rightarrow> 's packet set" where
  "kept_packets s = to_packet ` set (entries (send_window s))"

text \<open>
  From \<open>s\<close> to \<open>s'\<close> nothing was numbered, no packet kept, none stored or marked, no reply number given back.
\<close>

definition frozen :: "('s, 'r) seqex \<Rightarrow> ('s, 'r) seqex \<Rightarrow> bool" where
  "frozen s s' \<longleftrightarrow> next_send_seq_no s' = next_send_seq_no s \<and> kept_packets s' \<subseteq> kept_packets s
     \<and> (\<forall>n x. received s' n = Some x \<longrightarrow> received s n = Some x) \<and> reserved s \<subseteq># reserved s'"

lemma frozen_refl: "frozen s s"
  by (simp add: frozen_def)

lemma frozen_trans:
  assumes "frozen s t" and "frozen t u"
  shows "frozen s u"
  using assms subset_mset.order_trans [of "reserved s" "reserved t" "reserved u"] by (auto simp: frozen_def)

lemma entries_at: "x \<in> set (entries w) \<longleftrightarrow> (\<exists>i < length w. w ! i = Some x)"
  by (auto simp: set_entries in_set_conv_nth)

lemma kept_packets_le:
  assumes "\<And>i e. send_window s' ! i = Some e \<Longrightarrow> send_window s ! i = Some e"
    and "cap_of s' = cap_of s"
  shows "kept_packets s' \<subseteq> kept_packets s"
  using assms unfolding kept_packets_def by (intro image_mono) (force simp: entries_at)

lemma kept_packetI: "i < cap_of s \<Longrightarrow> send_window s ! i = Some e \<Longrightarrow> to_packet e \<in> kept_packets s"
  unfolding kept_packets_def by (rule imageI) (auto simp: entries_at)

lemma entries_map: "entries (map (map_option f) w) = map f (entries w)"
proof (induction w)
  case (Cons x w)
  then show ?case by (cases x) simp_all
qed simp

lemma pump_frozen:
  assumes core: "core_inv s" and run: "try_pump_raw b s = Some (r, s')"
  shows "frozen s s'"
  using core
proof (cases rule: pump_cases [where b = b])
  case (head ro c d k s2)
  note fields = passed_fields [OF head(3)]
  have s': "s' = issue (next_recv_seq_no s) c ro s2" using head(4) run by simp
  have "send_window s' ! i = Some e \<Longrightarrow> send_window s ! i = Some e" for i e
    using drop_sent_nth(1) [of _ s2 i e] fields(5) unfolding s'
    by (auto simp: issue_send_window split: option.splits)
  moreover have "cap_of s' = cap_of s" using fields(5) by (simp add: s')
  moreover have "received s' n = Some x \<Longrightarrow> received s n = Some x" for n x
    using head(3) by (auto simp: s' passed_def split: if_splits)
  moreover have "reserved s \<subseteq># reserved s'"
    using pump_gains [OF core run] head(4) run by (auto simp: gains_def)
  ultimately show ?thesis using fields(3) kept_packets_le [of s' s] by (simp add: frozen_def s')
qed (use run frozen_refl in simp)

lemma service_frozen:
  assumes core: "core_inv s" and run: "service b t s = Some (left, ps, s')"
  shows "frozen s s'" and "set ps \<subseteq> kept_packets s" and "next_recv_seq_no s' = next_recv_seq_no s"
proof -
  note shape = core_parts(1) [OF core]
  from run have "service_loop b t None s = Some (ps, s')" by (auto simp: service_def bind_eq_Some_conv)
  then have "exec b (ServiceAll t) s = Some (ServiceOut ps, s')" by simp
  then have "exec Release (ServiceAll t) s = Some (ServiceOut ps, s')"
    using agreesD [OF exec_mono, of "ServiceAll t" s] by (cases b) (simp_all del: exec.simps)
  then have loop: "service_loop Release t None s = Some (ps, s')" by (auto simp: bind_eq_Some_conv)
  have "frozen s s' \<and> set ps \<subseteq> kept_packets s \<and> next_recv_seq_no s' = next_recv_seq_no s"
  proof (cases "sint (next_service_timestamp s) \<le> sint t")
    case True
    have "time_ok Release t s" by (simp add: time_ok_def)
    from service_loop_shape [OF shape this True] loop have s': "s' = serviced t s"
      and ps: "ps = concat (map (\<lambda>i. due_packets t (send_window s ! i))
        (slots_from s (next_send_seq_no s - u32_of_usize (cap_of s))))" by simp_all
    have "to_packet (refresh t iv e) = to_packet e" for iv and e :: "'a send_entry"
      by (simp add: refresh_def)
    then have "kept_packets s' = kept_packets s"
      by (simp add: s' kept_packets_def entries_map image_image)
    moreover have "set ps \<subseteq> kept_packets s"
      using all_slots(2) [OF shape] unfolding ps
      by (auto simp: due_packets_def intro: kept_packetI split: option.splits if_splits)
    ultimately show ?thesis by (simp add: s' frozen_def serviced_views)
  next
    case False
    with loop service_loop_early [of t s Release] show ?thesis by (simp add: frozen_refl)
  qed
  then show "frozen s s'" and "set ps \<subseteq> kept_packets s" and "next_recv_seq_no s' = next_recv_seq_no s" by blast+
qed

lemma shut_step_frozen:
  assumes core: "core_inv (sess_seq x)" and run: "shut_step b c x = Some (ps, x')"
  shows "core_inv (sess_seq x') \<and> frozen (sess_seq x) (sess_seq x') \<and> set ps \<subseteq> kept_packets (sess_seq x)"
proof (cases c)
  case ApiPump
  with run obtain r s' where pump: "try_pump b (sess_seq x) = Some (r, s')"
    and x': "sess_seq x' = s'" "ps = []"
    by (auto simp: bind_eq_Some_conv)
  then obtain q where "try_pump_raw b (sess_seq x) = Some (q, s')"
    by (cases "try_pump_raw b (sess_seq x)") (auto simp: try_pump_def split: sum.splits)
  from pump_frozen [OF core this] try_pump_views(1) [OF core pump] x' show ?thesis by simp
next
  case (ApiService t)
  with run obtain left s' where "service b t (sess_seq x) = Some (left, ps, s')"
    and "x' = x\<lparr>sess_seq := s'\<rparr>"
    by (auto simp: bind_eq_Some_conv)
  with service_views(1) [OF core] service_frozen [OF core] show ?thesis by simp
next
  case (ApiUnlock i)
  with run core show ?thesis
    by (auto simp: arr_get_def guard_unlock_def unlock_raw_def frozen_def kept_packets_def core_inv_def
      shape_def recv_ok_def head_ok_def recv_head_def received_def reserved_def Let_def split: if_splits)
qed (use run core frozen_refl in \<open>auto simp: use_up_def bind_eq_Some_conv seq_cst_guard_drop_def unlock_raw_def
  frozen_def kept_packets_def core_inv_def shape_def recv_ok_def head_ok_def recv_head_def received_def
  reserved_def Let_def split: if_splits\<close>)

section \<open>Who sleeps on after close\<close>













section \<open>Properties\<close>




text \<open>
  C37. A closed instance is frozen. From any closed state that permitted events lead to, whatever the
  threads do: it stays closed, no packet is numbered, no packet is added to those kept for resending, nothing is
  stored or marked in the receive window, and no reply number is given back; and what any section puts on
  the wire, in any such state, is a packet that was kept for resending when the instance was closed.
\<close>

theorem closed_is_frozen:
  assumes "window_ring cap" and "sync_new b cap iv n = Some x"
    and "permitted (sys_exec b) (event_ok b) evs (new_sys k x)"
    and "run (sys_exec b) evs (new_sys k x) = Some (us, y)"
    and "closed (inner_of y)" and "reachable b y z"
  shows "closed (inner_of z) \<and> frozen (inner_seq (inner_of y)) (inner_seq (inner_of z))
    \<and> (\<forall>i a ph ps ws sh. i < length (threads z) \<longrightarrow> ready (threads z ! i) a \<longrightarrow>
        act b a (threads z ! i) (common z) = Some (ph, ps, ws, sh) \<longrightarrow>
        set ps \<subseteq> kept_packets (inner_seq (inner_of y)))"
proof -
  note ok = permitted_state [OF assms(1-4)]
  let ?s = "inner_seq (inner_of y)"
  let ?P = "\<lambda>x. core_inv (sess_seq x) \<and> frozen ?s (sess_seq x)"
  have "?P (sess_of (common y))" using ok(2) frozen_refl by (simp add: inner_of_def)
  then have "closed (inner_of z) \<and> waiters_ok z \<and> ?P (sess_of (common z))"
    by (rule closed_reachable [OF assms(6,5) ok(1), where P = ?P])
      (use shut_step_frozen frozen_trans in blast)
  then have z: "closed (inner_of z)" "waiters_ok z" "core_inv (sess_seq (sess_of (common z)))"
    and fr: "frozen ?s (inner_seq (inner_of z))" by (simp_all add: inner_of_def)
  have "set ps \<subseteq> kept_packets ?s" if "i < length (threads z)" "ready (threads z ! i) a"
    "act b a (threads z ! i) (common z) = Some (ph, ps, ws, sh)" for i a ph ps ws sh
    using shut_section(1) [OF z(1,2) that] shut_step_frozen [OF z(3)] fr
    by (fastforce simp: shut_opt_step_def frozen_def inner_of_def split: option.splits)
  with z(1) fr show ?thesis by blast
qed

text \<open>One packet is in flight when the instance is closed.\<close>

definition sent_and_closed :: "(nat, nat) event list" where
  "sent_and_closed = [Section 0 (CallTrySend 0 False 7), Section 1 CallClose]"

theorem closed_is_frozen_witness:
  "\<exists>us y vs z. run (sys_exec Debug) sent_and_closed (new_sys 2 (sync_fresh 8)) = Some (us, y)
    \<and> run (sys_exec Debug) [Section 0 (CallService 300), Section 1 (CallTrySend 0 False 8)] y = Some (vs, z)
    \<and> next_send_seq_no (inner_seq (inner_of z)) = 1 \<and> kept_packets (inner_seq (inner_of z)) \<subseteq> {Payload 0 7}"
proof -
  let ?more = "[Section 0 (CallService 300), Section 1 (CallTrySend 0 False 8)] :: (nat, nat) event list"
  have ok: "permitted (sys_exec Debug) (event_ok Debug) sent_and_closed (new_sys 2 (sync_fresh 8))"
    by code_simp
  have "map_option (\<lambda>(us, y). (closed (inner_of y), next_send_seq_no (inner_seq (inner_of y)),
        map to_packet (entries (send_window (inner_seq (inner_of y)))), run (sys_exec Debug) ?more y \<noteq> None))
      (run (sys_exec Debug) sent_and_closed (new_sys 2 (sync_fresh 8))) = Some (True, 1, [Payload 0 7], True)"
    by code_simp
  then obtain us y where run: "run (sys_exec Debug) sent_and_closed (new_sys 2 (sync_fresh 8)) = Some (us, y)"
    and seen: "(closed (inner_of y), next_send_seq_no (inner_seq (inner_of y)),
        map to_packet (entries (send_window (inner_seq (inner_of y)))), run (sys_exec Debug) ?more y \<noteq> None)
      = (True, 1, [Payload 0 7], True)"
    by (rule observed_run)
  from seen obtain vs z where later: "run (sys_exec Debug) ?more y = Some (vs, z)"
    by (auto simp del: run.simps sys_exec.simps)
  have kept: "kept_packets (inner_seq (inner_of y)) = {Payload 0 7}"
    using seen by (simp add: kept_packets_def flip: set_map)
  from seen have "closed (inner_of y)" by simp
  from closed_is_frozen [OF small_rings(2) sync_fresh_new(2) ok run this schedule_reachable [OF later]] kept seen
  have "next_send_seq_no (inner_seq (inner_of z)) = 1" and "kept_packets (inner_seq (inner_of z)) \<subseteq> {Payload 0 7}"
    by (simp_all add: frozen_def)
  with run later show ?thesis by blast
qed

end
