(* ===== verification/Timed_Send.thy ===== *)
theory Timed_Send
  imports Sync_Safety
begin

text \<open>
  The sends with a timeout: what deadline they keep through any number of wake-ups, and what a negative
  timeout does.
\<close>

section \<open>How long a send is put to sleep\<close>

lemma timed_wait_left:
  assumes "send_timeout_loop b send1 e t d x = Some (r, d', ps, x')"
  shows "r = TimedWaitRecv w \<or> r = TimedWaitReply w \<Longrightarrow> w = u64_of_i64 (e - t)"
    and "r = TimedReturn (Inl q) \<Longrightarrow> False"
proof -
  from assms obtain res ps1 s where run: "send1 d (inner_seq x) = Some (res, ps1, s)"
    by (cases "send1 d (inner_seq x)") (auto simp: send_timeout_loop_def Let_def)
  have "(r = TimedWaitRecv w \<or> r = TimedWaitReply w \<longrightarrow> w = u64_of_i64 (e - t)) \<and> r \<noteq> TimedReturn (Inl q)"
  proof (cases res)
    case (Inl p)
    obtain err d1 where "p = (err, d1)" by (cases p)
    with Inl run assms show ?thesis
      by (cases err; cases "i64_sub b e t") (auto simp: send_timeout_loop_def i64_sub_def split: if_splits)
  qed (use run assms in \<open>auto simp: send_timeout_loop_def\<close>)
  then show "r = TimedWaitRecv w \<or> r = TimedWaitReply w \<Longrightarrow> w = u64_of_i64 (e - t)"
    and "r = TimedReturn (Inl q) \<Longrightarrow> False" by blast+
qed

lemma uint_negative: "sint (x :: i64) < 0 \<Longrightarrow> uint x = 2 ^ 64 + sint x"
proof -
  assume neg: "sint x < 0"
  have "uint x = sint x mod 2 ^ 64" using uint_sint [of x] by (simp add: take_bit_eq_mod)
  also have "\<dots> = (sint x + 2 ^ 64) mod 2 ^ 64" by simp
  also have "\<dots> = sint x + 2 ^ 64"
    using neg sint_i64 [of x] by (intro mod_pos_pos_trivial) simp_all
  finally show ?thesis by simp
qed

text \<open>
  A negative timeout waits practically for ever. A send that must wait is put to sleep for
  \<open>2 ^ 64 + timeout\<close> milliseconds, more than 292 million years, before its deadline, which has
  already passed, is looked at.
\<close>

theorem negative_timeout_waits:
  assumes "sint timeout < 0" and "- (2 ^ 63) \<le> sint t0 + sint timeout"
    and "sync_send_timeout b t0 t c timeout d x = Some (r, d', ps, x')"
    and "r = TimedWaitRecv w \<or> r = TimedWaitReply w"
  shows "uint w = 2 ^ 64 + sint timeout"
proof -
  have "i64_saturating_add t0 timeout = t0 + timeout"
    using assms(1,2) sint_i64 [of t0] by (simp add: i64_saturating_add_def)
  with assms(3,4) have "send_timeout_loop b (try_send b t c) (t0 + timeout) t0 d x = Some (r, d', ps, x')"
    by (auto simp: sync_send_timeout_def send_timeout_start_def split: if_splits)
  from timed_wait_left(1) [OF this assms(4)] have "w = timeout" by (simp add: u64_of_i64_def)
  then show ?thesis using uint_negative [OF assms(1)] by simp
qed

definition four_sent :: "(nat, nat) event list" where
  "four_sent =
     [Section 0 (CallTrySend 0 False 1), Section 0 (CallTrySend 0 False 2),
      Section 0 (CallTrySend 0 False 3), Section 0 (CallTrySend 0 False 4)]"

theorem negative_timeout_waits_witness:
  "\<exists>us y w d ps x. run (sys_exec Debug) four_sent (new_sys 1 (sync_fresh 4)) = Some (us, y)
    \<and> sync_send_timeout Debug 0 0 False (- 1) 5 (inner_of y) = Some (TimedWaitRecv w, d, ps, x)
    \<and> uint w = 2 ^ 64 - 1"
proof -
  have "map_option (\<lambda>(us, y). map_option (\<lambda>(r, d, ps, x). r)
        (sync_send_timeout Debug 0 0 False (- 1) 5 (inner_of y)))
      (run (sys_exec Debug) four_sent (new_sys 1 (sync_fresh 4))) = Some (Some (TimedWaitRecv (- 1)))"
    by code_simp
  then obtain us y where run: "run (sys_exec Debug) four_sent (new_sys 1 (sync_fresh 4)) = Some (us, y)"
    and seen: "map_option (\<lambda>(r, d, ps, x). r) (sync_send_timeout Debug 0 0 False (- 1) 5 (inner_of y))
      = Some (TimedWaitRecv (- 1))"
    by (rule observed_run)
  from seen obtain d ps x where
    wait: "sync_send_timeout Debug 0 0 False (- 1) 5 (inner_of y) = Some (TimedWaitRecv (- 1), d, ps, x)"
    by auto
  from negative_timeout_waits [OF _ _ wait, of "- 1"] have "uint (- 1 :: u64) = 2 ^ 64 - 1" by simp
  with run wait show ?thesis by blast
qed

section \<open>The deadline\<close>

text \<open>
  A send with a timeout from its call through its wake-ups, as the macro \<^verbatim>\<open>send!\<close>
  runs it: \<open>timed_send b t0 timeout c d k t x res\<close> says that after \<open>k\<close> wake-ups, the last at time \<open>t\<close> in
  state \<open>x\<close>, it has the outcome \<open>res\<close>. Between two sections the state may change in any way.
\<close>

inductive timed_send :: "build \<Rightarrow> i64 \<Rightarrow> i64 \<Rightarrow> bool \<Rightarrow> 's \<Rightarrow> nat \<Rightarrow> i64 \<Rightarrow> ('s, 'r) inner \<Rightarrow>
    ((try_send_error \<times> 's) + i64 option) timed_outcome \<times> 's \<times> 's packet list \<times> ('s, 'r) inner \<Rightarrow> bool"
  for b t0 timeout c d where
  called: "sync_send_timeout b t0 t c timeout d x = Some res \<Longrightarrow> timed_send b t0 timeout c d 0 t0 x res"
| after_recv: "timed_send b t0 timeout c d k t1 x (TimedWaitRecv w, d1, ps, x1) \<Longrightarrow>
    send_timeout_woken_recv b (try_send b t' c) (i64_saturating_add t0 timeout) t d1 y = Some res \<Longrightarrow>
    timed_send b t0 timeout c d (Suc k) t y res"
| after_reply: "timed_send b t0 timeout c d k t1 x (TimedWaitReply w, d1, ps, x1) \<Longrightarrow>
    send_timeout_woken_reply b (try_send b t' c) (i64_saturating_add t0 timeout) t d1 y = Some res \<Longrightarrow>
    timed_send b t0 timeout c d (Suc k) t y res"

text \<open>The deadline, as a number.\<close>

definition deadline :: "i64 \<Rightarrow> i64 \<Rightarrow> int" where
  "deadline t0 timeout = min (2 ^ 63 - 1) (sint t0 + sint timeout)"

lemma saturated_end:
  assumes "0 \<le> sint timeout"
  shows "sint (i64_saturating_add t0 timeout) = deadline t0 timeout" and "sint t0 \<le> deadline t0 timeout"
proof -
  show "sint (i64_saturating_add t0 timeout) = deadline t0 timeout"
  proof (cases "2 ^ 63 \<le> sint t0 + sint timeout")
    case True
    then show ?thesis by (simp add: i64_saturating_add_def deadline_def i64_max_def)
  next
    case False
    with assms sint_i64 [of t0] have range: "i64_in_range (sint t0 + sint timeout)" by (simp add: i64_in_range_def)
    from timer_time [OF this] range show ?thesis
      by (auto simp: i64_saturating_add_def deadline_def i64_in_range_def)
  qed
  show "sint t0 \<le> deadline t0 timeout" using assms sint_i64 [of t0] by (simp add: deadline_def)
qed

lemma uint_time_left:
  assumes "sint (t :: i64) \<le> sint e"
  shows "uint (e - t) = sint e - sint t"
proof -
  have u: "uint x = sint x mod 2 ^ 64" for x :: i64
    using uint_sint [of x] by (simp add: take_bit_eq_mod)
  have "uint (e - t) = (uint e - uint t) mod 2 ^ 64" by (simp add: uint_word_ariths)
  also have "\<dots> = (sint e - sint t) mod 2 ^ 64" unfolding u by (rule mod_diff_eq)
  also have "\<dots> = sint e - sint t"
    using assms sint_i64 [of e] sint_i64 [of t] by (intro mod_pos_pos_trivial) simp_all
  finally show ?thesis .
qed

text \<open>What one turn of the loop returns.\<close>

fun timed_turn_ok :: "i64 \<Rightarrow> i64 \<Rightarrow> 's packet list \<Rightarrow> ((try_send_error \<times> 's) + i64 option) timed_outcome \<Rightarrow> bool" where
  "timed_turn_ok e t ps (TimedWaitRecv w) = (w = u64_of_i64 (e - t) \<and> ps = [])"
| "timed_turn_ok e t ps (TimedWaitReply w) = (w = u64_of_i64 (e - t) \<and> ps = [])"
| "timed_turn_ok e t ps (TimedReturn (Inl q)) = False"
| "timed_turn_ok e t ps (TimedReturn (Inr nst)) = (length ps = 1)"

lemma timed_outcome_cases:
  obtains (on_recv) w where "r = TimedWaitRecv w" | (on_reply) w where "r = TimedWaitReply w"
  | (failed) e d1 where "r = TimedReturn (Inl (e, d1))" | (went) nst where "r = TimedReturn (Inr nst)"
proof (cases r)
  case (TimedReturn q)
  then show thesis using failed went by (cases q) auto
qed (use on_recv on_reply in blast)+

lemma refused_send_data:
  assumes "try_send b t c d s = Some (Inl (e, d1), ps, s')"
  shows "d1 = d \<and> ps = []"
proof -
  from assms obtain q s1 where run: "try_send_direct_with b t c (\<lambda>_. d) s = Some (q, s1)"
    by (auto simp: try_send_def try_send_direct_def bind_eq_Some_conv)
  with assms show ?thesis
    by (cases q) (auto simp: try_send_def try_send_direct_def)
qed

lemma sent_one:
  assumes "try_send b t c d s = Some (Inr u, ps, s')"
  shows "length ps = 1"
proof -
  from assms obtain q s1 where run: "try_send_direct b t c d s = Some (q, s1)"
    by (auto simp: try_send_def bind_eq_Some_conv)
  with assms show ?thesis by (cases q) (auto simp: try_send_def)
qed

lemma timed_turn:
  assumes "send_timeout_loop b (try_send b t' c) e t d x = Some (r, d1, ps, x')"
  shows "d1 = d \<and> timed_turn_ok e t ps r"
proof -
  from assms obtain res ps1 s where run: "try_send b t' c d (inner_seq x) = Some (res, ps1, s)"
    by (cases "try_send b t' c d (inner_seq x)") (auto simp: send_timeout_loop_def Let_def)
  show ?thesis
  proof (cases res)
    case (Inl q)
    obtain err d2 where q: "q = (err, d2)" by (cases q)
    with Inl run have "d2 = d" and "ps1 = []" using refused_send_data [of b t' c d] by blast+
    with q Inl run assms show ?thesis
      by (cases err; cases "i64_sub b e t") (auto simp: send_timeout_loop_def i64_sub_def split: if_splits)
  next
    case (Inr a)
    with run have "length ps1 = 1" using sent_one [of b t' c d "inner_seq x" a] by simp
    with Inr run assms show ?thesis by (auto simp: send_timeout_loop_def)
  qed
qed

text \<open>What is true of every outcome.\<close>

fun timed_result_ok :: "i64 \<Rightarrow> i64 \<Rightarrow> 's \<Rightarrow> nat \<Rightarrow> i64 \<Rightarrow> ('s, 'r) inner \<Rightarrow>
    ((try_send_error \<times> 's) + i64 option) timed_outcome \<times> 's \<times> 's packet list \<times> ('s, 'r) inner \<Rightarrow> bool" where
  "timed_result_ok t0 timeout d k t x (TimedWaitRecv w, d1, ps, x') =
     (uint w = deadline t0 timeout - sint t \<and> d1 = d \<and> ps = [])"
| "timed_result_ok t0 timeout d k t x (TimedWaitReply w, d1, ps, x') =
     (uint w = deadline t0 timeout - sint t \<and> d1 = d \<and> ps = [])"
| "timed_result_ok t0 timeout d k t x (TimedReturn (Inl (e, d1)), d2, ps, x') =
     (d1 = d \<and> ps = [] \<and> inner_seq x' = inner_seq x
      \<and> (if e = SendClosed then closed x else 0 < k \<and> deadline t0 timeout \<le> sint t))"
| "timed_result_ok t0 timeout d k t x (TimedReturn (Inr nst), d1, ps, x') = (length ps = 1 \<and> \<not> closed x)"

lemma timed_turn_result:
  assumes "send_timeout_loop b (try_send b t' c) e t d x = Some res" and "\<not> closed y"
    and "sint e = deadline t0 timeout" and "sint t \<le> sint e"
  shows "timed_result_ok t0 timeout d k t y res"
proof -
  obtain r d1 ps x' where res: "res = (r, d1, ps, x')" by (cases res)
  with assms(1) have "send_timeout_loop b (try_send b t' c) e t d x = Some (r, d1, ps, x')" by simp
  from timed_turn [OF this] uint_time_left [OF assms(4)] assms(2,3) show ?thesis
    unfolding res by (cases r rule: timed_outcome_cases) (auto simp: u64_of_i64_def)
qed

lemma timed_woken_result:
  assumes "send_timeout_woken_recv b (try_send b t' c) e t d x = Some res
      \<or> send_timeout_woken_reply b (try_send b t' c) e t d x = Some res"
    and "sint e = deadline t0 timeout"
  shows "timed_result_ok t0 timeout d (Suc k) t x res
    \<and> (deadline t0 timeout \<le> sint t \<longrightarrow> (\<exists>err. fst res = TimedReturn (Inl (err, d)) \<and> err \<noteq> SendClosed))"
proof (cases "sint e \<le> sint t")
  case True
  with assms show ?thesis
    by (auto simp: send_timeout_woken_recv_def send_timeout_woken_reply_def bind_eq_Some_conv)
next
  case False
  show ?thesis
  proof (cases "closed x")
    case True
    with assms False show ?thesis
      by (auto simp: send_timeout_woken_recv_def send_timeout_woken_reply_def bind_eq_Some_conv)
  next
    case opn: False
    with assms(1) False obtain x1 where "send_timeout_loop b (try_send b t' c) e t d x1 = Some res"
      by (auto simp: send_timeout_woken_recv_def send_timeout_woken_reply_def bind_eq_Some_conv Let_def)
    from timed_turn_result [OF this opn assms(2), of "Suc k"] False assms(2) show ?thesis by simp
  qed
qed

lemma timed_result_data:
  "timed_result_ok t0 timeout d k t x (TimedWaitRecv w, d1, ps, x') \<Longrightarrow> d1 = d"
  "timed_result_ok t0 timeout d k t x (TimedWaitReply w, d1, ps, x') \<Longrightarrow> d1 = d"
  by simp_all

lemma timed_send_result:
  assumes "timed_send b t0 timeout c d k t x res" and "0 \<le> sint timeout"
  shows "timed_result_ok t0 timeout d k t x res
    \<and> (0 < k \<longrightarrow> deadline t0 timeout \<le> sint t \<longrightarrow> (\<exists>err. fst res = TimedReturn (Inl (err, d)) \<and> err \<noteq> SendClosed))"
  using assms(1)
proof (induction rule: timed_send.induct)
  case (called t x res)
  note ends = saturated_end [OF assms(2), of t0]
  show ?case
  proof (cases "closed x")
    case True
    with called show ?thesis by (auto simp: sync_send_timeout_def send_timeout_start_def)
  next
    case False
    with called have "send_timeout_loop b (try_send b t c) (i64_saturating_add t0 timeout) t0 d x = Some res"
      by (simp add: sync_send_timeout_def send_timeout_start_def)
    from timed_turn_result [OF this False ends(1)] ends show ?thesis by simp
  qed
next
  case (after_recv k t1 x w d1 ps x1 t' t y res)
  then have "d1 = d" by (auto intro: timed_result_data(1))
  with after_recv.hyps(2) have run: "send_timeout_woken_recv b (try_send b t' c) (i64_saturating_add t0 timeout) t d y = Some res"
    by simp
  from timed_woken_result [OF disjI1 [OF run] saturated_end(1) [OF assms(2)]] show ?case by blast
next
  case (after_reply k t1 x w d1 ps x1 t' t y res)
  then have "d1 = d" by (auto intro: timed_result_data(2))
  with after_reply.hyps(2) have run: "send_timeout_woken_reply b (try_send b t' c) (i64_saturating_add t0 timeout) t d y = Some res"
    by simp
  from timed_woken_result [OF disjI2 [OF run] saturated_end(1) [OF assms(2)]] show ?case by blast
qed

text \<open>
  C38. A timed send keeps its deadline, which is the time of the call plus the timeout, at most the last
  representable time. For a timeout that is not negative, through any number of wake-ups with any state
  in between: every wait is for exactly the time from the last look at the clock to the deadline, with
  nothing sent; it reports that it timed out when, and only when, it was woken and the clock has reached
  the deadline; any other error is that the instance is closed. With an error the data comes back and the
  instance is as it was; with success one packet was sent.
\<close>

theorem timed_send_keeps_deadline:
  assumes "timed_send b t0 timeout c d k t x (r, d', ps, x')" and "0 \<le> sint timeout"
  shows "(case r of
      TimedWaitRecv w \<Rightarrow> uint w = deadline t0 timeout - sint t \<and> d' = d \<and> ps = []
    | TimedWaitReply w \<Rightarrow> uint w = deadline t0 timeout - sint t \<and> d' = d \<and> ps = []
    | TimedReturn (Inl (e, d1)) \<Rightarrow> d1 = d \<and> ps = [] \<and> inner_seq x' = inner_seq x
        \<and> (if e = SendClosed then closed x else 0 < k \<and> deadline t0 timeout \<le> sint t)
    | TimedReturn (Inr nst) \<Rightarrow> length ps = 1 \<and> \<not> closed x \<and> (0 < k \<longrightarrow> sint t < deadline t0 timeout))
    \<and> ((\<exists>e. r = TimedReturn (Inl (e, d)) \<and> e \<noteq> SendClosed) \<longleftrightarrow> 0 < k \<and> deadline t0 timeout \<le> sint t)"
  using timed_send_result [OF assms]
  by (cases r rule: timed_outcome_cases) (auto simp: not_le split: if_splits)

text \<open>The window of four is full; a send with a timeout of 10 that is woken at time 12.\<close>

theorem timed_send_keeps_deadline_witness:
  "\<exists>us y (x :: (nat, nat) inner) e d ps x'. run (sys_exec Debug) four_sent (new_sys 1 (sync_fresh 4)) = Some (us, y)
    \<and> timed_send Debug 0 10 False 5 1 12 x (TimedReturn (Inl (e, 5)), d, ps, x') \<and> e \<noteq> SendClosed"
proof -
  have "map_option (\<lambda>(us, y). map_option (\<lambda>(r, d, ps, x). (r, d,
          send_timeout_woken_recv Debug (try_send Debug 12 False) (i64_saturating_add 0 10) 12 d x \<noteq> None))
        (sync_send_timeout Debug 0 0 False 10 5 (inner_of y)))
      (run (sys_exec Debug) four_sent (new_sys 1 (sync_fresh 4))) = Some (Some (TimedWaitRecv 10, 5, True))"
    by code_simp
  then obtain us y where run: "run (sys_exec Debug) four_sent (new_sys 1 (sync_fresh 4)) = Some (us, y)"
    and seen: "map_option (\<lambda>(r, d, ps, x). (r, d,
          send_timeout_woken_recv Debug (try_send Debug 12 False) (i64_saturating_add 0 10) 12 d x \<noteq> None))
        (sync_send_timeout Debug 0 0 False 10 5 (inner_of y)) = Some (TimedWaitRecv 10, 5, True)"
    by (rule observed_run)
  from seen obtain ps1 x r d ps x' where
    wait: "sync_send_timeout Debug 0 0 False 10 5 (inner_of y) = Some (TimedWaitRecv 10, 5, ps1, x)"
    and woken: "send_timeout_woken_recv Debug (try_send Debug 12 False) (i64_saturating_add 0 10) 12 5 x
      = Some (r, d, ps, x')" by auto
  have send: "timed_send Debug 0 10 False 5 1 12 x (r, d, ps, x')"
    using timed_send.after_recv [OF timed_send.called [OF wait] woken] by simp
  have "deadline 0 10 \<le> sint (12 :: i64)" by (simp add: deadline_def)
  with timed_send_keeps_deadline [OF send] obtain e where "r = TimedReturn (Inl (e, 5))" "e \<noteq> SendClosed"
    by auto
  with run send show ?thesis by blast
qed

end
