(* ===== verification/Thread_Limits.thy ===== *)
theory Thread_Limits
  imports Closing Timed_Send
begin

text \<open>
  Where the thread-safe API does not do what its documentation says: wake-ups that are not sent or
  are swallowed, and a lock that \<^verbatim>\<open>close\<close> loses. Each is a theorem
  about the code as it is; the runs are schedules that anyone can replay.
\<close>

section \<open>Wake-ups that go missing\<close>

text \<open>
  The window of four is full and packets 1, 2 and 3 are acknowledged; thread 0 sends with a timeout
  and thread 1 without. The last acknowledgement wakes thread 0, which runs after its deadline.
\<close>

definition swallow_schedule :: "(nat, nat) event list" where
  "swallow_schedule =
     [Section 2 (CallTrySend 0 False 1), Section 2 (CallTrySend 0 False 2),
      Section 2 (CallTrySend 0 False 3), Section 2 (CallTrySend 0 False 4),
      Section 2 (CallTryReceive (Ack 1)), Section 2 (CallTryReceive (Ack 2)),
      Section 2 (CallTryReceive (Ack 3)),
      Section 0 (CallSendTimeout 0 0 False 10 5), Section 1 (CallSend 0 False 6),
      Section 2 (CallTryReceive (Ack 0)), Deliver 0 0, Section 0 (Continue 12 12)]"

text \<open>
  A sender that times out swallows the wake-up of another. In this run, which a debug build
  allows, the send with a timeout returns, and the send without one is left asleep although the
  window is empty, no notification is pending, and nothing is in flight whose acknowledgement
  could wake it.
\<close>

lemma timed_out_sender_swallows_wakeup:
  "\<exists>us y. run (sys_exec Debug) swallow_schedule (new_sys 3 (sync_fresh 4)) = Some (us, y)
    \<and> threads y = [Idle, SendOnRecv False False 6 None, Idle] \<and> pending y = []
    \<and> entries (send_window (inner_seq (inner_of y))) = []
    \<and> is_full_inner Debug (inner_seq (inner_of y)) None = Some (Inr ())
    \<and> permitted (sys_exec Debug) (event_ok Debug) swallow_schedule (new_sys 3 (sync_fresh 4))"
proof -
  have "permitted (sys_exec Debug) (event_ok Debug) swallow_schedule (new_sys 3 (sync_fresh 4))"
    by code_simp
  moreover have "map_option (\<lambda>(us, y). (threads y, pending y,
        entries (send_window (inner_seq (inner_of y))),
        is_full_inner Debug (inner_seq (inner_of y)) None))
      (run (sys_exec Debug) swallow_schedule (new_sys 3 (sync_fresh 4)))
    = Some ([Idle, SendOnRecv False False 6 None, Idle], [], [], Some (Inr ()))"
    by code_simp
  ultimately show ?thesis by (auto elim!: observed_run)
qed

text \<open>
  Two guards fill the reservations of a window of four, so a send waits for a reply. Then the first
  guard is acknowledged while its lock is kept.
\<close>

definition locked_ack_schedule :: "(nat, nat) event list" where
  "locked_ack_schedule =
     [Section 0 (CallTryReceive (SeqCstPayload 0 1)), Section 0 (CallTryReceive (Payload 1 2)),
      Section 1 (CallSend 0 False 6), Section 0 (CallAck 0)]"

text \<open>
  \<^verbatim>\<open>ack\<close> of a guard that holds the lock wakes nobody. It gives the reply
  number back, after which there is room to send, but the thread that waits for just that stays
  asleep, with no notification pending.
\<close>

lemma locked_ack_wakes_nobody:
  "\<exists>us y. run (sys_exec Debug) locked_ack_schedule (new_sys 2 (sync_fresh 4)) = Some (us, y)
    \<and> threads y = [Idle, SendOnReply False False 6 None] \<and> pending y = []
    \<and> is_full_inner Debug (inner_seq (inner_of y)) None = Some (Inr ())
    \<and> permitted (sys_exec Debug) (event_ok Debug) locked_ack_schedule (new_sys 2 (sync_fresh 4))"
proof -
  have "permitted (sys_exec Debug) (event_ok Debug) locked_ack_schedule (new_sys 2 (sync_fresh 4))"
    by code_simp
  moreover have "map_option (\<lambda>(us, y). (threads y, pending y,
        is_full_inner Debug (inner_seq (inner_of y)) None))
      (run (sys_exec Debug) locked_ack_schedule (new_sys 2 (sync_fresh 4)))
    = Some ([Idle, SendOnReply False False 6 None], [], Some (Inr ()))"
    by code_simp
  ultimately show ?thesis by (auto elim!: observed_run)
qed

section \<open>Closing\<close>

text \<open>
  What the calls on a closed instance return: every way of sending the error with the data, every way of
  receiving the error; only \<^verbatim>\<open>service\<close> goes on.
\<close>

lemma closed_refuses:
  assumes "closed x"
  shows "sync_try_send b t c d x = Some (Inl (SendClosed, d), [], x)"
    and "sync_try_send_with b t c f x = Some (Inl (SendClosed, f), [], x)"
    and "sync_send b t c d x = Some (Return (Inl ClosedError), d, [], x)"
    and "sync_send_with b t c f x = Some (Return (Inl ClosedError), f, [], x)"
    and "sync_send_timeout b t0 t c timeout d x = Some (TimedReturn (Inl (SendClosed, d)), d, [], x)"
    and "sync_send_with_timeout b t0 t c timeout f x = Some (TimedReturn (Inl (SendClosed, f)), f, [], x)"
    and "sync_try_receive b p x = Some (Inl SyncClosed, [], [], x)"
    and "sync_service_scheduled b t x = Some (Inl ClosedError, [], x)"
  using assms by (simp_all add: sync_send_def sync_send_with_def sync_try_send_with_def
      sync_send_timeout_def sync_send_with_timeout_def)

text \<open>
  A closed instance whose lock nobody holds any more: its holder was dropped after
  \<^verbatim>\<open>close\<close>.
\<close>

definition orphaned :: "('s, 'r) shared \<Rightarrow> bool" where
  "orphaned sh \<longleftrightarrow> closed (sh_inner sh) \<and> core_inv (inner_seq (sh_inner sh))
     \<and> is_locked (inner_seq (sh_inner sh)) \<and> holders (sess_of sh) = 0"

definition orphan_session :: "('s, 'r) session \<Rightarrow> bool" where
  "orphan_session x \<longleftrightarrow> core_inv (sess_seq x) \<and> is_locked (sess_seq x) \<and> holders x = 0"

lemma orphan_gains:
  assumes "orphan_session x" and "core_inv s'" and "gains gs (sess_seq x) s'"
  shows "orphan_session (x\<lparr>sess_seq := s', sess_guards := sess_guards x @ gs\<rparr>)"
  using assms by (auto simp: orphan_session_def gains_def holders_def split: if_splits)

lemma no_holder:
  "holders x = 0 \<Longrightarrow> i < length (sess_guards x) \<Longrightarrow> \<not> is_holding_lock (sess_guards x ! i)"
  using filter_positive [of i "sess_guards x" is_holding_lock] by (auto simp: holders_def)

lemma orphan_used:
  assumes "orphan_session x" and "use_up i k x = Some (ps, x')"
    and "\<And>g. k g \<le> (if is_holding_lock g then 1 else 0)"
  shows "orphan_session x'"
proof -
  from assms(2) have i: "i < length (sess_guards x)"
    and x': "x' = x\<lparr>sess_guards := remove_at i (sess_guards x),
      seq_cst_guards := seq_cst_guards x + k (sess_guards x ! i)\<rparr>"
    by (auto simp: use_up_def bind_eq_Some_conv arr_get_def split: if_splits)
  from assms(1) have none: "holders x = 0" by (simp add: orphan_session_def)
  with assms(3) [of "sess_guards x ! i"] no_holder [OF none i] have "k (sess_guards x ! i) = 0"
    by simp
  with none x' remove_at_count [OF i, of is_holding_lock] assms(1) show ?thesis
    by (auto simp: orphan_session_def holders_def split: if_splits)
qed

lemma orphan_step:
  assumes orphan: "orphan_session x" and run: "shut_step b c x = Some (ps, x')"
  shows "orphan_session x'"
proof (cases c)
  case ApiPump
  with run obtain r s' where "try_pump b (sess_seq x) = Some (r, s')"
    and "x' = x\<lparr>sess_seq := s', sess_guards := sess_guards x @ received_guards r\<rparr>"
    by (auto simp: bind_eq_Some_conv)
  with orphan try_pump_views [of "sess_seq x" b r s'] orphan_gains [OF orphan] show ?thesis
    by (simp add: orphan_session_def)
next
  case (ApiService t)
  with run obtain left s' where "service b t (sess_seq x) = Some (left, ps, s')"
    and "x' = x\<lparr>sess_seq := s'\<rparr>"
    by (auto simp: bind_eq_Some_conv)
  with orphan service_views [of "sess_seq x" b t left ps s'] orphan_gains [OF orphan, of s' "[]"]
  show ?thesis by (simp add: orphan_session_def)
next
  case (ApiUnlock i)
  with run orphan no_holder [of x i] show ?thesis
    by (auto simp: orphan_session_def arr_get_def guard_unlock_def split: if_splits)
qed (use run orphan orphan_used [OF orphan] kept_lock_le in
    \<open>auto simp: orphan_session_def holders_def\<close>)

lemma orphaned_reachable:
  assumes "reachable b y z" and "waiters_ok y" and "orphaned (common y)"
  shows "orphaned (common z)"
proof -
  have "closed (inner_of y)" and "orphan_session (sess_of (common y))"
    using assms(3) by (simp_all add: orphaned_def orphan_session_def inner_of_def)
  then have "closed (inner_of z) \<and> waiters_ok z \<and> orphan_session (sess_of (common z))"
    using closed_reachable [OF assms(1) _ assms(2), where P = orphan_session] orphan_step by blast
  then show ?thesis by (simp add: orphaned_def orphan_session_def inner_of_def)
qed

text \<open>
  C35. A lock can be lost for ever. If the instance is closed and locked while no guard holds the
  lock, as it is after the holder was dropped, then it stays so whatever the threads do: every
  guard handed out later is not a holder, so no SeqCst packet left in the receive window is ever
  processed, though \<^verbatim>\<open>close\<close> promises that it can be pumped.
\<close>

theorem orphaned_lock_is_forever:
  assumes "waiters_ok y" and "orphaned (common y)" and "reachable b y z"
  shows "is_locked (inner_seq (inner_of z)) \<and> closed (inner_of z) \<and> sh_locks (common z) = 0
    \<and> list_all (\<lambda>g. \<not> is_holding_lock g) (sh_guards (common z))"
  using orphaned_reachable [OF assms(3,1,2)]
  by (auto simp: orphaned_def inner_of_def holders_def list_all_iff filter_empty_conv)

text \<open>Thread 1 waits to pump; the instance is closed and the guard that holds the lock dropped.\<close>

definition orphan_schedule :: "(nat, nat) event list" where
  "orphan_schedule = one_pumping @ [Section 0 CallClose, Section 0 (CallDrop 0)]"

theorem orphaned_lock_is_forever_witness:
  "\<exists>y z. reachable Debug (new_sys 2 (sync_fresh 8)) y \<and> reachable Debug y z
    \<and> threads z = [Idle, PumpOnReply False] \<and> pending z = [] \<and> sh_guards (common z) = []
    \<and> is_locked (inner_seq (inner_of z))"
proof -
  have "map_option (\<lambda>(us, y). (closed (sh_inner (common y)),
        is_locked (inner_seq (sh_inner (common y))), holders (sess_of (common y)),
        map_option (\<lambda>(us, z). (threads z, pending z, sh_guards (common z)))
          (run (sys_exec Debug) [Deliver 0 0, Section 1 (Continue 0 0)] y)))
      (run (sys_exec Debug) orphan_schedule (new_sys 2 (sync_fresh 8)))
    = Some (True, True, 0, Some ([Idle, PumpOnReply False], [], []))"
    by code_simp
  then obtain us y where run: "run (sys_exec Debug) orphan_schedule (new_sys 2 (sync_fresh 8)) = Some (us, y)"
    and seen: "(closed (sh_inner (common y)),
        is_locked (inner_seq (sh_inner (common y))), holders (sess_of (common y)),
        map_option (\<lambda>(us, z). (threads z, pending z, sh_guards (common z)))
          (run (sys_exec Debug) [Deliver 0 0, Section 1 (Continue 0 0)] y))
      = (True, True, 0, Some ([Idle, PumpOnReply False], [], []))"
    by (rule observed_run)
  have "permitted (sys_exec Debug) (event_ok Debug) orphan_schedule (new_sys 2 (sync_fresh 8))"
    by code_simp
  from threaded.run_inv [OF new_sys_inv [OF small_rings(2) sync_fresh_new(2)] this run] seen
  have "core_inv (inner_seq (sh_inner (common y)))"
    by (simp add: sys_inv_def shared_inv_def shut_inv_def sound_def)
  with seen have "orphaned (common y)" by (simp add: orphaned_def)
  moreover have y: "reachable Debug (new_sys 2 (sync_fresh 8)) y" by (rule schedule_reachable [OF run])
  have "waiters_ok y" by (rule waiters_ok_reachable [OF y waiters_ok_new [OF sync_fresh_new(2)]])
  moreover from seen obtain vs z where
    more: "run (sys_exec Debug) [Deliver 0 0, Section 1 (Continue 0 0)] y = Some (vs, z)"
    and z: "threads z = [Idle, PumpOnReply False]" "pending z = []" "sh_guards (common z) = []"
    by (auto simp del: run.simps sys_exec.simps)
  have "reachable Debug y z" by (rule schedule_reachable [OF more])
  ultimately show ?thesis using orphaned_lock_is_forever y z by blast
qed

end
