(* ===== verification/Pumping.thy ===== *)
theory Pumping
  imports Guards
begin

text \<open>
  Loops that pump until nothing is left end: every packet pumped leaves the receive window, and
  answering it leaves the window alone.
\<close>

lemma fast_forward_occupied:
  "fast_forward b s = Some (p, s') \<Longrightarrow>
   length (filter is_occupied (recv_window s')) = length (filter is_occupied (recv_window s))"
proof (induction b s arbitrary: p rule: fast_forward.induct)
  case (1 b s)
  let ?i = "slot (length (recv_window s)) (next_recv_seq_no s)"
  show ?case
  proof (cases "arr_get (recv_window s) ?i")
    case (Some x)
    with 1 show ?thesis
      using update_count [of ?i "recv_window s" is_occupied Empty]
      by (cases x) (auto simp: fast_forward.simps [of b s] arr_get_def Let_def
          split: if_splits option.splits)
  qed (use 1 in \<open>simp add: fast_forward.simps [of b s] Let_def\<close>)
qed

lemma take_send_recv_window:
  "take_send r s = Some (x, s') \<Longrightarrow> recv_window s' = recv_window s"
  by (cases "arr_get (send_window s) (send_window_slot s r)")
    (auto simp: take_send_def Let_def split: option.splits if_splits)

lemma deliver_recv_window:
  assumes "deliver b n ro c d s = Some (r, s')"
  shows "recv_window s' = recv_window s"
proof -
  from assms obtain rs where rs: "arr_set (concurrent_replies s) (concurrent_replies_total s) n = Some rs"
    by (auto simp: deliver_def bind_eq_Some_conv)
  let ?s1 = "s\<lparr>concurrent_replies := rs, concurrent_replies_total := Suc (concurrent_replies_total s)\<rparr>"
  let ?s2 = "if c then ?s1\<lparr>is_locked := True\<rparr> else ?s1"
  from assms rs obtain x where
    taken: "(case ro of None \<Rightarrow> Some (None, ?s2) | Some n \<Rightarrow> take_send n ?s2) = Some x"
    and "s' = snd x"
    by (cases "case ro of None \<Rightarrow> Some (None, ?s2) | Some n \<Rightarrow> take_send n ?s2")
      (auto simp: deliver_def Let_def bind_eq_Some_conv split: option.splits)
  then have "recv_window s' = recv_window ?s2"
    by (cases x) (auto dest: take_send_recv_window split: option.splits)
  then show ?thesis by simp
qed

lemma pump_occupied:
  assumes "try_pump_raw b s = Some (Inr r, s')"
  shows "length (filter is_occupied (recv_window s')) < length (filter is_occupied (recv_window s))"
proof -
  let ?i = "slot (length (recv_window s)) (next_recv_seq_no s)"
  let ?s = "s\<lparr>recv_window := (recv_window s)[?i := Empty], next_recv_seq_no := next_recv_seq_no s + 1\<rparr>"
  from assms obtain x where x: "arr_get (recv_window s) ?i = Some x"
    by (auto simp: try_pump_raw_def Let_def bind_eq_Some_conv)
  with assms obtain n ro c d where occ: "x = Occupied n ro c d"
    by (cases x) (auto simp: try_pump_raw_def Let_def)
  with assms x obtain full where full: "is_full_inner b s ro = Some full"
    by (auto simp: try_pump_raw_def Let_def bind_eq_Some_conv)
  have pass: "full = Inr ()" "\<not> c \<or> \<not> is_locked s"
    using assms x occ full
    by (cases full; auto simp: try_pump_raw_def Let_def bind_eq_Some_conv split: if_splits)+
  with assms x occ full obtain p s1 q where ff: "fast_forward b ?s = Some (p, s1)"
    and deliver: "deliver b n ro c d s1 = Some (q, s')"
    by (auto simp: try_pump_raw_def Let_def bind_eq_Some_conv)
  have "length (filter is_occupied (recv_window ?s)) < length (filter is_occupied (recv_window s))"
    using x occ update_count [of ?i "recv_window s" is_occupied Empty]
    by (auto simp: arr_get_def split: if_splits)
  then show ?thesis
    using fast_forward_occupied [OF ff] deliver_recv_window [OF deliver] by simp
qed

text \<open>Acknowledging leaves the receive window and the timer alone.\<close>

definition same_recv :: "('s, 'r) seqex \<Rightarrow> ('s, 'r) seqex \<Rightarrow> bool" where
  "same_recv s s' \<longleftrightarrow> recv_window s' = recv_window s \<and> next_recv_seq_no s' = next_recv_seq_no s
     \<and> next_service_timestamp s' = next_service_timestamp s"

lemma same_recv_refl [simp]: "same_recv s s"
  by (simp add: same_recv_def)

lemma remove_reservation_same:
  "remove_reservation n s = Some (r, s') \<Longrightarrow> same_recv s s'"
  by (auto simp: remove_reservation_def same_recv_def Let_def bind_eq_Some_conv split: option.splits)

lemma ack_same:
  assumes "ack_raw b n u s = Some (r, ps, s')"
  shows "same_recv s s'"
proof -
  from assms obtain q where run: "ack_raw_and_direct b n u s = Some (q, s')"
    by (cases "ack_raw_and_direct b n u s") (auto simp: ack_raw_def split: option.splits)
  then obtain removed s1 where "remove_reservation n s = Some (removed, s1)"
    by (auto simp: ack_raw_and_direct_def bind_eq_Some_conv)
  with run remove_reservation_same [OF this] show ?thesis
    by (cases removed) (auto simp: ack_raw_and_direct_def unlock_if_def same_recv_def bind_eq_Some_conv
        split: if_splits)
qed

end
