(* ===== verification/Tokio.thy ===== *)
theory Tokio
  imports Pumping
begin

text \<open>
  The async API (\<^verbatim>\<open>src/tokio.rs\<close>). Every use of the mutex is one function on
  the state behind it; an async method is its sections, and what it does with the answer it awaits.

  \<^verbatim>\<open>oneshot\<close>, \<^verbatim>\<open>mpsc\<close> and \<^verbatim>\<open>Notify\<close>
  belong to the tokio crate. A oneshot channel is its number; sending on one, and the calls on the
  two \<^verbatim>\<open>Notify\<close>, are events in the order they are made. Whether the future that
  holds the receiving end of a channel is still there is a parameter \<open>alive\<close>, and an answer that
  is awaited is an argument.
\<close>

section \<open>State\<close>

type_synonym chan = nat

text \<open>The sending end of a channel with the data it stands for.\<close>

type_synonym 's sender = "chan \<times> 's"
type_synonym 'r receiver = "chan \<times> 'r"

record ('s, 'r) async_inner =
  async_seq :: "('s sender, 'r receiver) seqex"
  async_recv_waiters :: nat
  async_reply_waiters :: bool

text \<open>\<^verbatim>\<open>TellSender\<close> is \<^verbatim>\<open>send\<close> on the channel of a packet that was
  sent, \<open>TellReceiver\<close> on that of a packet in the receive window.\<close>

datatype 'r event =
    NotifyReplyWaiters
  | NotifyRecvWaiter
  | TellSender chan "(seq_no \<times> bool \<times> 'r) option"
  | TellReceiver chan "seq_no \<times> bool \<times> 'r"

datatype async_recv_error =
    AsyncDroppedTooEarly
  | AsyncDroppedDuplicate
  | AsyncReply
  | AsyncSeqExClosed

datatype async_error = EndOfExchange | SeqExClosed

fun display_async_recv_error :: "async_recv_error \<Rightarrow> string" where
  "display_async_recv_error AsyncDroppedTooEarly = ''packet arrived too early''"
| "display_async_recv_error AsyncDroppedDuplicate = ''packet was a duplicate''"
| "display_async_recv_error AsyncReply = ''packet was an async reply''"
| "display_async_recv_error AsyncSeqExClosed = ''the instance of SeqEx was dropped''"

fun display_async_error :: "async_error \<Rightarrow> string" where
  "display_async_error EndOfExchange = ''peer replied with an ack''"
| "display_async_error SeqExClosed = ''the window was closed before a reply could be received''"

text \<open>
  The service task keeps its timestamp; the queue of updates to it is a list of the timestamps
  sent.
\<close>

record service_state =
  task_next_service :: i64

definition async_new :: "build \<Rightarrow> nat \<Rightarrow> i64 \<Rightarrow> seq_no \<Rightarrow>
    (('s, 'r) async_inner \<times> service_state) option" where
  "async_new b cap retry_interval initial_seq_no = do {
     s \<leftarrow> new_seqex b cap retry_interval initial_seq_no;
     Some (\<lparr> async_seq = s, async_recv_waiters = 0, async_reply_waiters = False \<rparr>,
           \<lparr> task_next_service = i64_max \<rparr>)
   }"

definition async_new_default :: "build \<Rightarrow> nat \<Rightarrow> (('s, 'r) async_inner \<times> service_state) option" where
  "async_new_default b cap = async_new b cap DEFAULT_RESEND_INTERVAL_MS DEFAULT_INITIAL_SEQ_NO"

text \<open>The packet the user's transport layer gets: the data without its channel.\<close>

definition wire :: "'s sender packet \<Rightarrow> 's packet" where
  "wire p = packet_map snd p"

definition async_notify_reply :: "('s, 'r) async_inner \<Rightarrow> 'r event list \<times> ('s, 'r) async_inner" where
  "async_notify_reply x =
     (if async_reply_waiters x then ([NotifyReplyWaiters], x\<lparr>async_reply_waiters := False\<rparr>)
      else ([], x))"

text \<open>The next service timestamp, if it changed.\<close>

definition changed :: "i64 \<Rightarrow> i64 \<Rightarrow> i64 option" where
  "changed pre_ts ts = (if pre_ts \<noteq> ts then Some ts else None)"

section \<open>Reply guards\<close>

definition try_reply_with_inner ::
  "build \<Rightarrow> i64 \<Rightarrow> bool \<Rightarrow> (seq_no \<Rightarrow> seq_no \<Rightarrow> 's sender) \<Rightarrow> reply_guard \<Rightarrow> ('s, 'r) async_inner \<Rightarrow>
   (i64 option \<times> 's packet list \<times> 'r event list \<times> ('s, 'r) async_inner) option" where
  "try_reply_with_inner b time seq_cst packet_data g x = do {
     let seq_no = seq_no_of (async_seq x);
     let pre_ts = next_service_timestamp (async_seq x);
     (_, ps, s) \<leftarrow> reply_raw b time (guard_reply_no g) (is_holding_lock g) seq_cst
                     (packet_data seq_no (guard_reply_no g)) (async_seq x);
     let ret = changed pre_ts (next_service_timestamp s);
     let (es, x) = async_notify_reply (x\<lparr>async_seq := s\<rparr>);
     Some (ret, map wire ps, es, x)
   }"

text \<open>
  \<^verbatim>\<open>reply_with\<close> makes a channel \<open>tx\<close>, sends the reply, queues the update and
  awaits the answer on the channel.
\<close>

definition async_reply_with ::
  "build \<Rightarrow> i64 \<Rightarrow> chan \<Rightarrow> bool \<Rightarrow> (seq_no \<Rightarrow> seq_no \<Rightarrow> 's) \<Rightarrow> reply_guard \<Rightarrow> ('s, 'r) async_inner \<Rightarrow>
   (i64 option \<times> 's packet list \<times> 'r event list \<times> ('s, 'r) async_inner) option" where
  "async_reply_with b time tx seq_cst packet_data g x =
     try_reply_with_inner b time seq_cst (\<lambda>s r. (tx, packet_data s r)) g x"

definition async_reply ::
  "build \<Rightarrow> i64 \<Rightarrow> chan \<Rightarrow> bool \<Rightarrow> 's \<Rightarrow> reply_guard \<Rightarrow> ('s, 'r) async_inner \<Rightarrow>
   (i64 option \<times> 's packet list \<times> 'r event list \<times> ('s, 'r) async_inner) option" where
  "async_reply b time tx seq_cst packet_data g x =
     async_reply_with b time tx seq_cst (\<lambda>_ _. packet_data) g x"

text \<open>
  What an awaited channel gives: \<open>None\<close> when its sending end was dropped, otherwise what was sent.
\<close>

fun exchange_answer ::
  "(seq_no \<times> bool \<times> 'r) option option \<Rightarrow> async_error + (reply_guard \<times> 'r)" where
  "exchange_answer None = Inl SeqExClosed"
| "exchange_answer (Some None) = Inl EndOfExchange"
| "exchange_answer (Some (Some (reply_no, seq_cst, recv_data))) =
     Inr (guard_new reply_no seq_cst, recv_data)"

definition async_is_seq_cst :: "reply_guard \<Rightarrow> bool" where
  "async_is_seq_cst g = is_holding_lock g"

definition async_to_components :: "reply_guard \<Rightarrow> seq_no \<times> bool" where
  "async_to_components g = (guard_reply_no g, is_holding_lock g)"

definition async_from_components :: "seq_no \<Rightarrow> bool \<Rightarrow> reply_guard" where
  "async_from_components reply_no holding = guard_new reply_no holding"

definition async_consume_lock ::
  "reply_guard \<Rightarrow> ('s, 'r) async_inner \<Rightarrow>
   seq_cst_guard option \<times> 'r event list \<times> ('s, 'r) async_inner" where
  "async_consume_lock g x =
     (if is_holding_lock g then (Some SeqCstGuard, [], x)
      else let (es, x) = async_notify_reply x in (None, es, x))"

definition async_ack ::
  "build \<Rightarrow> reply_guard \<Rightarrow> ('s, 'r) async_inner \<Rightarrow>
   (seq_cst_guard option \<times> 's packet list \<times> 'r event list \<times> ('s, 'r) async_inner) option" where
  "async_ack b g x = do {
     (_, ps, s) \<leftarrow> ack_raw b (guard_reply_no g) False (async_seq x);
     let (l, es, x) = async_consume_lock g (x\<lparr>async_seq := s\<rparr>);
     Some (l, map wire ps, es, x)
   }"

definition async_unlock ::
  "reply_guard \<Rightarrow> ('s, 'r) async_inner \<Rightarrow>
   bool \<times> reply_guard \<times> 'r event list \<times> ('s, 'r) async_inner" where
  "async_unlock g x =
     (if is_holding_lock g then
        let (es, x) = async_notify_reply (x\<lparr>async_seq := unlock_raw (async_seq x)\<rparr>)
        in (True, g\<lparr>is_holding_lock := False\<rparr>, es, x)
      else (False, g, [], x))"

definition async_drop ::
  "build \<Rightarrow> reply_guard \<Rightarrow> ('s, 'r) async_inner \<Rightarrow>
   ('s packet list \<times> 'r event list \<times> ('s, 'r) async_inner) option" where
  "async_drop b g x = do {
     (_, ps, s) \<leftarrow> ack_raw b (guard_reply_no g) (is_holding_lock g) (async_seq x);
     let (es, x) = async_notify_reply (x\<lparr>async_seq := s\<rparr>);
     Some (map wire ps, es, x)
   }"

definition async_seq_cst_drop ::
  "seq_cst_guard \<Rightarrow> ('s, 'r) async_inner \<Rightarrow> 'r event list \<times> ('s, 'r) async_inner" where
  "async_seq_cst_drop l x = async_notify_reply (x\<lparr>async_seq := unlock_raw (async_seq x)\<rparr>)"

section \<open>Receiving\<close>

text \<open>
  A packet given to its channel. When the future on the other end is gone, the code acknowledges
  the packet itself.
\<close>

definition tell_or_ack ::
  "build \<Rightarrow> (chan \<Rightarrow> bool) \<Rightarrow> chan \<Rightarrow> 'r event \<Rightarrow> seq_no \<Rightarrow> bool \<Rightarrow> ('s sender, 'r receiver) seqex \<Rightarrow>
   ('s sender packet list \<times> 'r event list \<times> ('s sender, 'r receiver) seqex) option" where
  "tell_or_ack b alive ch ev reply_no seq_cst s =
     (if alive ch then Some ([], [ev], s)
      else do {
        (_, ps, s) \<leftarrow> ack_raw b reply_no seq_cst s;
        Some (ps, [], s)
      })"

fun hand_pumped ::
  "build \<Rightarrow> (chan \<Rightarrow> bool) \<Rightarrow> ('s sender, 'r receiver) recv_ok_raw \<Rightarrow> ('s sender, 'r receiver) seqex \<Rightarrow>
   ('s sender packet list \<times> 'r event list \<times> ('s sender, 'r receiver) seqex) option" where
  "hand_pumped b alive (RawPayload reply_no seq_cst (ch, d)) s =
     tell_or_ack b alive ch (TellReceiver ch (reply_no, seq_cst, d)) reply_no seq_cst s"
| "hand_pumped b alive (RawReply reply_no seq_cst (_, d) (ch, _)) s =
     tell_or_ack b alive ch (TellSender ch (Some (reply_no, seq_cst, d))) reply_no seq_cst s"
| "hand_pumped b alive (RawAck (ch, _)) s =
     Some ([], if alive ch then [TellSender ch None] else [], s)"

lemma hand_pumped_same:
  "hand_pumped b alive r s = Some (ps, es, s') \<Longrightarrow> same_recv s s'"
  by (cases "(b, alive, r, s)" rule: hand_pumped.cases)
    (auto simp: tell_or_ack_def bind_eq_Some_conv dest: ack_same split: if_splits)

function pump_all ::
  "build \<Rightarrow> (chan \<Rightarrow> bool) \<Rightarrow> ('s sender, 'r receiver) seqex \<Rightarrow>
   (nat \<times> 's sender packet list \<times> 'r event list \<times> ('s sender, 'r receiver) seqex) option" where
  "pump_all b alive s =
     (case try_pump_raw b s of
        None \<Rightarrow> None
      | Some (Inl _, s1) \<Rightarrow> Some (0, [], [], s1)
      | Some (Inr (data, do_pump), s1) \<Rightarrow>
          (case hand_pumped b alive data s1 of
             None \<Rightarrow> None
           | Some (ps, es, s2) \<Rightarrow>
               if do_pump then
                 (case pump_all b alive s2 of
                    None \<Rightarrow> None
                  | Some (k, ps', es', s3) \<Rightarrow> Some (k + 1, ps @ ps', es @ es', s3))
               else Some (1, ps, es, s2)))"
  by pat_completeness auto
termination
  by (relation "measure (\<lambda>(b, alive, s). length (filter is_occupied (recv_window s)))")
    (auto dest!: pump_occupied hand_pumped_same simp: same_recv_def)

declare pump_all.simps [simp del]

text \<open>The packet the call received itself.\<close>

fun hand_first ::
  "build \<Rightarrow> (chan \<Rightarrow> bool) \<Rightarrow> ('s sender, 'r) recv_ok_raw \<Rightarrow> ('s sender, 'r receiver) seqex \<Rightarrow>
   ((async_recv_error option + (reply_guard \<times> 'r)) \<times> 's sender packet list \<times> 'r event list
     \<times> ('s sender, 'r receiver) seqex) option" where
  "hand_first b alive (RawPayload reply_no seq_cst d) s =
     Some (Inr (guard_new reply_no seq_cst, d), [], [], s)"
| "hand_first b alive (RawReply reply_no seq_cst d (ch, _)) s = do {
     (ps, es, s) \<leftarrow> tell_or_ack b alive ch (TellSender ch (Some (reply_no, seq_cst, d))) reply_no seq_cst s;
     Some (Inl (Some AsyncReply), ps, es, s)
   }"
| "hand_first b alive (RawAck (ch, _)) s =
     Some (Inl (Some AsyncReply), [], if alive ch then [TellSender ch None] else [], s)"

fun async_error_from :: "try_recv_error \<Rightarrow> async_recv_error option" where
  "async_error_from DroppedTooEarly = Some AsyncDroppedTooEarly"
| "async_error_from DroppedDuplicate = Some AsyncDroppedDuplicate"
| "async_error_from RecvWaitingForRecv = None"
| "async_error_from RecvWaitingForReply = None"

text \<open>
  The conversion \<^verbatim>\<open>From<IntoOneshot>\<close> makes a channel \<open>ch\<close> when the packet is
  stored, and leaves its receiving end with the caller.
\<close>

definition into_oneshot :: "chan \<Rightarrow> 'r \<Rightarrow> 'r receiver" where
  [simp]: "into_oneshot ch = (\<lambda>d. (ch, d))"

definition receive_inner ::
  "build \<Rightarrow> (chan \<Rightarrow> bool) \<Rightarrow> chan \<Rightarrow> 'r packet \<Rightarrow> ('s, 'r) async_inner \<Rightarrow>
   ((async_recv_error option + (reply_guard \<times> 'r)) \<times> 's packet list \<times> 'r event list
     \<times> ('s, 'r) async_inner) option" where
  "receive_inner b alive ch packet x = do {
     (res, ps, s) \<leftarrow> try_receive_raw b (into_oneshot ch) packet (async_seq x);
     case res of
       Inl e \<Rightarrow> Some (Inl (async_error_from e), map wire ps, [], x\<lparr>async_seq := s\<rparr>)
     | Inr (recv_data, do_pump) \<Rightarrow> do {
         (k, ps1, es1, s) \<leftarrow> (if do_pump then pump_all b alive s else Some (0, [], [], s));
         let total_recv = 1 + k;
         (ret, ps2, es2, s) \<leftarrow> hand_first b alive recv_data s;
         let to_wake = min (async_recv_waiters x) total_recv;
         Some (ret, map wire (ps @ ps1 @ ps2), es1 @ es2 @ replicate to_wake NotifyRecvWaiter,
               x\<lparr>async_seq := s, async_recv_waiters := async_recv_waiters x - to_wake\<rparr>)
       }
   }"

text \<open>
  \<^verbatim>\<open>receive\<close> returns, or awaits the channel \<open>ch\<close> if the packet was stored with it;
  the variable \<^verbatim>\<open>tx\<close> of the code is set exactly then.
\<close>

definition stored_with :: "chan \<Rightarrow> ('s sender, 'r receiver) seqex \<Rightarrow> bool" where
  "stored_with ch s \<longleftrightarrow>
     list_ex (\<lambda>e. case e of Occupied _ _ _ (c, _) \<Rightarrow> c = ch | _ \<Rightarrow> False) (recv_window s)"

datatype 'a awaiting = Ready 'a | AwaitChan chan

definition async_receive ::
  "build \<Rightarrow> (chan \<Rightarrow> bool) \<Rightarrow> chan \<Rightarrow> 'r packet \<Rightarrow> ('s, 'r) async_inner \<Rightarrow>
   ((async_recv_error + (reply_guard \<times> 'r)) awaiting \<times> 's packet list \<times> 'r event list
     \<times> ('s, 'r) async_inner) option" where
  "async_receive b alive ch packet x = do {
     (res, ps, es, x) \<leftarrow> receive_inner b alive ch packet x;
     Some (case res of
             Inr ret \<Rightarrow> Ready (Inr ret)
           | Inl (Some e) \<Rightarrow> Ready (Inl e)
           | Inl None \<Rightarrow>
               if stored_with ch (async_seq x) then AwaitChan ch else Ready (Inl AsyncDroppedDuplicate),
           ps, es, x)
   }"

fun receive_answer :: "(seq_no \<times> bool \<times> 'r) option \<Rightarrow> async_recv_error + (reply_guard \<times> 'r)" where
  "receive_answer None = Inl AsyncSeqExClosed"
| "receive_answer (Some (reply_no, holding, data)) =
     Inr (guard_new reply_no holding, data)"

section \<open>Sending\<close>

definition send_with_inner ::
  "build \<Rightarrow> i64 \<Rightarrow> bool \<Rightarrow> (seq_no \<Rightarrow> 's sender) \<Rightarrow> ('s, 'r) async_inner \<Rightarrow>
   ((try_error + i64 option) \<times> 's packet list \<times> ('s, 'r) async_inner) option" where
  "send_with_inner b time seq_cst packet_data x = do {
     let pre_ts = next_service_timestamp (async_seq x);
     (res, ps, s) \<leftarrow> try_send_with b time seq_cst packet_data (async_seq x);
     let x = x\<lparr>async_seq := s\<rparr>;
     Some (case res of
             Inl (WaitingForRecv, p) \<Rightarrow>
               (Inl WaitingForRecv, map wire ps, x\<lparr>async_recv_waiters := async_recv_waiters x + 1\<rparr>)
           | Inl (WaitingForReply, p) \<Rightarrow>
               (Inl WaitingForReply, map wire ps, x\<lparr>async_reply_waiters := True\<rparr>)
           | Inr _ \<Rightarrow> (Inr (changed pre_ts (next_service_timestamp s)), map wire ps, x))
   }"

text \<open>
  One turn of the loop of \<^verbatim>\<open>send_with\<close>. After it the task queues the update and awaits
  the answer on its channel \<open>rx\<close>, or it awaits one of the two \<^verbatim>\<open>Notify\<close> and turns
  again.
\<close>

datatype send_turn = AwaitAnswer chan "i64 option" | AwaitRecvNotify | AwaitReplyNotify

definition async_send_with ::
  "build \<Rightarrow> i64 \<Rightarrow> chan \<Rightarrow> bool \<Rightarrow> (seq_no \<Rightarrow> 's) \<Rightarrow> ('s, 'r) async_inner \<Rightarrow>
   (send_turn \<times> 's packet list \<times> ('s, 'r) async_inner) option" where
  "async_send_with b time rx seq_cst packet_data x = do {
     (res, ps, x) \<leftarrow> send_with_inner b time seq_cst (\<lambda>s. (rx, packet_data s)) x;
     Some (case res of
             Inr update \<Rightarrow> AwaitAnswer rx update
           | Inl WaitingForRecv \<Rightarrow> AwaitRecvNotify
           | Inl WaitingForReply \<Rightarrow> AwaitReplyNotify, ps, x)
   }"

definition async_send ::
  "build \<Rightarrow> i64 \<Rightarrow> chan \<Rightarrow> bool \<Rightarrow> 's \<Rightarrow> ('s, 'r) async_inner \<Rightarrow>
   (send_turn \<times> 's packet list \<times> ('s, 'r) async_inner) option" where
  "async_send b time rx seq_cst packet_data x = async_send_with b time rx seq_cst (\<lambda>_. packet_data) x"

section \<open>The service task\<close>

text \<open>
  How long \<^verbatim>\<open>service_task\<close> waits for an update: for a positive number of
  milliseconds, without limit, or not at all.
\<close>

datatype service_wait = WaitMillis i64 | WaitUpdate | NoWait

definition service_wait_for :: "build \<Rightarrow> i64 \<Rightarrow> service_state \<Rightarrow> service_wait option" where
  "service_wait_for b time st =
     (if sint (task_next_service st) < sint i64_max then do {
        diff \<leftarrow> i64_sub b (task_next_service st) time;
        Some (if 0 < sint diff then WaitMillis diff else NoWait)
      }
      else Some WaitUpdate)"

text \<open>What it does after that: \<open>result\<close> is the update, if one came.\<close>

definition service_turn ::
  "build \<Rightarrow> i64 \<Rightarrow> i64 option \<Rightarrow> service_state \<Rightarrow> ('s, 'r) async_inner \<Rightarrow>
   ('s packet list \<times> service_state \<times> ('s, 'r) async_inner) option" where
  "service_turn b time result st x =
     (case result of
        Some up \<Rightarrow> Some ([], st\<lparr>task_next_service := i64_min_of (task_next_service st) up\<rparr>, x)
      | None \<Rightarrow> do {
          (_, ps, s) \<leftarrow> service b time (async_seq x);
          Some (map wire ps, st\<lparr>task_next_service := next_service_timestamp s\<rparr>, x\<lparr>async_seq := s\<rparr>)
        })"

end
