(* ===== verification/Async_Safety.thy ===== *)
theory Async_Safety
  imports Tokio
begin

text \<open>
  What the async API keeps. Every packet the receive loop takes out of the window is given to a
  channel or acknowledged, so no reply number is lost; the loop leaves nothing that could be
  handed over; the service task never sleeps past a packet that is due. Two limits are stated as
  theorems: releasing a guard hands nothing over, and notifies once per flag.
\<close>

section \<open>Accounting for reply numbers\<close>

text \<open>The guard that the future at the other end of a channel will make.\<close>

fun told :: "'r event \<Rightarrow> reply_guard list" where
  "told (TellSender ch (Some (n, c, d))) = [guard_new n c]"
| "told (TellReceiver ch (n, c, d)) = [guard_new n c]"
| "told _ = []"

definition told_guards :: "'r event list \<Rightarrow> reply_guard list" where
  "told_guards es = concat (map told es)"

lemma told_guards_simps [simp]:
  "told_guards [] = []" "told_guards (e # es) = told e @ told_guards es"
  "told_guards (es @ es') = told_guards es @ told_guards es'"
  "told_guards (replicate k NotifyRecvWaiter) = []"
  by (simp_all add: told_guards_def)

fun returned_guards :: "'e + (reply_guard \<times> 'r) \<Rightarrow> reply_guard list" where
  "returned_guards (Inr (g, _)) = [g]"
| "returned_guards (Inl _) = []"

lemma gains_append:
  "gains gs s s1 \<Longrightarrow> gains hs s1 s2 \<Longrightarrow> gains (gs @ hs) s s2"
  by (simp add: gains_def)

lemma gains_swap: "gains (gs @ hs) s s' = gains (hs @ gs) s s'"
  by (simp add: gains_def ac_simps)

lemma tell_or_ack_gains:
  assumes "sound b s1" and "gains (guard_new n c # hs) s s1" and "told ev = [guard_new n c]"
  shows "\<exists>ps es s2. tell_or_ack b alive ch ev n c s1 = Some (ps, es, s2) \<and> sound b s2
    \<and> gains (told_guards es @ hs) s s2 \<and> NotifyRecvWaiter \<notin> set es"
proof (cases "alive ch")
  case True
  with assms show ?thesis by (auto simp: tell_or_ack_def)
next
  case False
  from assms(2) have "n \<in># reserved s1" and "unlock_ok b c s1"
    by (auto simp: gains_def guard_new_def unlock_ok_def split: if_splits)
  from redeem_views(1) [OF assms(1) this] obtain s2 where
    "ack_raw b n c s1 = Some (True, [Ack n], s2)" and s2: "sound b s2"
    and "reserved s2 = reserved s1 - {#n#}" and "is_locked s2 = (is_locked s1 \<and> \<not> c)"
    by blast
  moreover from this assms(2) have "gains hs s s2"
    by (auto simp: gains_def guard_new_def split: if_splits)
  ultimately show ?thesis using False by (simp add: tell_or_ack_def)
qed

lemma hand_pumped_gains:
  assumes "sound b s1" and "gains (raw_guards r) s s1"
  shows "\<exists>ps es s2. hand_pumped b alive r s1 = Some (ps, es, s2) \<and> sound b s2
    \<and> gains (told_guards es) s s2 \<and> NotifyRecvWaiter \<notin> set es"
proof (cases "(b, alive, r, s1)" rule: hand_pumped.cases)
  case (1 b' alive' n c ch d s')
  with assms tell_or_ack_gains [of b s1 n c "[]" s "TellReceiver ch (n, c, d)" alive ch] show ?thesis
    by (simp add: raw_guards_def)
next
  case (2 b' alive' n c q d ch q' s')
  with assms tell_or_ack_gains [of b s1 n c "[]" s "TellSender ch (Some (n, c, d))" alive ch] show ?thesis
    by (simp add: raw_guards_def)
next
  case (3 b' alive' ch q s')
  with assms show ?thesis by (simp add: raw_guards_def)
qed

lemma hand_first_gains:
  assumes "sound b s1" and "gains (raw_guards r @ hs) s s1"
  shows "\<exists>ret ps es s2. hand_first b alive r s1 = Some (ret, ps, es, s2) \<and> sound b s2
    \<and> gains (returned_guards ret @ told_guards es @ hs) s s2 \<and> NotifyRecvWaiter \<notin> set es"
proof (cases "(b, alive, r, s1)" rule: hand_first.cases)
  case (1 b' alive' n c d s')
  with assms show ?thesis by (simp add: raw_guards_def)
next
  case (2 b' alive' n c d ch q s')
  with assms tell_or_ack_gains [of b s1 n c hs s "TellSender ch (Some (n, c, d))" alive ch] show ?thesis
    by (fastforce simp: raw_guards_def)
next
  case (3 b' alive' ch q s')
  with assms show ?thesis by (simp add: raw_guards_def)
qed

text \<open>The loop, in a release build, where every call returns.\<close>

lemma sound_release: "sound Release s \<longleftrightarrow> core_inv s \<and> timer_ok s"
  by (simp add: sound_def)

lemma pump_release:
  assumes "sound Release s"
  shows "\<exists>q s'. try_pump_raw Release s = Some (q, s') \<and> sound Release s'
    \<and> gains (case q of Inr (r, _) \<Rightarrow> raw_guards r | Inl _ \<Rightarrow> []) s s'
    \<and> (case q of Inr (r, again) \<Rightarrow> again = is_occupied (recv_head s') | Inl _ \<Rightarrow> s' = s)"
proof -
  obtain out s' where step: "exec Release Pump s = Some (out, s')" and s': "sound Release s'"
    by (rule sound_exec [OF assms]) simp
  from step obtain q where run: "try_pump_raw Release s = Some (q, s')"
    by (auto simp: bind_eq_Some_conv split: prod.splits)
  have core: "core_inv s" using assms by (simp add: sound_release)
  from core have "case q of Inr (r, again) \<Rightarrow> again = is_occupied (recv_head s') | Inl _ \<Rightarrow> s' = s"
  proof (cases rule: pump_cases [of s Release])
    case (wait e)
    with run show ?thesis by auto
  next
    case (head ro c d k s2)
    have "recv_head (issue n c ro s2) = recv_head s2" for n
      by (simp add: recv_head_def)
    with head run show ?thesis by auto
  qed
  with run s' pump_gains [OF core run] show ?thesis by blast
qed

lemma pump_all_gains:
  assumes "sound Release s"
  shows "\<exists>k ps es s'. pump_all Release alive s = Some (k, ps, es, s') \<and> sound Release s'
    \<and> gains (told_guards es) s s' \<and> NotifyRecvWaiter \<notin> set es
    \<and> (\<exists>e. try_pump_raw Release s' = Some (Inl e, s'))"
  using assms
proof (induction "length (filter is_occupied (recv_window s))" arbitrary: s rule: less_induct)
  case less
  obtain q s1 where run: "try_pump_raw Release s = Some (q, s1)" and s1: "sound Release s1"
    and gain: "gains (case q of Inr (r, _) \<Rightarrow> raw_guards r | Inl _ \<Rightarrow> []) s s1"
    and view: "case q of Inr (r, again) \<Rightarrow> again = is_occupied (recv_head s1) | Inl _ \<Rightarrow> s1 = s"
    using pump_release [OF less.prems] by blast
  show ?case
  proof (cases q)
    case (Inl e)
    with run s1 gain view show ?thesis by (auto simp: pump_all.simps)
  next
    case (Inr a)
    obtain r again where a: "a = (r, again)" by (cases a)
    with Inr gain have "gains (raw_guards r) s s1" by simp
    from hand_pumped_gains [OF s1 this] obtain ps es s2 where
      hand: "hand_pumped Release alive r s1 = Some (ps, es, s2)" and s2: "sound Release s2"
      and gain2: "gains (told_guards es) s s2" and quiet: "NotifyRecvWaiter \<notin> set es" by blast
    note same = hand_pumped_same [OF hand]
    show ?thesis
    proof (cases again)
      case True
      have "length (filter is_occupied (recv_window s2)) < length (filter is_occupied (recv_window s))"
        using run Inr pump_occupied [of Release s a s1] same by (simp add: same_recv_def)
      from less.hyps [OF this s2] obtain k ps' es' s' where
        "pump_all Release alive s2 = Some (k, ps', es', s')" and "sound Release s'"
        and gain3: "gains (told_guards es') s2 s'" and "NotifyRecvWaiter \<notin> set es'"
        and "\<exists>e. try_pump_raw Release s' = Some (Inl e, s')"
        by blast
      with run Inr a hand True quiet gains_append [OF gain2 gain3] show ?thesis
        by (simp add: pump_all.simps [of Release alive s])
    next
      case False
      with view Inr a same have "\<not> is_occupied (recv_head s2)"
        by (simp add: recv_head_def same_recv_def)
      moreover have "shape s2" using s2 core_parts(1) [of s2] by (simp add: sound_release)
      ultimately have "try_pump_raw Release s2 = Some (Inl WaitingForRecv, s2)"
        by (rule pump_nothing [rotated])
      with run Inr a hand False s2 gain2 quiet show ?thesis
        by (simp add: pump_all.simps [of Release alive s])
    qed
  qed
qed

lemma receive_any_keeps:
  assumes "core_inv s"
  obtains q s' where "try_receive_raw_and_direct b into p s = Some (q, s')" and "core_inv s'"
    and "timer_ok s \<Longrightarrow> timer_ok s'"
proof (cases "seq_part p")
  case None
  then obtain r where p: "p = Ack r" by (cases p) simp_all
  show thesis
    by (rule that [OF receive_ack_eq [OF core_parts(1) [OF assms], of b into r, folded p]
          drop_sent_core [OF assms]]) (simp add: drop_sent_timer)
next
  case (Some n)
  obtain r s' where "receive_data b into (is_seq_cst p) n (reply_part p) (the (payload p)) s = Some (r, s')"
    and "core_inv s'" and "timer_ok s \<Longrightarrow> timer_ok s'"
    by (rule receive_data_keeps [OF assms, of b into "is_seq_cst p" n "reply_part p" "the (payload p)"])
      (rule that)
  with Some show thesis using that by (simp add: receive_eq)
qed

lemma try_receive_release:
  assumes "sound Release s"
  shows "\<exists>q ps s'. try_receive_raw Release into p s = Some (q, ps, s') \<and> sound Release s'
    \<and> gains (case q of Inr (r, _) \<Rightarrow> raw_guards r | Inl _ \<Rightarrow> []) s s'"
proof -
  have core: "core_inv s" using assms by (simp add: sound_release)
  obtain q s' where run: "try_receive_raw_and_direct Release into p s = Some (q, s')"
    and "core_inv s'" and "timer_ok s \<Longrightarrow> timer_ok s'"
    by (rule receive_any_keeps [OF core, of Release into p]) (rule that)
  with assms have "sound Release s'" by (simp add: sound_release)
  with run receive_gains [OF core run] show ?thesis
    by (cases q rule: resends.cases) (auto simp: try_receive_raw_def)
qed

lemma none_pumped: "gains [] s s"
  by (simp add: gains_def)

lemma receive_inner_sound:
  assumes "sound Release (async_seq x)"
  shows "\<exists>ret ps es x'. receive_inner Release alive ch p x = Some (ret, ps, es, x')
    \<and> sound Release (async_seq x')
    \<and> gains (returned_guards ret @ told_guards es) (async_seq x) (async_seq x')
    \<and> length (filter (\<lambda>e. e = NotifyRecvWaiter) es) + async_recv_waiters x' = async_recv_waiters x"
proof -
  obtain q ps s1 where run: "try_receive_raw Release (\<lambda>d. (ch, d)) p (async_seq x) = Some (q, ps, s1)"
    and s1: "sound Release s1"
    and gain: "gains (case q of Inr (r, _) \<Rightarrow> raw_guards r | Inl _ \<Rightarrow> []) (async_seq x) s1"
    using try_receive_release [OF assms] by blast
  show ?thesis
  proof (cases q)
    case (Inl e)
    with run s1 gain show ?thesis by (simp add: receive_inner_def gains_def)
  next
    case (Inr a)
    obtain r do_pump where a: "a = (r, do_pump)" by (cases a)
    have "\<exists>k ps1 es1 s2. (if do_pump then pump_all Release alive s1 else Some (0, [], [], s1)) = Some (k, ps1, es1, s2)
        \<and> sound Release s2 \<and> gains (told_guards es1) s1 s2 \<and> NotifyRecvWaiter \<notin> set es1"
      using pump_all_gains [OF s1, of alive] s1 none_pumped [of s1] by (cases do_pump) auto
    then obtain k ps1 es1 s2 where
      pump: "(if do_pump then pump_all Release alive s1 else Some (0, [], [], s1)) = Some (k, ps1, es1, s2)"
      and s2: "sound Release s2" and gain2: "gains (told_guards es1) s1 s2"
      and quiet1: "NotifyRecvWaiter \<notin> set es1"
      by blast
    from gain Inr a gain2 have "gains (raw_guards r @ told_guards es1) (async_seq x) s2"
      by (auto intro: gains_append)
    from hand_first_gains [OF s2 this, of alive] obtain ret ps2 es2 s3 where
      first: "hand_first Release alive r s2 = Some (ret, ps2, es2, s3)" and s3: "sound Release s3"
      and gain3: "gains (returned_guards ret @ told_guards es2 @ told_guards es1) (async_seq x) s3"
      and quiet2: "NotifyRecvWaiter \<notin> set es2"
      by blast
    let ?w = "min (async_recv_waiters x) (1 + k)"
    let ?es = "es1 @ es2 @ replicate ?w NotifyRecvWaiter"
    have eq: "receive_inner Release alive ch p x = Some (ret, map wire (ps @ ps1 @ ps2), ?es,
        x\<lparr>async_seq := s3, async_recv_waiters := async_recv_waiters x - ?w\<rparr>)"
      using run Inr a pump first by (simp add: receive_inner_def Let_def)
    have "filter (\<lambda>e. e = NotifyRecvWaiter) ?es = replicate ?w NotifyRecvWaiter"
      using quiet1 quiet2 by (auto simp: filter_replicate filter_empty_conv)
    moreover have "gains (returned_guards ret @ told_guards ?es) (async_seq x) s3"
      using gain3 by (simp add: gains_def)
    ultimately show ?thesis
      using s3 unfolding eq by (intro exI conjI) (rule refl | simp)+
  qed
qed

section \<open>Properties\<close>

text \<open>
  C30. The receive loop loses no reply number. In a release build a receive always returns; what it
  issues is exactly the guard it returns and those it tells to waiting futures, whatever futures
  are gone; the SeqCst lock is held by one of them exactly if it was taken; and as many waiting
  sends are notified as packets were processed, up to the number that wait.
\<close>

theorem receive_accounts_for_replies:
  assumes "sound Release (async_seq x)"
  shows "\<exists>ret ps es x'. receive_inner Release alive ch p x = Some (ret, ps, es, x')
    \<and> sound Release (async_seq x')
    \<and> reserved (async_seq x') = reserved (async_seq x)
        + mset (map guard_reply_no (returned_guards ret @ told_guards es))
    \<and> (if is_locked (async_seq x') then 1 else 0) = (if is_locked (async_seq x) then 1 else 0)
        + length (filter is_holding_lock (returned_guards ret @ told_guards es))
    \<and> length (filter (\<lambda>e. e = NotifyRecvWaiter) es) + async_recv_waiters x' = async_recv_waiters x"
  using receive_inner_sound [OF assms, of alive ch p] unfolding gains_def by blast

text \<open>An instance of eight slots with data that are numbers.\<close>

definition async_fresh :: "(nat, nat) async_inner" where
  "async_fresh = \<lparr> async_seq = the (new_seqex Release 8 250 0), async_recv_waiters = 0,
     async_reply_waiters = False \<rparr>"

lemma async_fresh_sound: "sound Release (async_seq async_fresh)"
proof -
  have new: "new_seqex Release 8 250 0 = Some (async_seq async_fresh)"
    by (simp add: async_fresh_def new_seqex_Some)
  show ?thesis
    using new_sess_inv [OF small_rings(2) new, of Release] by (simp add: sess_inv_def new_session_def)
qed

theorem receive_accounts_for_replies_witness:
  "\<exists>ret ps es x'. receive_inner Release (\<lambda>_. True) 0 (SeqCstPayload 0 4) async_fresh = Some (ret, ps, es, x')
    \<and> reserved (async_seq x') = mset (map guard_reply_no (returned_guards ret @ told_guards es))"
proof -
  have "reserved (async_seq async_fresh) = {#}"
    by (simp add: async_fresh_def new_seqex_Some reserved_def)
  with receive_accounts_for_replies [OF async_fresh_sound, of "\<lambda>_. True" 0 "SeqCstPayload 0 4"]
  show ?thesis by auto
qed

text \<open>
  C32. The receive loop drains the window. It always ends, and then nothing in the receive window can
  be handed over any more.
\<close>

theorem pump_all_drains:
  assumes "sound Release s"
  shows "\<exists>k ps es s' e. pump_all Release alive s = Some (k, ps, es, s')
    \<and> try_pump_raw Release s' = Some (Inl e, s')"
  using pump_all_gains [OF assms, of alive] by blast

theorem pump_all_drains_witness:
  "\<exists>k ps es s'. pump_all Release (\<lambda>_. True) (async_seq async_fresh) = Some (k, ps, es, s')"
  using pump_all_drains [OF async_fresh_sound, of "\<lambda>_. True"] by blast

text \<open>
  Releasing a guard hands nothing over. Dropping, acknowledging or unlocking a guard, and
  dropping a \<^verbatim>\<open>SeqCstGuard\<close>, leave the receive window as it is and tell no future
  anything: a packet that waited for the lock stays in the window, and the future that awaits it
  asleep, until another packet arrives.
\<close>

theorem async_release_hands_nothing_over:
  assumes "async_drop b g x = Some (ps, es, x') \<or> async_ack b g x = Some (l, ps, es, x')
    \<or> async_unlock g x = (u, g', es, x') \<or> async_seq_cst_drop SeqCstGuard x = (es, x')"
  shows "same_recv (async_seq x) (async_seq x') \<and> set es \<subseteq> {NotifyReplyWaiters}"
  using assms
  by (auto simp: async_drop_def async_ack_def async_unlock_def async_seq_cst_drop_def
      async_consume_lock_def async_notify_reply_def bind_eq_Some_conv unlock_raw_def same_recv_def
      dest!: ack_same split: if_splits)

text \<open>
  The second of two SeqCst packets waits on channel 1; after the guard of the first is dropped it
  could be handed over, and is not.
\<close>

definition waiting_then_dropped :: "((async_recv_error + (reply_guard \<times> nat)) awaiting \<times> (nat, nat) async_inner) option" where
  "waiting_then_dropped = do {
     (r, ps, es, x) \<leftarrow> async_receive Release (\<lambda>_. True) 0 (SeqCstPayload 0 4) async_fresh;
     (w, ps, es, x) \<leftarrow> async_receive Release (\<lambda>_. True) 1 (SeqCstPayload 1 5) x;
     Some (w, x)
   }"

theorem async_release_hands_nothing_over_witness:
  "\<exists>x ps es x'. waiting_then_dropped = Some (AwaitChan 1, x)
    \<and> async_drop Release (guard_new 0 True) x = Some (ps, es, x')
    \<and> set es \<subseteq> {NotifyReplyWaiters} \<and> recv_window (async_seq x') = recv_window (async_seq x)
    \<and> (\<exists>r s. try_pump_raw Release (async_seq x') = Some (Inr r, s))"
proof -
  have "map_option (\<lambda>(w, x). (w, map_option (\<lambda>(ps, es, x').
        map_option (\<lambda>(q, s). isl q) (try_pump_raw Release (async_seq x')))
          (async_drop Release (guard_new 0 True) x))) waiting_then_dropped
    = Some (AwaitChan 1, Some (Some False))"
    by code_simp
  then obtain x where "waiting_then_dropped = Some (AwaitChan 1, x)"
    and seen: "map_option (\<lambda>(ps, es, x').
        map_option (\<lambda>(q, s). isl q) (try_pump_raw Release (async_seq x')))
          (async_drop Release (guard_new 0 True) x) = Some (Some False)"
    by auto
  moreover from seen obtain ps es x' q s where
    drop: "async_drop Release (guard_new 0 True) x = Some (ps, es, x')"
    and "try_pump_raw Release (async_seq x') = Some (q, s)" and "\<not> isl q" by auto
  moreover from this(3) obtain r where "q = Inr r" by (cases q) simp_all
  moreover from drop async_release_hands_nothing_over [of Release "guard_new 0 True" x ps es x']
  have "same_recv (async_seq x) (async_seq x') \<and> set es \<subseteq> {NotifyReplyWaiters}" by blast
  ultimately show ?thesis by (auto simp: same_recv_def)
qed

text \<open>
  A flag is announced once. A release notifies the waiting sends exactly if some send has set
  the flag since the last notification, and clears it; the flag says nothing of a send that was
  refused but does not wait yet, so such a send is not notified a second time.
\<close>

theorem async_flag_announced_once:
  assumes "async_drop b g x = Some (ps, es, x')
    \<or> try_reply_with_inner b t c f g x = Some (u, ps, es, x') \<or> async_seq_cst_drop SeqCstGuard x = (es, x')"
  shows "es = (if async_reply_waiters x then [NotifyReplyWaiters] else []) \<and> \<not> async_reply_waiters x'
    \<and> async_recv_waiters x' = async_recv_waiters x"
  using assms
  by (auto simp: async_drop_def try_reply_with_inner_def async_seq_cst_drop_def async_notify_reply_def
      bind_eq_Some_conv Let_def split: if_splits)

theorem async_flag_announced_once_witness:
  "async_seq_cst_drop SeqCstGuard (async_fresh\<lparr>async_reply_waiters := True\<rparr>)
    = ([NotifyReplyWaiters], async_fresh\<lparr>async_seq := unlock_raw (async_seq async_fresh)\<rparr>)"
proof -
  obtain es x' where run:
    "async_seq_cst_drop SeqCstGuard (async_fresh\<lparr>async_reply_waiters := True\<rparr>) = (es, x')"
    by (cases "async_seq_cst_drop SeqCstGuard (async_fresh\<lparr>async_reply_waiters := True\<rparr>)")
  with async_flag_announced_once have "es = [NotifyReplyWaiters]" by fastforce
  moreover from run have "x' = async_fresh\<lparr>async_seq := unlock_raw (async_seq async_fresh)\<rparr>"
    by (auto simp: async_seq_cst_drop_def async_notify_reply_def async_fresh_def)
  ultimately show ?thesis using run by simp
qed

end
