(* ===== verification/Async_Timer.thy ===== *)
theory Async_Timer
  imports Async_Safety
begin

text \<open>
  The schedule of the service task. Sections of the async API may move the instance's timestamp; a
  send and a reply queue the new one, and the service task reads the queue and keeps a timestamp of
  its own. The relation below interleaves them; whoever runs, some timestamp the task knows or will
  read is early enough for every unacknowledged packet.
\<close>

section \<open>Which sections move the timestamp\<close>

lemma receive_nst:
  assumes "core_inv s" and "try_receive_raw_and_direct b into p s = Some (q, s')"
  shows "next_service_timestamp s' = next_service_timestamp s"
proof (cases "seq_part p")
  case None
  then obtain r where "p = Ack r" by (cases p) simp_all
  with assms(2) show ?thesis
    by (auto simp: receive_ack_eq [OF core_parts(1) [OF assms(1)]] drop_sent_def split: if_splits)
next
  case (Some n)
  with assms(2) have run: "receive_data b into (is_seq_cst p) n (reply_part p) (the (payload p)) s = Some (q, s')"
    by (simp add: receive_eq)
  show ?thesis
  proof (cases rule: receive_data_cases
      [OF assms(1), of b into "is_seq_cst p" n "reply_part p" "the (payload p)"])
    case (4 k s2)
    with run passed_fields(2) [OF 4(3)] show ?thesis by auto
  qed (use run in auto)
qed

lemma pump_nst:
  assumes "core_inv s" and "try_pump_raw b s = Some (q, s')"
  shows "next_service_timestamp s' = next_service_timestamp s"
proof (cases rule: pump_cases [OF assms(1), of b])
  case (2 ro c d k s2)
  with assms(2) passed_fields(2) [OF 2(3)] show ?thesis by auto
qed (use assms(2) in auto)

lemma pump_all_nst:
  assumes "sound Release s" and "pump_all Release alive s = Some (k, ps, es, s')"
  shows "next_service_timestamp s' = next_service_timestamp s"
  using assms
proof (induction "length (filter is_occupied (recv_window s))" arbitrary: s k ps es rule: less_induct)
  case less
  have core: "core_inv s" using less.prems(1) by (simp add: sound_release)
  obtain q s1 where run: "try_pump_raw Release s = Some (q, s1)" and s1: "sound Release s1"
    and gain: "gains (case q of Inr (r, _) \<Rightarrow> raw_guards r | Inl _ \<Rightarrow> []) s s1"
    using pump_release [OF less.prems(1)] by blast
  note nst1 = pump_nst [OF core run]
  show ?case
  proof (cases q)
    case (Inl e)
    with run nst1 less.prems(2) show ?thesis by (simp add: pump_all.simps)
  next
    case (Inr a)
    obtain r again where a: "a = (r, again)" by (cases a)
    with Inr gain have "gains (raw_guards r) s s1" by simp
    from hand_pumped_gains [OF s1 this] obtain ps' es' s2 where
      hand: "hand_pumped Release alive r s1 = Some (ps', es', s2)" and s2: "sound Release s2" by blast
    note same = hand_pumped_same [OF hand]
    have less_occ: "length (filter is_occupied (recv_window s2)) < length (filter is_occupied (recv_window s))"
      using run Inr pump_occupied [of Release s a s1] same by (simp add: same_recv_def)
    have "next_service_timestamp s' = next_service_timestamp s2"
    proof (cases again)
      case True
      with less.prems(2) run Inr a hand obtain k2 ps2 es2 where
        "pump_all Release alive s2 = Some (k2, ps2, es2, s')"
        by (cases "pump_all Release alive s2") (auto simp: pump_all.simps [of Release alive s])
      then show ?thesis by (rule less.hyps [OF less_occ s2])
    next
      case False
      with less.prems(2) run Inr a hand show ?thesis by (simp add: pump_all.simps [of Release alive s])
    qed
    with same nst1 show ?thesis by (simp add: same_recv_def)
  qed
qed

lemma hand_first_same:
  "hand_first b alive r s = Some (ret, ps, es, s') \<Longrightarrow> same_recv s s'"
  by (cases "(b, alive, r, s)" rule: hand_first.cases)
    (auto simp: tell_or_ack_def bind_eq_Some_conv dest: ack_same split: if_splits)

lemma receive_inner_nst:
  assumes "sound Release (async_seq x)"
    and "receive_inner Release alive ch p x = Some (ret, ps, es, x')"
  shows "next_service_timestamp (async_seq x') = next_service_timestamp (async_seq x)"
proof -
  have core: "core_inv (async_seq x)" using assms(1) by (simp add: sound_release)
  obtain q qs s1 where run: "try_receive_raw Release (\<lambda>d. (ch, d)) p (async_seq x) = Some (q, qs, s1)"
    and s1: "sound Release s1"
    using try_receive_release [OF assms(1)] by blast
  from run obtain q1 where "try_receive_raw_and_direct Release (\<lambda>d. (ch, d)) p (async_seq x) = Some (q1, s1)"
    by (cases "try_receive_raw_and_direct Release (\<lambda>d. (ch, d)) p (async_seq x)")
      (auto simp: try_receive_raw_def split: sum.splits try_raw_recv_error.splits)
  note nst1 = receive_nst [OF core this]
  show ?thesis
  proof (cases q)
    case (Inl e)
    with run nst1 assms(2) show ?thesis by (auto simp: receive_inner_def)
  next
    case (Inr a)
    obtain r do_pump where a: "a = (r, do_pump)" by (cases a)
    from assms(2) run Inr a obtain k ps1 es1 s2 where
      pump: "(if do_pump then pump_all Release alive s1 else Some (0, [], [], s1)) = Some (k, ps1, es1, s2)"
      by (auto simp: receive_inner_def bind_eq_Some_conv)
    have nst2: "next_service_timestamp s2 = next_service_timestamp s1"
      using pump pump_all_nst [OF s1] by (auto split: if_splits)
    from assms(2) run Inr a pump obtain ret' ps2 es2 s3 where
      "hand_first Release alive r s2 = Some (ret', ps2, es2, s3)" and "async_seq x' = s3"
      by (auto simp: receive_inner_def Let_def bind_eq_Some_conv)
    with hand_first_same [OF this(1)] nst1 nst2 show ?thesis by (simp add: same_recv_def)
  qed
qed

section \<open>Sections keep the instance sound\<close>

lemma ack_release:
  assumes "sound Release s" and "ack_raw Release n u s = Some (r, ps, s')"
  shows "sound Release s'"
proof -
  from assms(2) obtain q where "ack_raw_and_direct Release n u s = Some (q, s')"
    by (cases "ack_raw_and_direct Release n u s") (auto simp: ack_raw_def split: option.splits)
  then have "exec Release (AckRaw n u) s = Some (AckOut q, s')" by simp
  with assms(1) show ?thesis by (rule release_sound)
qed

lemma reply_release:
  assumes "sound Release s" and "reply_raw Release t n u c d s = Some (r, ps, s')"
  shows "sound Release s'"
proof -
  from assms(2) obtain q where "reply_raw_and_direct Release t n u c d s = Some (q, s')"
    by (cases "reply_raw_and_direct Release t n u c d s") (auto simp: reply_raw_def split: option.splits)
  then have "exec Release (ReplyRaw t n u c d) s = Some (ReplyOut q, s')" by simp
  with assms(1) show ?thesis by (rule release_sound)
qed

lemma send_with_release:
  assumes "sound Release s" and "try_send_with Release t c f s = Some (r, ps, s')"
  shows "sound Release s'"
proof -
  note shape = core_parts(1) [OF sound_core [OF assms(1)]]
  have time: "time_ok Release t s" by (simp add: time_ok_def)
  obtain q where "exec Release (TrySend t c (f (next_send_seq_no s))) s = Some (TrySendOut q, s')"
    using assms(2) by (auto simp: try_send_with_def try_send_direct_with_eq [OF shape time]
        try_send_direct_eq [OF shape time] Let_def split: if_splits)
  with assms(1) show ?thesis by (rule release_sound)
qed

section \<open>The schedule\<close>

fun queued :: "i64 option \<Rightarrow> i64 list" where
  "queued None = []"
| "queued (Some t) = [t]"

fun turn_update :: "send_turn \<Rightarrow> i64 option" where
  "turn_update (AwaitAnswer ch u) = u"
| "turn_update _ = None"

text \<open>The task's state, the updates sent and not yet read, and the instance.\<close>

record ('s, 'r) timed =
  task :: service_state
  updates :: "i64 list"
  instance_of :: "('s, 'r) async_inner"

inductive timer_step :: "('s, 'r) timed \<Rightarrow> ('s, 'r) timed \<Rightarrow> bool" where
  send: "async_send_with Release t rx c f (instance_of y) = Some (turn, ps, x) \<Longrightarrow>
    timer_step y (y\<lparr>updates := updates y @ queued (turn_update turn), instance_of := x\<rparr>)"
| reply: "async_reply_with Release t tx c f g (instance_of y) = Some (u, ps, es, x) \<Longrightarrow>
    timer_step y (y\<lparr>updates := updates y @ queued u, instance_of := x\<rparr>)"
| receive: "receive_inner Release alive ch p (instance_of y) = Some (ret, ps, es, x) \<Longrightarrow>
    timer_step y (y\<lparr>instance_of := x\<rparr>)"
| drop: "async_drop Release g (instance_of y) = Some (ps, es, x) \<Longrightarrow>
    timer_step y (y\<lparr>instance_of := x\<rparr>)"
| ack: "async_ack Release g (instance_of y) = Some (l, ps, es, x) \<Longrightarrow>
    timer_step y (y\<lparr>instance_of := x\<rparr>)"
| unlock: "async_unlock g (instance_of y) = (u, g', es, x) \<Longrightarrow>
    timer_step y (y\<lparr>instance_of := x\<rparr>)"
| drop_lock: "async_seq_cst_drop l (instance_of y) = (es, x) \<Longrightarrow>
    timer_step y (y\<lparr>instance_of := x\<rparr>)"
| read: "updates y = u # us \<Longrightarrow>
    service_turn Release t (Some u) (task y) (instance_of y) = Some (ps, st, x) \<Longrightarrow>
    timer_step y \<lparr> task = st, updates = us, instance_of = x \<rparr>"
| serve: "service_turn Release t None (task y) (instance_of y) = Some (ps, st, x) \<Longrightarrow>
    timer_step y (y\<lparr>task := st, instance_of := x\<rparr>)"

inductive timer_reach :: "('s, 'r) timed \<Rightarrow> ('s, 'r) timed \<Rightarrow> bool" where
  here: "timer_reach y y"
| there: "timer_reach y z \<Longrightarrow> timer_step z z' \<Longrightarrow> timer_reach y z'"

text \<open>Some timestamp the task has, or will read, is not after the instance's.\<close>

definition heard :: "('s, 'r) timed \<Rightarrow> bool" where
  "heard y \<longleftrightarrow> (\<exists>t \<in> insert (task_next_service (task y)) (set (updates y)).
     sint t \<le> sint (next_service_timestamp (async_seq (instance_of y))))"

definition timer_inv :: "('s, 'r) timed \<Rightarrow> bool" where
  "timer_inv y \<longleftrightarrow> sound Release (async_seq (instance_of y)) \<and> heard y"

lemma heard_same:
  assumes "heard y"
    and "next_service_timestamp (async_seq x) = next_service_timestamp (async_seq (instance_of y))"
  shows "heard (y\<lparr>instance_of := x\<rparr>)"
  using assms by (simp add: heard_def)

lemma heard_queued:
  assumes "heard y"
    and "u = changed (next_service_timestamp (async_seq (instance_of y))) (next_service_timestamp (async_seq x))"
  shows "heard (y\<lparr>updates := updates y @ queued u, instance_of := x\<rparr>)"
  using assms by (auto simp: heard_def changed_def)

lemma timer_inv_same:
  assumes "timer_inv y" and "sound Release (async_seq x)"
    and "next_service_timestamp (async_seq x) = next_service_timestamp (async_seq (instance_of y))"
  shows "timer_inv (y\<lparr>instance_of := x\<rparr>)"
  using assms heard_same [of y x] by (simp add: timer_inv_def)

lemma send_update:
  assumes "async_send_with Release t rx c f x = Some (turn, ps, x')" and "sound Release (async_seq x)"
  shows "sound Release (async_seq x')"
    and "turn_update turn
      = changed (next_service_timestamp (async_seq x)) (next_service_timestamp (async_seq x'))"
proof -
  note shape = core_parts(1) [OF sound_core [OF assms(2)]]
  let ?f = "\<lambda>s. (rx, f s)"
  have time: "time_ok Release t (async_seq x)" by (simp add: time_ok_def)
  from assms(1) obtain res qs s where
    run: "try_send_with Release t c ?f (async_seq x) = Some (res, qs, s)"
    by (cases "try_send_with Release t c ?f (async_seq x)")
      (auto simp: async_send_with_def send_with_inner_def Let_def)
  have refused: "s = async_seq x" if "res = Inl e" for e
    using run that
    by (auto simp: try_send_with_def try_send_direct_with_eq [OF shape time] Let_def split: if_splits)
  have "async_seq x' = s \<and> turn_update turn
      = changed (next_service_timestamp (async_seq x)) (next_service_timestamp s)"
  proof (cases res)
    case (Inl q)
    obtain e p where q: "q = (e, p)" by (cases q)
    with Inl refused run assms(1) show ?thesis
      by (cases e) (auto simp: async_send_with_def send_with_inner_def changed_def)
  next
    case (Inr q)
    with run assms(1) show ?thesis by (auto simp: async_send_with_def send_with_inner_def)
  qed
  with send_with_release [OF assms(2) run]
  show "sound Release (async_seq x')" and "turn_update turn
      = changed (next_service_timestamp (async_seq x)) (next_service_timestamp (async_seq x'))"
    by simp_all
qed

lemma reply_update:
  assumes "async_reply_with Release t tx c f g x = Some (u, ps, es, x')" and "sound Release (async_seq x)"
  shows "sound Release (async_seq x')"
    and "u = changed (next_service_timestamp (async_seq x)) (next_service_timestamp (async_seq x'))"
  using assms reply_release [OF assms(2)]
  by (auto simp: async_reply_with_def try_reply_with_inner_def async_notify_reply_def Let_def
      bind_eq_Some_conv split: if_splits)

lemma ack_facts:
  "sound Release s \<Longrightarrow> ack_raw Release n u s = Some (r, ps, s') \<Longrightarrow>
   sound Release s' \<and> next_service_timestamp s' = next_service_timestamp s"
  using ack_release [of s n u r ps s'] ack_same [of Release n u s r ps s'] by (simp add: same_recv_def)

lemma unlock_facts:
  "sound Release s \<Longrightarrow>
   sound Release (unlock_raw s) \<and> next_service_timestamp (unlock_raw s) = next_service_timestamp s"
  by (simp add: unlock_raw_sound) (simp add: unlock_raw_def)

lemma release_facts:
  assumes "sound Release (async_seq x)"
  shows "async_drop Release g x = Some (ps, es, x') \<Longrightarrow> sound Release (async_seq x')
      \<and> next_service_timestamp (async_seq x') = next_service_timestamp (async_seq x)"
    and "async_ack Release g x = Some (l, ps, es, x') \<Longrightarrow> sound Release (async_seq x')
      \<and> next_service_timestamp (async_seq x') = next_service_timestamp (async_seq x)"
    and "async_unlock g x = (u, g', es, x') \<Longrightarrow> sound Release (async_seq x')
      \<and> next_service_timestamp (async_seq x') = next_service_timestamp (async_seq x)"
    and "async_seq_cst_drop k x = (es, x') \<Longrightarrow> sound Release (async_seq x')
      \<and> next_service_timestamp (async_seq x') = next_service_timestamp (async_seq x)"
  using assms unlock_facts [OF assms]
  by (auto simp: async_drop_def async_ack_def async_unlock_def async_seq_cst_drop_def
      async_consume_lock_def async_notify_reply_def bind_eq_Some_conv
      dest!: ack_facts [OF assms] split: if_splits)

lemma service_facts:
  assumes "sound Release (async_seq x)"
    and "service_turn Release t None st x = Some (ps, st', x')"
  shows "sound Release (async_seq x')
    \<and> task_next_service st' = next_service_timestamp (async_seq x')"
proof -
  from assms(2) obtain w qs s where "service Release t (async_seq x) = Some (w, qs, s)"
    and "st' = st\<lparr>task_next_service := next_service_timestamp s\<rparr>" and "async_seq x' = s"
    by (auto simp: service_turn_def bind_eq_Some_conv)
  moreover have "service_ok Release t (async_seq x)" by (simp add: service_ok_def time_ok_def)
  ultimately show ?thesis using service_sound [OF assms(1), of t] by auto
qed

lemma timer_inv_read:
  assumes "timer_inv y" and "updates y = u # us"
    and "service_turn Release t (Some u) (task y) (instance_of y) = Some (ps, st, x)"
  shows "timer_inv \<lparr> task = st, updates = us, instance_of = x \<rparr>"
  using assms by (auto simp: timer_inv_def heard_def service_turn_def i64_min_of_def)

lemma timer_step_inv:
  assumes "timer_step y z" and "timer_inv y"
  shows "timer_inv z"
  using assms(1)
proof cases
  case (send t rx c f turn ps x)
  with assms(2) send_update [OF send(2)] show ?thesis by (simp add: timer_inv_def heard_queued)
next
  case (reply t tx c f g u ps es x)
  with assms(2) reply_update [OF reply(2)] show ?thesis by (simp add: timer_inv_def heard_queued)
next
  case (receive alive ch p ret ps es x)
  have "sound Release (async_seq (instance_of y))" using assms(2) by (simp add: timer_inv_def)
  with receive receive_inner_sound [of "instance_of y" alive ch p] receive_inner_nst [OF _ receive(2)]
  show ?thesis using timer_inv_same [OF assms(2)] by auto
next
  case (drop g ps es x)
  with assms(2) release_facts(1) [OF _ drop(2)] show ?thesis
    using timer_inv_same [OF assms(2)] by (simp add: timer_inv_def)
next
  case (ack g l ps es x)
  with assms(2) release_facts(2) [OF _ ack(2)] show ?thesis
    using timer_inv_same [OF assms(2)] by (simp add: timer_inv_def)
next
  case (unlock g u g' es x)
  with assms(2) release_facts(3) [OF _ unlock(2)] show ?thesis
    using timer_inv_same [OF assms(2)] by (simp add: timer_inv_def)
next
  case (drop_lock l es x)
  with assms(2) release_facts(4) [OF _ drop_lock(2)] show ?thesis
    using timer_inv_same [OF assms(2)] by (simp add: timer_inv_def)
next
  case (read u us t ps st x)
  with timer_inv_read [OF assms(2)] show ?thesis by blast
next
  case (serve t ps st x)
  with assms(2) service_facts [OF _ serve(2)] show ?thesis by (simp add: timer_inv_def heard_def)
qed

lemma timer_reach_inv: "timer_reach y z \<Longrightarrow> timer_inv y \<Longrightarrow> timer_inv z"
  by (induction rule: timer_reach.induct) (auto intro: timer_step_inv)

lemma async_new_timer:
  assumes "window_ring cap" and "async_new Release cap iv n = Some (x, st)"
  shows "timer_inv \<lparr> task = st, updates = [], instance_of = x \<rparr>"
proof -
  from assms(2) have new: "new_seqex Release cap iv n = Some (async_seq x)"
    and "task_next_service st = i64_max"
    by (auto simp: async_new_def bind_eq_Some_conv)
  moreover have "next_service_timestamp (async_seq x) = i64_max"
    using new by (auto simp: new_seqex_def dest!: sym [where t = "async_seq x"] split: if_splits)
  moreover have "sound Release (async_seq x)"
    using new_sess_inv [OF assms(1) new, of Release] by (simp add: sess_inv_def new_session_def)
  ultimately show ?thesis by (simp add: timer_inv_def heard_def)
qed

text \<open>How long the task sleeps, as a time not after which it serves the instance.\<close>

fun serves_by :: "i64 \<Rightarrow> service_wait \<Rightarrow> i64 \<Rightarrow> bool" where
  "serves_by t (WaitMillis d) u = (sint t + sint d \<le> sint u)"
| "serves_by t WaitUpdate u = (u = i64_max)"
| "serves_by t NoWait u = True"

lemma wait_by:
  assumes "service_wait_for Release t st = Some w"
    and "i64_in_range (sint (task_next_service st) - sint t)"
    and "sint (task_next_service st) \<le> sint u"
  shows "serves_by t w u"
proof (cases "sint (task_next_service st) < sint i64_max")
  case True
  have "sint (task_next_service st - t) = sint (task_next_service st) - sint t"
    using assms(2)
    by (simp add: i64_in_range_def sint_word_ariths signed_take_bit_int_eq_self)
  with True assms(1,3) show ?thesis by (auto simp: service_wait_for_def split: if_splits)
next
  case False
  with assms(3) sint_i64(2) [of u] have "sint u = sint i64_max" by (simp add: i64_max_def)
  then have "u = i64_max" by (rule signed_word_eqI)
  with False assms(1) show ?thesis by (simp add: service_wait_for_def)
qed

section \<open>Property\<close>

text \<open>
  C31. The service task is never late. However sections of the async API interleave with the turns of
  the task, in a release build, for every unacknowledged packet the task has a timestamp not after
  the packet's resend time, or one is in its queue. Once it has read its queue, it sleeps at most
  until that time, if its clock does not overflow.
\<close>

theorem service_task_never_late:
  assumes "window_ring cap" and "async_new Release cap iv n = Some (x, st)"
    and "timer_reach \<lparr> task = st, updates = [], instance_of = x \<rparr> y"
    and "i < length (send_window (async_seq (instance_of y)))"
    and "send_window (async_seq (instance_of y)) ! i = Some e"
  shows "(\<exists>t \<in> insert (task_next_service (task y)) (set (updates y)). sint t \<le> sint (next_resend_time e))
    \<and> (updates y = [] \<and> service_wait_for Release t (task y) = Some w
        \<and> i64_in_range (sint (task_next_service (task y)) - sint t)
      \<longrightarrow> serves_by t w (next_resend_time e))"
proof -
  have inv: "timer_inv y" using timer_reach_inv [OF assms(3) async_new_timer [OF assms(1,2)]] .
  then have "timer_ok (async_seq (instance_of y))" by (simp add: timer_inv_def sound_release)
  with assms(4,5)
  have "sint (next_service_timestamp (async_seq (instance_of y))) \<le> sint (next_resend_time e)"
    unfolding timer_ok_def by blast
  with inv have early: "\<exists>t \<in> insert (task_next_service (task y)) (set (updates y)).
      sint t \<le> sint (next_resend_time e)"
    unfolding timer_inv_def heard_def by (meson order_trans)
  then show ?thesis using wait_by [of t "task y" w "next_resend_time e"] by auto
qed

text \<open>A packet sent at time 1 and due at 251, and the task after reading its queue.\<close>

definition one_sent :: "((nat, nat) timed) option" where
  "one_sent = do {
     (x, st) \<leftarrow> async_new Release 8 250 0;
     (turn, ps, x) \<leftarrow> async_send_with Release 1 0 True (\<lambda>_. 4) x;
     (ps, st, x) \<leftarrow> service_turn Release 2 (turn_update turn) st x;
     Some \<lparr> task = st, updates = [], instance_of = x \<rparr>
   }"

theorem service_task_never_late_witness:
  "\<exists>y. one_sent = Some y \<and> service_wait_for Release 2 (task y) = Some (WaitMillis 249)
    \<and> serves_by 2 (WaitMillis 249) (next_resend_time (the (send_window (async_seq (instance_of y)) ! 0)))"
proof -
  have seen: "map_option (\<lambda>y. (updates y, service_wait_for Release 2 (task y), task_next_service (task y),
      map_option next_resend_time (send_window (async_seq (instance_of y)) ! 0),
      0 < length (send_window (async_seq (instance_of y))))) one_sent
    = Some ([], Some (WaitMillis 249), 251, Some 251, True)"
    by code_simp
  have turn: "map_option (\<lambda>(x, st). map_option (\<lambda>(turn, ps, x). turn)
      (async_send_with Release 1 0 True (\<lambda>_. 4) x)) (async_new Release 8 250 0 :: ((nat, nat) async_inner \<times> _) option)
    = Some (Some (AwaitAnswer 0 (Some 251)))"
    by code_simp
  then obtain x st ps x1 where new: "async_new Release 8 250 0 = Some (x :: (nat, nat) async_inner, st)"
    and sent: "async_send_with Release 1 0 True (\<lambda>_. 4) x = Some (AwaitAnswer 0 (Some 251), ps, x1)"
    by auto
  let ?y = "\<lparr> task = st\<lparr>task_next_service := i64_min_of (task_next_service st) 251\<rparr>,
    updates = [], instance_of = x1 \<rparr>"
  have y: "one_sent = Some ?y" using new sent by (simp add: one_sent_def service_turn_def)
  have "timer_step \<lparr> task = st, updates = [], instance_of = x \<rparr>
      \<lparr> task = st, updates = [251], instance_of = x1 \<rparr>"
    using timer_step.send [of 1 0 True "\<lambda>_. 4" "\<lparr> task = st, updates = [], instance_of = x \<rparr>"] sent by simp
  moreover have "timer_step \<lparr> task = st, updates = [251], instance_of = x1 \<rparr> ?y"
    using timer_step.read [of "\<lparr> task = st, updates = [251], instance_of = x1 \<rparr>" 251 "[]" 2]
    by (simp add: service_turn_def)
  ultimately have "timer_reach \<lparr> task = st, updates = [], instance_of = x \<rparr> ?y"
    by (blast intro: timer_reach.intros)
  from service_task_never_late [OF small_rings(2) new this, of 0 "the (send_window (async_seq x1) ! 0)" 2 "WaitMillis 249"]
  show ?thesis using seen y by (auto simp: i64_in_range_def)
qed

end
