(* ===== verification/Mpsc.thy ===== *)
theory Mpsc
  imports Sync
begin

text \<open>
  \<^verbatim>\<open>MpscTransport\<close> of \<^verbatim>\<open>src/sync.rs\<close> and of
  \<^verbatim>\<open>src/tokio.rs\<close>: a channel and the instant it was made. The channel of the
  standard library is an unbounded queue; sending fails, without effect, once the receiver is gone.
  An instant is a number of nanoseconds since some origin.
\<close>

section \<open>Channels of the standard library\<close>

record 'p channel =
  queue :: "'p list"
  receiver_alive :: bool

definition new_channel :: "'p channel" where
  "new_channel = \<lparr> queue = [], receiver_alive = True \<rparr>"

definition channel_send :: "'p \<Rightarrow> 'p channel \<Rightarrow> ('p + unit) \<times> 'p channel" where
  "channel_send p ch =
     (if receiver_alive ch then (Inr (), ch\<lparr>queue := queue ch @ [p]\<rparr>) else (Inl p, ch))"

section \<open>The transport layer of the thread-safe API\<close>

record mpsc_transport =
  started :: nat

definition mpsc_new :: "nat \<Rightarrow> mpsc_transport \<times> 'p packet channel" where
  "mpsc_new now = (\<lparr> started = now \<rparr>, new_channel)"

definition mpsc_from_sender :: "nat \<Rightarrow> mpsc_transport" where
  "mpsc_from_sender now = \<lparr> started = now \<rparr>"

text \<open>
  \<^verbatim>\<open>elapsed\<close> does not go below zero; the milliseconds are a
  \<^verbatim>\<open>u128\<close> cut off to an \<^verbatim>\<open>i64\<close>.
\<close>

definition mpsc_time :: "nat \<Rightarrow> mpsc_transport \<Rightarrow> i64" where
  "mpsc_time now tr = of_nat ((now - started tr) div 10 ^ 6)"

definition mpsc_send :: "('p \<Rightarrow> 'p) \<Rightarrow> 'p packet \<Rightarrow> 'p packet channel \<Rightarrow> 'p packet channel" where
  "mpsc_send clone p ch = snd (channel_send (cloned clone p) ch)"

text \<open>The packets a call sends, in order, with data whose clone is equal to it.\<close>

definition mpsc_send_all :: "'p packet list \<Rightarrow> 'p packet channel \<Rightarrow> 'p packet channel" where
  "mpsc_send_all ps ch = fold (mpsc_send (\<lambda>d. d)) ps ch"

lemma packet_map_same: "packet_map (\<lambda>d. d) p = p"
  by (cases p) simp_all

lemma mpsc_send_all_queue:
  "receiver_alive ch \<Longrightarrow> mpsc_send_all ps ch = ch\<lparr>queue := queue ch @ ps\<rparr>"
proof (induction ps arbitrary: ch)
  case (Cons p ps)
  then show ?case by (simp add: mpsc_send_all_def mpsc_send_def channel_send_def cloned_def packet_map_same)
qed (simp add: mpsc_send_all_def)

section \<open>The transport layer of the async API\<close>

text \<open>
  The channel is tokio's, which is bounded: \<open>offer\<close> stands for its method \<^verbatim>\<open>try_send\<close>, whose result is
  ignored.
\<close>

definition async_mpsc_new :: "(nat \<Rightarrow> 'ch) \<Rightarrow> nat \<Rightarrow> nat \<Rightarrow> mpsc_transport \<times> 'ch" where
  "async_mpsc_new channel buffer now = (\<lparr> started = now \<rparr>, channel buffer)"

definition async_mpsc_from_sender :: "nat \<Rightarrow> mpsc_transport" where
  "async_mpsc_from_sender now = \<lparr> started = now \<rparr>"

definition async_mpsc_time :: "nat \<Rightarrow> mpsc_transport \<Rightarrow> i64" where
  "async_mpsc_time now tr = of_nat ((now - started tr) div 10 ^ 6)"

definition async_mpsc_send ::
  "('p packet \<Rightarrow> 'ch \<Rightarrow> 'e \<times> 'ch) \<Rightarrow> ('p \<Rightarrow> 'p) \<Rightarrow> 'p packet \<Rightarrow> 'ch \<Rightarrow> 'ch" where
  "async_mpsc_send offer clone p ch = snd (offer (cloned clone p) ch)"

text \<open>The clock starts at zero and, for 292 million years, counts up.\<close>

lemma mpsc_time_value:
  assumes "(now - started tr) div 10 ^ 6 < 2 ^ 63"
  shows "sint (mpsc_time now tr) = int ((now - started tr) div 10 ^ 6)"
  unfolding mpsc_time_def signed_of_nat using assms by (simp add: signed_take_bit_int_eq_self)

end
