(* ===== verification/Receive_Loop.thy ===== *)
theory Receive_Loop
  imports Mpsc Pumping
begin

text \<open>
  The loop \<^verbatim>\<open>for recv_data in seq.receive_all(tl, packet)\<close> of a program with one
  thread per instance, with the body of the loop as a parameter. A wait inside it is never woken, as
  there is no other thread: the loop then ends as \<open>Blocked\<close>.
\<close>

section \<open>The loop\<close>

datatype loop_end = Done | Blocked

text \<open>
  The body takes the received item and the program's variables, and returns them with the packets it
  sent.
\<close>

type_synonym ('s, 'r, 'u) loop_body =
  "('s, 'r) recv_ok \<Rightarrow> 'u \<Rightarrow> ('s, 'r) inner \<Rightarrow> ('s packet list \<times> 'u \<times> ('s, 'r) inner) option"

partial_function (option) for_each ::
  "build \<Rightarrow> ('s, 'r, 'u) loop_body \<Rightarrow> ('s, 'r) recv_iter \<Rightarrow> 'u \<Rightarrow> ('s, 'r) inner \<Rightarrow>
   (loop_end \<times> 's packet list \<times> 'u \<times> ('s, 'r) inner) option" where
  "for_each b body it u x =
     (case recv_iter_next b it x of
        None \<Rightarrow> None
      | Some (Return (Some item, it), _, x) \<Rightarrow>
          Option.bind (body item u x) (\<lambda>(ps, u, x).
            Option.bind (for_each b body it u x) (\<lambda>(r, ps', u, x). Some (r, ps @ ps', u, x)))
      | Some (Return (None, _), _, x) \<Rightarrow> Some (Done, [], u, x)
      | Some (_, _, x) \<Rightarrow> Some (Blocked, [], u, x))"

declare for_each.simps [code]

definition receive_all_loop ::
  "build \<Rightarrow> ('s, 'r, 'u) loop_body \<Rightarrow> 'r packet \<Rightarrow> 'u \<Rightarrow> ('s, 'r) inner \<Rightarrow>
   (loop_end \<times> 's packet list \<times> 'u \<times> ('s, 'r) inner) option" where
  "receive_all_loop b body packet u x = do {
     (ret, ps, _, x) \<leftarrow> sync_try_receive b packet x;
     case receive_match ret of
       Some ret \<Rightarrow> do {
         (r, ps', u, x) \<leftarrow> for_each b body (sync_receive_all ret) u x;
         Some (r, ps @ ps', u, x)
       }
     | None \<Rightarrow> do {
         (pumped, _, x) \<leftarrow> sync_pump b x;
         case pumped of
           Return ret \<Rightarrow> do {
             (r, ps', u, x) \<leftarrow> for_each b body (sync_receive_all (recv_of_pump ret)) u x;
             Some (r, ps @ ps', u, x)
           }
         | _ \<Rightarrow> Some (Blocked, ps, u, x)
       }
   }"

definition try_receive_all_loop ::
  "build \<Rightarrow> ('s, 'r, 'u) loop_body \<Rightarrow> 'r packet \<Rightarrow> 'u \<Rightarrow> ('s, 'r) inner \<Rightarrow>
   (loop_end \<times> 's packet list \<times> 'u \<times> ('s, 'r) inner) option" where
  "try_receive_all_loop b body packet u x = do {
     (it, ps, _, x) \<leftarrow> sync_try_receive_all b packet x;
     (r, ps', u, x) \<leftarrow> for_each b body it u x;
     Some (r, ps @ ps', u, x)
   }"

end
