(* ===== verification/Hello_World.thy ===== *)
theory Hello_World
  imports Receive_Loop
begin

text \<open>
  \<^verbatim>\<open>examples/hello_world.rs\<close>: two instances in one thread exchange the words of a
  greeting, each in the reply to the one before.
\<close>

datatype word_payload = Hello | Space | World | Exclamation

text \<open>What is printed; the text of an unsolicited packet is its debug format.\<close>

datatype printed = Text string | Unsolicited "(word_payload, word_payload) recv_ok option"

text \<open>
  The body of the loop. A guard that is not used up is dropped at the end of its arm; the one in the
  value that is printed, right after printing.
\<close>

definition hello_reply ::
  "build \<Rightarrow> i64 \<Rightarrow> string \<Rightarrow> word_payload \<Rightarrow> reply_guard \<Rightarrow>
   printed list \<Rightarrow> (word_payload, word_payload) inner \<Rightarrow>
   (word_payload packet list \<times> printed list \<times> (word_payload, word_payload) inner) option" where
  "hello_reply b time text d g out x = do {
     (_, ps, _, x) \<leftarrow> sync_guard_reply b time False d g x;
     Some (ps, out @ [Text text], x)
   }"

definition hello_drop ::
  "build \<Rightarrow> printed \<Rightarrow> reply_guard \<Rightarrow> printed list \<Rightarrow> (word_payload, word_payload) inner \<Rightarrow>
   (word_payload packet list \<times> printed list \<times> (word_payload, word_payload) inner) option" where
  "hello_drop b p g out x = do {
     (ps, _, x) \<leftarrow> sync_guard_drop b g x;
     Some (ps, out @ [p], x)
   }"

definition hello_body :: "build \<Rightarrow> i64 \<Rightarrow> (word_payload, word_payload, printed list) loop_body" where
  "hello_body b time item out x =
     (case recv_consume item of
        (Some (g, Hello), None) \<Rightarrow> hello_reply b time ''Hello'' Space g out x
      | (Some (g, Space), Some Hello) \<Rightarrow> hello_reply b time '' '' World g out x
      | (Some (g, World), Some Space) \<Rightarrow> hello_reply b time ''World'' Exclamation g out x
      | (Some (g, Exclamation), Some World) \<Rightarrow> hello_drop b (Text ''!'') g out x
      | (None, Some Exclamation) \<Rightarrow> Some ([], out @ [Text ''\<newline>''], x)
      | (Some a, r) \<Rightarrow> hello_drop b (Unsolicited (recv_new (Some a) r)) (fst a) out x
      | _ \<Rightarrow> Some ([], out, x))"

text \<open>
  \<^verbatim>\<open>receive\<close> takes one packet from the channel and loops over what can be
  processed; on an empty channel it would wait for ever. The other channel gets what is sent.
\<close>

type_synonym hello_side = "(word_payload, word_payload) inner"

definition hello_receive ::
  "build \<Rightarrow> i64 \<Rightarrow> word_payload packet channel \<Rightarrow> hello_side \<Rightarrow> word_payload packet channel \<Rightarrow>
   printed list \<Rightarrow>
   (loop_end \<times> word_payload packet channel \<times> hello_side \<times> word_payload packet channel \<times> printed list) option" where
  "hello_receive b time recv x to_other out =
     (case queue recv of
        [] \<Rightarrow> Some (Blocked, recv, x, to_other, out)
      | p # rest \<Rightarrow> do {
          (r, ps, out, x) \<leftarrow> receive_all_loop b (hello_body b time) p out x;
          Some (r, recv\<lparr>queue := rest\<rparr>, x, mpsc_send_all ps to_other, out)
        })"

text \<open>
  \<^verbatim>\<open>main\<close>, with the clock standing still at \<open>time\<close>. \<open>ch1\<close> is what the first peer
  receives from.
\<close>

definition hello_main :: "build \<Rightarrow> i64 \<Rightarrow> (loop_end list \<times> printed list) option" where
  "hello_main b time = do {
     x1 \<leftarrow> sync_default b DEFAULT_WINDOW_CAP;
     x2 \<leftarrow> sync_default b DEFAULT_WINDOW_CAP;
     (sent, _, ps, x1) \<leftarrow> sync_send b time False Hello x1;
     let ch2 = mpsc_send_all ps new_channel;
     (r1, ch2, x2, ch1, out) \<leftarrow> hello_receive b time ch2 x2 new_channel [];
     (r2, ch1, x1, ch2, out) \<leftarrow> hello_receive b time ch1 x1 ch2 out;
     (r3, ch2, x2, ch1, out) \<leftarrow> hello_receive b time ch2 x2 ch1 out;
     (r4, ch1, x1, ch2, out) \<leftarrow> hello_receive b time ch1 x1 ch2 out;
     (r5, ch2, x2, ch1, out) \<leftarrow> hello_receive b time ch2 x2 ch1 out;
     Some ([r1, r2, r3, r4, r5], out)
   }"

text \<open>
  The example prints its greeting: in both builds \<^verbatim>\<open>main\<close> runs to its end without
  a panic or an endless wait, and prints \<^verbatim>\<open>Hello World!\<close> and a newline.
\<close>

theorem hello_world_greets:
  "hello_main Debug 0 = Some (replicate 5 Done, map Text [''Hello'', '' '', ''World'', ''!'', ''\<newline>''])
   \<and> hello_main Release 0 = hello_main Debug 0"
  by (intro conjI; code_simp)

end
