(* ===== verification/Exchange.thy ===== *)
theory Exchange
  imports Prelude Transport_Layer
begin

text \<open>
  The exchange of packets between two parties, without windows, timers or counters. A party is its
  history of numbered packets, the numbers that await an answer, the other party's numbers it has
  been handed, those among them it has not answered yet, and every packet it ever put on the wire.
  Whatever is on the wire may be received at any time, any number of times, or never.
\<close>

section \<open>Parties\<close>

record 'd party =
  made :: "seq_no \<Rightarrow> 'd packet option"
  unanswered :: "seq_no set"
  owed :: "seq_no multiset"
  handed :: "seq_no set"
  wired :: "'d packet set"
  taken :: "(seq_no \<times> bool \<times> 'd) list"

text \<open>The position of a number in the sequence that starts with \<open>n\<close>.\<close>

definition pos :: "seq_no \<Rightarrow> seq_no \<Rightarrow> nat" where
  "pos n m = unat (m - n)"

lemma pos_inj: "pos n m = pos n m' \<Longrightarrow> m = m'"
  by (simp add: pos_def flip: word_unat_eq_iff)

lemma pos_of_nat [simp]: "k < 2 ^ 32 \<Longrightarrow> pos n (n + of_nat k) = k"
  by (simp add: pos_def unat_u32_of_nat)

lemma pos_less: "pos n m < 2 ^ 32"
  using unsigned_less [of "m - n"] by (simp add: pos_def)

text \<open>Every number below \<open>m\<close> has been handed over.\<close>

definition all_below :: "seq_no \<Rightarrow> seq_no \<Rightarrow> seq_no set \<Rightarrow> bool" where
  "all_below n m A \<longleftrightarrow> (\<forall>m'. pos n m' < pos n m \<longrightarrow> m' \<in> A)"

text \<open>
  One step of party \<open>x\<close>, with \<open>y\<close> at the other end: it sends again what it has made, makes a packet,
  makes the reply to a number it owes an answer, acknowledges such a number, acknowledges again a
  number whose answer has been settled, is handed a packet of \<open>y\<close>, or receives an acknowledgement.
\<close>

inductive party_step :: "seq_no \<Rightarrow> 'd party \<Rightarrow> 'd party \<Rightarrow> 'd party \<Rightarrow> bool" for n where
  resend: "ps \<subseteq> ran (made x) \<Longrightarrow> party_step n x y (x\<lparr>wired := wired x \<union> ps\<rparr>)"
| make: "made x m = None \<Longrightarrow> seq_part p = Some m \<Longrightarrow> reply_part p = None \<Longrightarrow>
    party_step n x y (x\<lparr>made := (made x)(m \<mapsto> p), unanswered := insert m (unanswered x),
      wired := insert p (wired x)\<rparr>)"
| reply: "made x m = None \<Longrightarrow> seq_part p = Some m \<Longrightarrow> reply_part p = Some r \<Longrightarrow> r \<in># owed x \<Longrightarrow>
    party_step n x y (x\<lparr>made := (made x)(m \<mapsto> p), unanswered := insert m (unanswered x),
      owed := owed x - {#r#}, wired := insert p (wired x)\<rparr>)"
| ack: "r \<in># owed x \<Longrightarrow>
    party_step n x y (x\<lparr>owed := owed x - {#r#}, wired := insert (Ack r) (wired x)\<rparr>)"
| ack_again: "r \<in> handed x \<Longrightarrow> r \<notin># owed x \<Longrightarrow>
    \<forall>j \<in> unanswered x. \<forall>p. made x j = Some p \<longrightarrow> reply_part p \<noteq> Some r \<Longrightarrow>
    party_step n x y (x\<lparr>wired := insert (Ack r) (wired x)\<rparr>)"
| take: "made y m = Some p \<Longrightarrow> m \<notin> handed x \<Longrightarrow> is_seq_cst p \<longrightarrow> all_below n m (handed x) \<Longrightarrow>
    party_step n x y (x\<lparr>unanswered := unanswered x - set_option (reply_part p),
      owed := add_mset m (owed x), handed := insert m (handed x),
      taken := taken x @ [(m, is_seq_cst p, the (payload p))]\<rparr>)"
| answered: "Ack r \<in> wired y \<Longrightarrow> party_step n x y (x\<lparr>unanswered := unanswered x - {r}\<rparr>)"

section \<open>What the parties agree on\<close>

text \<open>Of party \<open>x\<close> alone.\<close>

definition own_ok :: "'d party \<Rightarrow> bool" where
  "own_ok x \<longleftrightarrow> (\<forall>m p. made x m = Some p \<longrightarrow> seq_part p = Some m)
     \<and> (\<forall>p \<in> wired x. \<forall>m. seq_part p = Some m \<longrightarrow> made x m = Some p)
     \<and> (\<forall>j p j' p' m. made x j = Some p \<longrightarrow> made x j' = Some p' \<longrightarrow> reply_part p = Some m \<longrightarrow>
          reply_part p' = Some m \<longrightarrow> j = j')"

text \<open>What \<open>y\<close> has been handed was made by \<open>x\<close>, and what it has not been handed is still kept.\<close>

definition kept :: "'d party \<Rightarrow> 'd party \<Rightarrow> bool" where
  "kept x y \<longleftrightarrow> unanswered x \<subseteq> dom (made x) \<and> handed y \<subseteq> dom (made x)
     \<and> dom (made x) \<subseteq> handed y \<union> unanswered x"

text \<open>
  A number is answered once: while \<open>y\<close> owes the answer it made no reply, and \<open>x\<close> awaits it; a reply
  that \<open>x\<close> was not handed yet is still awaited; an acknowledgement comes only when neither is left.
\<close>

definition answers_once :: "'d party \<Rightarrow> 'd party \<Rightarrow> bool" where
  "answers_once x y \<longleftrightarrow>
     (\<forall>m. m \<in># owed y \<longrightarrow> m \<in> handed y \<and> m \<in> unanswered x \<and> count (owed y) m = 1
        \<and> (\<forall>j p. made y j = Some p \<longrightarrow> reply_part p \<noteq> Some m))
     \<and> (\<forall>j p m. made y j = Some p \<longrightarrow> reply_part p = Some m \<longrightarrow>
          m \<in> handed y \<and> (j \<notin> handed x \<longrightarrow> m \<in> unanswered x))
     \<and> (\<forall>m. Ack m \<in> wired y \<longrightarrow> m \<in> handed y \<and> m \<notin># owed y
        \<and> (\<forall>j p. made y j = Some p \<longrightarrow> reply_part p = Some m \<longrightarrow> j \<in> handed x))"

text \<open>What was taken, once each and as it was made.\<close>

definition taken_ok :: "'d party \<Rightarrow> 'd party \<Rightarrow> bool" where
  "taken_ok x y \<longleftrightarrow> distinct (map fst (taken y)) \<and> fst ` set (taken y) = handed y
     \<and> (\<forall>(m, c, d) \<in> set (taken y). \<exists>p. made x m = Some p \<and> c = is_seq_cst p \<and> d = the (payload p))"

text \<open>SeqCst packets after all before them.\<close>

fun in_order :: "seq_no \<Rightarrow> seq_no set \<Rightarrow> (seq_no \<times> bool \<times> 'd) list \<Rightarrow> bool" where
  "in_order n A [] = True"
| "in_order n A ((m, c, d) # ts) = ((c \<longrightarrow> all_below n m A) \<and> in_order n (insert m A) ts)"

lemma in_order_append:
  "in_order n A (ts @ [(m, c, d)]) \<longleftrightarrow>
     in_order n A ts \<and> (c \<longrightarrow> all_below n m (A \<union> fst ` set ts))"
  by (induction ts arbitrary: A) (auto simp: insert_commute)

definition agree :: "seq_no \<Rightarrow> 'd party \<Rightarrow> 'd party \<Rightarrow> bool" where
  "agree n x y \<longleftrightarrow> own_ok x \<and> kept x y \<and> answers_once x y \<and> taken_ok x y \<and> in_order n {} (taken y)"

lemmas agree_defs = own_ok_def kept_def answers_once_def taken_ok_def

lemma ownD:
  assumes "own_ok x"
  shows "made x m = Some p \<Longrightarrow> seq_part p = Some m"
    and "p \<in> wired x \<Longrightarrow> seq_part p = Some m \<Longrightarrow> made x m = Some p"
    and "made x j = Some p \<Longrightarrow> made x j' = Some p' \<Longrightarrow> reply_part p = Some r \<Longrightarrow>
      reply_part p' = Some r \<Longrightarrow> j = j'"
  using assms unfolding own_ok_def by blast+

lemma keptD:
  assumes "kept x y"
  shows "m \<in> unanswered x \<Longrightarrow> made x m \<noteq> None" and "m \<in> handed y \<Longrightarrow> made x m \<noteq> None"
    and "made x m = Some p \<Longrightarrow> m \<notin> handed y \<Longrightarrow> m \<in> unanswered x"
  using assms unfolding kept_def by blast+

lemma answersD:
  assumes "answers_once x y"
  shows "m \<in># owed y \<Longrightarrow> m \<in> handed y" and "m \<in># owed y \<Longrightarrow> m \<in> unanswered x"
    and "m \<in># owed y \<Longrightarrow> count (owed y) m = 1"
    and "m \<in># owed y \<Longrightarrow> made y j = Some p \<Longrightarrow> reply_part p \<noteq> Some m"
    and "made y j = Some p \<Longrightarrow> reply_part p = Some m \<Longrightarrow> m \<in> handed y"
    and "made y j = Some p \<Longrightarrow> reply_part p = Some m \<Longrightarrow> j \<notin> handed x \<Longrightarrow> m \<in> unanswered x"
    and "Ack m \<in> wired y \<Longrightarrow> m \<in> handed y" and "Ack m \<in> wired y \<Longrightarrow> m \<notin># owed y"
    and "Ack m \<in> wired y \<Longrightarrow> made y j = Some p \<Longrightarrow> reply_part p = Some m \<Longrightarrow> j \<in> handed x"
  using assms unfolding answers_once_def by blast+

lemma own_okI:
  assumes "\<And>m p. made x m = Some p \<Longrightarrow> seq_part p = Some m"
    and "\<And>p m. p \<in> wired x \<Longrightarrow> seq_part p = Some m \<Longrightarrow> made x m = Some p"
    and "\<And>j p j' p' r. made x j = Some p \<Longrightarrow> made x j' = Some p' \<Longrightarrow> reply_part p = Some r \<Longrightarrow>
      reply_part p' = Some r \<Longrightarrow> j = j'"
  shows "own_ok x"
  using assms unfolding own_ok_def by blast

text \<open>One more packet, whose reply number no other packet has.\<close>

lemma own_ok_add:
  assumes "own_ok x" and "made x m = None" and "seq_part p = Some m"
    and "\<And>r j q. reply_part p = Some r \<Longrightarrow> made x j = Some q \<Longrightarrow> reply_part q \<noteq> Some r"
    and "made x' = (made x)(m \<mapsto> p)" and "wired x' = insert p (wired x)"
  shows "own_ok x'"
proof (rule own_okI)
  fix j q assume "made x' j = Some q"
  with assms ownD(1) [OF assms(1), of j q] show "seq_part q = Some j" by (auto split: if_splits)
next
  fix q j assume "q \<in> wired x'" and "seq_part q = Some j"
  with assms ownD(2) [OF assms(1), of q j] show "made x' j = Some q" by auto
next
  fix j q j' q' r assume "made x' j = Some q" "made x' j' = Some q'" "reply_part q = Some r" "reply_part q' = Some r"
  with assms(4,5) ownD(3) [OF assms(1), of j q j' q' r] show "j = j'" by (auto split: if_splits)
qed

lemma own_ok_cong:
  assumes "own_ok x" and "made x' = made x" and "wired x' = wired x \<or> (\<exists>r. wired x' = insert (Ack r) (wired x))"
  shows "own_ok x'"
proof (rule own_okI)
  fix q j assume "q \<in> wired x'" and j: "seq_part q = Some j"
  with assms(3) have "q \<in> wired x" by auto
  with ownD(2) [OF assms(1) _ j] assms(2) show "made x' j = Some q" by simp
qed (use assms(2) ownD(1,3) [OF assms(1)] in \<open>simp_all only:\<close>)

lemma own_ok_step:
  assumes "party_step n x y x'" and "own_ok x" and "answers_once y x"
  shows "own_ok x'"
  using assms
proof (induction rule: party_step.induct)
  case (resend ps x y)
  show ?case
  proof (rule own_okI)
    fix p m assume "p \<in> wired (x\<lparr>wired := wired x \<union> ps\<rparr>)" and m: "seq_part p = Some m"
    then consider "p \<in> wired x" | j where "made x j = Some p" using resend(1) by (auto simp: ran_def)
    then show "made (x\<lparr>wired := wired x \<union> ps\<rparr>) m = Some p"
    proof cases
      case 1
      with ownD(2) [OF resend(2) _ m] show ?thesis by simp
    next
      case (2 j)
      with ownD(1) [OF resend(2) this] m show ?thesis by simp
    qed
  qed (use ownD [OF resend(2)] in \<open>simp_all\<close>)
next
  case (make x m p y)
  from this(4,1,2) show ?case by (rule own_ok_add) (use make in simp_all)
next
  case (reply x m p r y)
  from this(5,1,2) show ?case
  proof (rule own_ok_add)
    fix r' j q assume "reply_part p = Some r'" and "made x j = Some q"
    with reply answersD(4) [OF reply(6,4), of j q] show "reply_part q \<noteq> Some r'" by simp
  qed simp_all
qed (rule own_ok_cong, assumption, simp, simp, blast?)+

lemma kept_step:
  assumes "party_step n x y x'" and "kept x y" and "kept y x" and "answers_once x y"
  shows "kept x' y \<and> kept y x'"
  using assms
proof (induction rule: party_step.induct)
  case (take y m p x)
  have "r \<in> handed y" if "r \<in> set_option (reply_part p)" for r
    using that answersD(5) [OF take(6,1)] by (simp add: elem_set)
  with take show ?case unfolding kept_def by auto
next
  case (answered r y x)
  from answersD(7) [OF this(4,1)] this(2,3) show ?case unfolding kept_def by auto
qed (auto simp: kept_def)

lemma answersI:
  assumes "\<And>m. m \<in># owed y \<Longrightarrow> m \<in> handed y \<and> m \<in> unanswered x \<and> count (owed y) m = 1"
    and "\<And>m j p. m \<in># owed y \<Longrightarrow> made y j = Some p \<Longrightarrow> reply_part p \<noteq> Some m"
    and "\<And>m j p. made y j = Some p \<Longrightarrow> reply_part p = Some m \<Longrightarrow>
      m \<in> handed y \<and> (j \<notin> handed x \<longrightarrow> m \<in> unanswered x)"
    and "\<And>m. Ack m \<in> wired y \<Longrightarrow> m \<in> handed y \<and> m \<notin># owed y"
    and "\<And>m j p. Ack m \<in> wired y \<Longrightarrow> made y j = Some p \<Longrightarrow> reply_part p = Some m \<Longrightarrow> j \<in> handed x"
  shows "answers_once x y"
  using assms unfolding answers_once_def by blast

text \<open>What a step of \<open>y\<close> does to the answers it owes.\<close>

lemma ack_not_data: "seq_part p = Some m \<Longrightarrow> p \<noteq> Ack r"
  by auto

lemma once_only: "count A m = 1 \<Longrightarrow> m \<notin># A - {#m#}"
  by (simp add: in_diff_count)

lemma answers_step_answerer:
  assumes "party_step n y x y'" and "agree n x y" and "agree n y x"
  shows "answers_once x y'"
  using assms
proof (induction rule: party_step.induct)
  case (resend ps y x)
  then have own: "own_ok y" by (simp add: agree_def)
  have "Ack m \<notin> ps" for m
    using resend(1) ownD(1) [OF own, of _ "Ack m"] by (auto simp: ran_def)
  with resend show ?case by (auto simp: agree_def answers_once_def)
next
  case (make y m p x)
  then have a: "answers_once x y" and none: "made y m = None" by (simp_all add: agree_def)
  show ?case
    by (rule answersI) (use make answersD [OF a] in \<open>auto dest: ack_not_data split: if_splits\<close>)
next
  case (reply y m p r x)
  then have a: "answers_once x y" and kept: "kept y x" by (simp_all add: agree_def)
  note gone = once_only [OF answersD(3) [OF a reply(4)]]
  show ?case
    by (rule answersI)
      (use reply gone answersD [OF a] keptD(2) [OF kept, of m] in
        \<open>auto dest: ack_not_data in_diffD split: if_splits\<close>)
next
  case (ack r y x)
  then have a: "answers_once x y" by (simp add: agree_def)
  note gone = once_only [OF answersD(3) [OF a ack(1)]]
  show ?case
    by (rule answersI) (use ack gone answersD [OF a] in \<open>auto dest: in_diffD split: if_splits\<close>)
next
  case (ack_again r y x)
  then have a: "answers_once x y" and kept: "kept y x" by (simp_all add: agree_def)
  have "j \<in> handed x" if "made y j = Some p" "reply_part p = Some r" for j p
    using that ack_again(3) keptD(3) [OF kept] by blast
  then show ?case
    by (intro answersI) (use ack_again answersD [OF a] keptD(3) [OF kept] in \<open>auto split: if_splits\<close>)
next
  case (take x m p y)
  then have a: "answers_once x y" and kept: "kept x y" by (simp_all add: agree_def)
  have "count (owed y) m = 0" using answersD(1) [OF a] take(2) by (auto simp: count_eq_zero_iff)
  then show ?case
    by (intro answersI) (use take answersD [OF a] keptD(3) [OF kept] in \<open>auto split: if_splits\<close>)
next
  case (answered r x y)
  then show ?case by (auto simp: agree_def answers_once_def)
qed

lemma answers_step_asker:
  assumes "party_step n x y x'" and "answers_once x y" and "own_ok y"
  shows "answers_once x' y"
  using assms
proof (induction rule: party_step.induct)
  case (take y m p x)
  note a = answersD [OF take(4)]
  show ?case
    by (rule answersI) (use take a ownD(3) [OF take(5) take(1)] in \<open>auto simp: elem_set\<close>)
next
  case (answered r y x)
  note a = answersD [OF answered(2)]
  show ?case
    by (rule answersI) (use answered a in auto)
qed (auto simp: answers_once_def)

lemma taken_step:
  assumes "party_step n y x y'" and "taken_ok x y" and "in_order n {} (taken y)"
  shows "taken_ok x y' \<and> in_order n {} (taken y')"
  using assms
proof (induction rule: party_step.induct)
  case (take x m p y)
  then show ?case by (auto simp: taken_ok_def in_order_append)
qed (simp_all add: taken_ok_def)

lemma taken_mono:
  assumes "party_step n x y x'" and "taken_ok x y"
  shows "taken_ok x' y"
proof -
  have "made x' m = Some p" if "made x m = Some p" for m p
    using assms(1) that by (induction rule: party_step.induct) auto
  with assms(2) show ?thesis unfolding taken_ok_def by fastforce
qed

text \<open>A step of either party keeps both directions.\<close>

theorem agree_step:
  assumes "party_step n x y x'" and "agree n x y" and "agree n y x"
  shows "agree n x' y \<and> agree n y x'"
proof -
  have "own_ok x'" using assms own_ok_step by (auto simp: agree_def)
  moreover have "kept x' y \<and> kept y x'" using assms by (intro kept_step) (auto simp: agree_def)
  moreover have "answers_once y x'" by (rule answers_step_answerer [OF assms(1,3,2)])
  moreover have "answers_once x' y" using assms answers_step_asker by (auto simp: agree_def)
  moreover have "taken_ok x' y" and "taken_ok y x' \<and> in_order n {} (taken x')"
    using assms taken_mono taken_step [OF assms(1)] by (auto simp: agree_def)
  ultimately show ?thesis using assms(2,3) by (simp add: agree_def)
qed

text \<open>When everything is SeqCst, what was taken is what was made, in order, from the first.\<close>

lemma in_order_sequence:
  assumes "in_order n A ts" and "\<forall>(m, c, d) \<in> set ts. c" and "distinct (map fst ts)"
    and "A = pos n -` {..<k}" and "fst ` set ts \<inter> A = {}"
  shows "map (pos n \<circ> fst) ts = [k..<k + length ts]"
  using assms
proof (induction ts arbitrary: A k)
  case (Cons t ts)
  obtain m c d where t: "t = (m, c, d)" by (cases t)
  with Cons.prems have below: "all_below n m A" and "m \<notin> A" by auto
  then have "k \<le> pos n m" using Cons.prems(4) by auto
  moreover have "\<not> k < pos n m"
  proof
    assume k: "k < pos n m"
    with pos_less [of n m] have "pos n (n + of_nat k) = k" by (intro pos_of_nat) simp
    with below k have "n + of_nat k \<in> A" by (simp add: all_below_def)
    with \<open>pos n (n + of_nat k) = k\<close> Cons.prems(4) show False by simp
  qed
  ultimately have m: "pos n m = k" by simp
  have A: "insert m A = pos n -` {..<Suc k}"
  proof (intro set_eqI iffI)
    fix m' assume "m' \<in> pos n -` {..<Suc k}"
    then have "pos n m' < k \<or> pos n m' = pos n m" using m by (auto simp: less_Suc_eq)
    with pos_inj [of n m' m] show "m' \<in> insert m A" using Cons.prems(4) by auto
  qed (use Cons.prems(4) m in auto)
  have "map (pos n \<circ> fst) ts = [Suc k..<Suc k + length ts]"
  proof (rule Cons.IH [OF _ _ _ A])
    show "in_order n (insert m A) ts" using Cons.prems(1) t by simp
    show "\<forall>(m, c, d) \<in> set ts. c" using Cons.prems(2) by simp
    show "distinct (map fst ts)" using Cons.prems(3) by simp
    show "fst ` set ts \<inter> insert m A = {}" using Cons.prems(3,5) t by (auto simp: disjoint_iff)
  qed
  moreover have "[k..<k + length (t # ts)] = k # [Suc k..<Suc k + length ts]"
    by (simp add: upt_conv_Cons del: upt_Suc)
  ultimately show ?case using m t by (simp add: comp_def del: upt_Suc)
qed simp

lemma taken_in_sequence:
  assumes "agree n x y" and "\<forall>p \<in> ran (made x). is_seq_cst p"
  shows "map (pos n \<circ> fst) (taken y) = [0..<length (taken y)]"
proof -
  have "\<forall>(m, c, d) \<in> set (taken y). c"
    using assms by (fastforce simp: agree_def taken_ok_def ran_def)
  with in_order_sequence [of n "{}" "taken y" 0] assms(1) show ?thesis
    by (auto simp: agree_def taken_ok_def)
qed

end
