(* ===== verification/Peers.thy ===== *)
theory Peers
  imports Exchange Guards
begin

text \<open>
  Two instances that talk to each other over a network which loses, repeats and reorders packets.
  Either may make any low-level call, and receives only what the other put on the wire. Each step of
  the two is a step of the exchange of parties; what the parties agree on then holds of the instances.
\<close>

section \<open>Endpoints\<close>

text \<open>The packets that the result of a call puts on the wire, and the numbered ones among them.\<close>

fun emitted :: "('d, 'd) call_output \<Rightarrow> 'd packet list" where
  "emitted (TrySendOut (Inr p)) = [p]"
| "emitted (TrySendOut (Inl _)) = []"
| "emitted (ReceiveOut q) = map Ack (resends q)"
| "emitted (PumpOut _) = []"
| "emitted (ReplyOut None) = []"
| "emitted (ReplyOut (Some p)) = [p]"
| "emitted (AckOut None) = []"
| "emitted (AckOut (Some p)) = [p]"
| "emitted UnlockOut = []"
| "emitted (ServiceOut ps) = ps"

fun made_by :: "('d, 'd) call_output \<Rightarrow> 'd packet list" where
  "made_by (TrySendOut (Inr p)) = [p]"
| "made_by (ReplyOut (Some p)) = [p]"
| "made_by _ = []"

text \<open>An instance with its history: everything it put on the wire, made, and handed over.\<close>

record 'd endpoint =
  inst :: "('d, 'd) seqex"
  wire_out :: "'d packet list"
  numbered :: "'d packet list"
  handed_out :: "(seq_no \<times> bool \<times> 'd) list"

definition new_endpoint :: "('d, 'd) seqex \<Rightarrow> 'd endpoint" where
  "new_endpoint s = \<lparr> inst = s, wire_out = [], numbered = [], handed_out = [] \<rparr>"

definition absorb :: "('d, 'd) call_output \<Rightarrow> ('d, 'd) seqex \<Rightarrow> 'd endpoint \<Rightarrow> 'd endpoint" where
  "absorb out s e = \<lparr> inst = s, wire_out = wire_out e @ emitted out,
     numbered = numbered e @ made_by out, handed_out = handed_out e @ out_data out \<rparr>"

lemma absorb_fields [simp]:
  "inst (absorb out s e) = s" "wire_out (absorb out s e) = wire_out e @ emitted out"
  "numbered (absorb out s e) = numbered e @ made_by out"
  "handed_out (absorb out s e) = handed_out e @ out_data out"
  by (simp_all add: absorb_def)

lemma absorb_quiet:
  assumes "made_by out = []" and "out_data out = []"
  shows "absorb out s e = e\<lparr>inst := s, wire_out := wire_out e @ emitted out\<rparr>"
    and "emitted out = [] \<Longrightarrow> absorb out s e = e\<lparr>inst := s\<rparr>"
    and "emitted out = [] \<Longrightarrow> absorb out (inst e) e = e"
  by (rule endpoint.equality; simp add: assms)+

definition endpoint_step :: "build \<Rightarrow> ('d, 'd) call \<Rightarrow> 'd endpoint \<Rightarrow> 'd endpoint option" where
  "endpoint_step b c e = do {
     (out, s) \<leftarrow> exec b c (inst e);
     Some (absorb out s e)
   }"

fun from_wire :: "('d, 'd) call \<Rightarrow> 'd packet set \<Rightarrow> bool" where
  "from_wire (Receive p) ps = (p \<in> ps)"
| "from_wire _ ps = True"

text \<open>
  The two ends are \<open>False\<close> and \<open>True\<close>. With \<open>once\<close>, the network does not repeat a packet that was
  processed out of order while its entry is in the window.
\<close>

type_synonym 'd net = "bool \<Rightarrow> 'd endpoint"

inductive net_step :: "build \<Rightarrow> bool \<Rightarrow> 'd net \<Rightarrow> 'd net \<Rightarrow> bool" for b once where
  call: "endpoint_step b c (w i) = Some e \<Longrightarrow> from_wire c (set (wire_out (w (\<not> i)))) \<Longrightarrow>
    (once \<Longrightarrow> fresh_call c (inst (w i))) \<Longrightarrow> net_step b once w (w(i := e))"

inductive net_reach :: "build \<Rightarrow> bool \<Rightarrow> 'd net \<Rightarrow> 'd net \<Rightarrow> bool" for b once where
  here: "net_reach b once w w"
| there: "net_reach b once w v \<Longrightarrow> net_step b once v u \<Longrightarrow> net_reach b once w u"

section \<open>Endpoints as parties\<close>

definition made_at :: "seq_no \<Rightarrow> 'd packet list \<Rightarrow> seq_no \<Rightarrow> 'd packet option" where
  "made_at n ps m = (if pos n m < length ps then Some (ps ! pos n m) else None)"

definition handed_set :: "seq_no \<Rightarrow> ('d, 'd) seqex \<Rightarrow> seq_no set" where
  "handed_set n s = {m. pos n m < pos n (next_recv_seq_no s) \<or> received s m = Some (Unlocked m)}"

definition party_of :: "seq_no \<Rightarrow> 'd endpoint \<Rightarrow> 'd party" where
  "party_of n e = \<lparr> made = made_at n (numbered e), unanswered = dom (sent (inst e)),
     owed = reserved (inst e), handed = handed_set n (inst e), wired = set (wire_out e),
     taken = handed_out e \<rparr>"

lemma party_of_fields [simp]:
  "made (party_of n e) = made_at n (numbered e)" "unanswered (party_of n e) = dom (sent (inst e))"
  "owed (party_of n e) = reserved (inst e)" "handed (party_of n e) = handed_set n (inst e)"
  "wired (party_of n e) = set (wire_out e)" "taken (party_of n e) = handed_out e"
  by (simp_all add: party_of_def)

text \<open>What links an endpoint to its own history, and its receive window to the other's.\<close>

definition own_link :: "seq_no \<Rightarrow> 'd endpoint \<Rightarrow> bool" where
  "own_link n e \<longleftrightarrow> seq_inv (inst e) \<and> length (numbered e) \<le> 2 ^ 31
     \<and> next_send_seq_no (inst e) = n + of_nat (length (numbered e))
     \<and> (\<forall>m x. sent (inst e) m = Some x \<longrightarrow> made_at n (numbered e) m = Some (to_packet x))"

definition same_packet :: "'d packet \<Rightarrow> seq_no option \<Rightarrow> bool \<Rightarrow> 'd \<Rightarrow> bool" where
  "same_packet p ro c d \<longleftrightarrow> reply_part p = ro \<and> is_seq_cst p = c \<and> payload p = Some d"

definition recv_link :: "seq_no \<Rightarrow> 'd endpoint \<Rightarrow> 'd endpoint \<Rightarrow> bool" where
  "recv_link n e f \<longleftrightarrow>
     (\<forall>m m' ro c d. received (inst e) m = Some (Occupied m' ro c d) \<longrightarrow>
        (\<exists>p. made_at n (numbered f) m = Some p \<and> same_packet p ro c d))
     \<and> (\<forall>m m'. received (inst e) m = Some (Unlocked m') \<longrightarrow>
        (\<exists>p. made_at n (numbered f) m = Some p \<and> \<not> is_seq_cst p))"

lemma made_at_append:
  "made_at n ps m = Some p \<Longrightarrow> made_at n (ps @ qs) m = Some p"
  by (auto simp: made_at_def nth_append split: if_splits)

lemma made_at_snoc:
  assumes "length ps < 2 ^ 32"
  shows "made_at n (ps @ [p]) = (made_at n ps)(n + of_nat (length ps) \<mapsto> p)"
proof
  fix m
  show "made_at n (ps @ [p]) m = ((made_at n ps)(n + of_nat (length ps) \<mapsto> p)) m"
  proof (cases "pos n m = length ps")
    case True
    then have "m = n + of_nat (length ps)"
      using pos_inj [of n m "n + of_nat (length ps)"] assms by simp
    with True show ?thesis using assms by (simp add: made_at_def)
  next
    case False
    then have "m \<noteq> n + of_nat (length ps)" using assms by auto
    with False show ?thesis by (auto simp: made_at_def nth_append)
  qed
qed

lemma pos_offset:
  assumes "pos n k \<le> pos n m"
  shows "unat (m - k) = pos n m - pos n k"
proof -
  have "unat ((m - n) - (k - n)) = unat (m - n) - unat (k - n)"
    using assms by (intro unat_sub) (simp add: pos_def word_le_nat_alt)
  then show ?thesis by (simp add: pos_def)
qed

lemma pos_plus:
  assumes "pos n k + unat (m - k) < 2 ^ 32"
  shows "pos n m = pos n k + unat (m - k)"
proof -
  have "unat (m - n) = (unat (k - n) + unat (m - k)) mod 2 ^ 32"
    using unat_word_ariths(1) [of "k - n" "m - k"] by simp
  then show ?thesis using assms by (simp add: pos_def)
qed

lemma pos_add_of_nat:
  assumes "pos n k + j < 2 ^ 32"
  shows "pos n (k + of_nat j) = pos n k + j"
  using pos_plus [of n k "k + of_nat j"] assms by (simp add: unat_u32_of_nat)

section \<open>The receive window and the sender's history\<close>

text \<open>What is below the next expected packet has been made.\<close>

lemma recv_bound:
  assumes "handed_set n s \<subseteq> dom (made_at n ps)" and "length ps \<le> 2 ^ 31"
  shows "pos n (next_recv_seq_no s) \<le> length ps"
proof (rule ccontr)
  assume "\<not> ?thesis"
  with assms(2) have "n + of_nat (length ps) \<in> handed_set n s" by (simp add: handed_set_def)
  with assms have "n + of_nat (length ps) \<in> dom (made_at n ps)" by blast
  with assms(2) show False by (auto simp: made_at_def split: if_splits)
qed

lemma window_pos:
  assumes "shape s" and "pos n (next_recv_seq_no s) \<le> 2 ^ 31" and "in_window s m"
  shows "pos n m = pos n (next_recv_seq_no s) + unat (m - next_recv_seq_no s)"
  using assms shape_bounds(2) [OF assms(1)] by (intro pos_plus) (simp add: in_window_def)

lemma window_handed:
  assumes "shape s" and "pos n (next_recv_seq_no s) \<le> 2 ^ 31" and "in_window s m"
  shows "m \<in> handed_set n s \<longleftrightarrow> received s m = Some (Unlocked m)"
  using window_pos [OF assms] by (simp add: handed_set_def)

lemma unlocked_same:
  assumes "core_inv s" and "received s m = Some (Unlocked m')"
  shows "m' = m" and "in_window s m"
  using received_in_window [OF core_parts(1,2) [OF assms(1)] assms(2)] by simp_all

lemma head_not_unlocked:
  assumes "core_inv s"
  shows "received s (next_recv_seq_no s) \<noteq> Some (Unlocked m)"
  using core_parts(3) [OF assms]
  by (auto simp: head_ok_def recv_head_def received_def Let_def split: if_splits)

text \<open>
  Flow control: the sender keeps every packet from the next expected one on, so it is at most its
  own capacity ahead.
\<close>

lemma flow:
  assumes own: "own_link n f" and kept: "kept (party_of n f) (party_of n e)" and core: "core_inv (inst e)"
  shows "length (numbered f) \<le> pos n (next_recv_seq_no (inst e)) + cap_of (inst f)"
proof (cases "pos n (next_recv_seq_no (inst e)) < length (numbered f)")
  case True
  let ?m = "next_recv_seq_no (inst e)" and ?L = "length (numbered f)" and ?s = "inst f"
  from True obtain p where "made (party_of n f) ?m = Some p" by (simp add: made_at_def)
  moreover have "?m \<notin> handed (party_of n e)"
    using head_not_unlocked [OF core] by (simp add: handed_set_def)
  ultimately obtain x where x: "sent ?s ?m = Some x" using keptD(3) [OF kept] by fastforce
  from own have inv: "seq_inv ?s" and L: "?L \<le> 2 ^ 31"
    and next_no: "next_send_seq_no ?s = n + of_nat ?L" by (simp_all add: own_link_def)
  have "unat (next_send_seq_no ?s - 1 - ?m) < cap_of ?s"
    using send_okD(2) [OF wf_parts(2) [OF inv]] sent_SomeD [OF x]
      shape_bounds(4) [OF wf_parts(1) [OF inv]] by metis
  moreover have "next_send_seq_no ?s - 1 = n + of_nat (?L - 1)"
    using True next_no by (simp add: of_nat_diff)
  moreover have "pos n (n + of_nat (?L - 1)) = ?L - 1" using L by simp
  ultimately have "?L - 1 - pos n ?m < cap_of ?s"
    using pos_offset [of n ?m "n + of_nat (?L - 1)"] True by simp
  then show ?thesis using True by linarith
qed simp

lemma below_handed:
  assumes "own_link n f" and "kept (party_of n f) (party_of n e)" and "core_inv (inst e)"
    and "made_at n (numbered f) m = Some p" and "below_window (inst e) m"
  shows "m \<in> handed_set n (inst e)"
proof (rule ccontr)
  assume "m \<notin> handed_set n (inst e)"
  then have le: "pos n (next_recv_seq_no (inst e)) \<le> pos n m" by (simp add: handed_set_def)
  from assms(4) have "pos n m < length (numbered f)" by (simp add: made_at_def split: if_splits)
  moreover have "cap_of (inst f) \<le> 2 ^ 31"
    using assms(1) shape_bounds(2) [of "inst f"] by (simp add: own_link_def seq_inv_def)
  ultimately show False
    using assms(5) flow [OF assms(1-3)] pos_offset [OF le] by (simp add: below_window_def)
qed

text \<open>Moving past the next expected packet hands over exactly that one more.\<close>

lemma handed_passed:
  assumes "passed k s s2" and "core_inv s" and "handed_set n s \<subseteq> dom (made_at n ps)"
    and "length ps \<le> 2 ^ 31" and "made_at n ps (next_recv_seq_no s) = Some p"
  shows "handed_set n s2 = insert (next_recv_seq_no s) (handed_set n s)"
proof -
  let ?m = "next_recv_seq_no s"
  define N where "N = pos n ?m"
  have N: "N < length ps" using assms(5) by (simp add: made_at_def N_def split: if_splits)
  note shape = core_parts(1) [OF assms(2)]
  from assms(1) have skipped: "\<And>j. j < k \<Longrightarrow> received s (?m + 1 + of_nat j) = Some (Unlocked (?m + 1 + of_nat j))"
    and recv2: "\<And>m. received s2 m = (if unat (m - ?m) < Suc k then None else received s m)"
    and k: "k \<le> 2 ^ 31"
    using shape_bounds(2) [OF shape] by (simp_all add: passed_def)
  have step: "pos n (?m + 1 + of_nat j) = N + Suc j" if "j \<le> k" "N + Suc j < 2 ^ 32" for j
    using pos_add_of_nat [of n ?m "Suc j"] that by (simp add: N_def add.assoc)
  have "N + Suc k \<le> length ps"
  proof (cases k)
    case (Suc j)
    with skipped [of j] assms(3) have "?m + 1 + of_nat j \<in> dom (made_at n ps)"
      by (auto simp: handed_set_def)
    then have "N + Suc j < length ps"
      using step [of j] Suc N k assms(4) by (auto simp: made_at_def split: if_splits)
    with Suc show ?thesis by simp
  qed (use N in simp)
  with assms(4) have next2: "pos n (next_recv_seq_no s2) = N + Suc k"
    using step [of k] passed_fields(4) [OF assms(1)] by simp
  show ?thesis
  proof (intro set_eqI iffI)
    fix m assume m: "m \<in> handed_set n s2"
    show "m \<in> insert ?m (handed_set n s)"
    proof (cases "received s2 m = Some (Unlocked m)")
      case True
      then show ?thesis using recv2 [of m] by (auto simp: handed_set_def split: if_splits)
    next
      case False
      with m next2 have lt: "pos n m < N + Suc k" by (simp add: handed_set_def)
      show ?thesis
      proof (cases "pos n m \<le> N")
        case True
        with pos_inj [of n m ?m] show ?thesis by (cases "pos n m = N") (auto simp: handed_set_def N_def)
      next
        case False
        define j where "j = pos n m - N - 1"
        with False lt have j: "j < k" "pos n m = N + Suc j" by auto
        with step [of j] lt \<open>N + Suc k \<le> length ps\<close> assms(4) have "m = ?m + 1 + of_nat j"
          by (intro pos_inj [of n]) simp
        with skipped [OF j(1)] show ?thesis by (simp add: handed_set_def)
      qed
    qed
  next
    fix m assume m: "m \<in> insert ?m (handed_set n s)"
    show "m \<in> handed_set n s2"
    proof (cases "pos n m < N + Suc k")
      case True
      then show ?thesis using next2 by (simp add: handed_set_def)
    next
      case False
      then have le: "pos n ?m \<le> pos n m" and "m \<noteq> ?m" by (auto simp: N_def)
      with m have "received s m = Some (Unlocked m)" by (simp add: handed_set_def)
      moreover have "\<not> unat (m - ?m) < Suc k" using pos_offset [OF le] False by (simp add: N_def)
      ultimately show ?thesis using recv2 [of m] by (simp add: handed_set_def)
    qed
  qed
qed

section \<open>Simulation\<close>

definition linked :: "seq_no \<Rightarrow> 'd endpoint \<Rightarrow> 'd endpoint \<Rightarrow> bool" where
  "linked n e f \<longleftrightarrow> own_link n e \<and> recv_link n e f \<and> agree n (party_of n e) (party_of n f)"

lemma linkedD:
  assumes "linked n e f"
  shows "own_link n e" and "recv_link n e f" and "agree n (party_of n e) (party_of n f)"
    and "seq_inv (inst e)" and "length (numbered e) \<le> 2 ^ 31"
    and "kept (party_of n e) (party_of n f)" and "answers_once (party_of n e) (party_of n f)"
    and "own_ok (party_of n e)"
  using assms by (simp_all add: linked_def own_link_def agree_def)

lemma handed_set_cong:
  "recv_window t = recv_window s \<Longrightarrow> next_recv_seq_no t = next_recv_seq_no s \<Longrightarrow>
   handed_set n t = handed_set n s"
  using received_cong [of t s] by (simp add: handed_set_def)

text \<open>A packet not handed over yet replies, if at all, to a packet that is still unacknowledged.\<close>

lemma honest_reply:
  assumes "linked n e f" and "made_at n (numbered f) m = Some p" and "m \<notin> handed_set n (inst e)"
  shows "reply_ok (inst e) (reply_part p)"
proof (cases "reply_part p")
  case (Some r)
  from answersD(6) [OF linkedD(7) [OF assms(1)], of m p r] Some assms(2,3)
  obtain x where "sent (inst e) r = Some x" by auto
  with Some show ?thesis using sent_SomeD by (fastforce simp: reply_ok_def)
qed (simp add: reply_ok_def)

lemma hand_over:
  assumes e: "linked n e f" and p: "made_at n (numbered f) m = Some p" "same_packet p ro c d"
    and new: "m \<notin> handed_set n (inst e)" and first: "c \<Longrightarrow> m = next_recv_seq_no (inst e)"
    and s1: "core_inv s1" "room s1 ro" "sent s1 = sent (inst e)" "reserved s1 = reserved (inst e)"
      "next_send_seq_no s1 = next_send_seq_no (inst e)"
    and handed: "handed_set n s1 = insert m (handed_set n (inst e))"
    and e': "e' = e\<lparr>inst := issue m c ro s1, handed_out := handed_out e @ [(m, c, d)]\<rparr>"
    and inv: "seq_inv (issue m c ro s1)"
  shows "party_step n (party_of n e) (party_of n f) (party_of n e') \<and> own_link n e'"
proof -
  note shape = core_parts(1) [OF s1(1)]
  have sent: "sent (inst e') = (case ro of None \<Rightarrow> sent (inst e) | Some r \<Rightarrow> (sent (inst e))(r := None))"
    using issue_sent [OF shape] s1(3) e' by (simp split: option.split)
  have "reserved (inst e') = add_mset m (reserved (inst e))"
    using issue_reserved [OF shape] core_parts(4) [OF s1(1)] s1(4) e' by simp
  moreover have "handed_set n (inst e') = insert m (handed_set n (inst e))"
    using handed e' handed_set_cong [of "issue m c ro s1" s1] by simp
  moreover have "dom (sent (inst e')) = dom (sent (inst e)) - set_option (reply_part p)"
    using sent p(2) by (auto simp: same_packet_def split: option.splits if_splits)
  ultimately have "party_of n e' = (party_of n e)\<lparr>unanswered := unanswered (party_of n e) - set_option (reply_part p),
      owed := add_mset m (owed (party_of n e)), handed := insert m (handed (party_of n e)),
      taken := taken (party_of n e) @ [(m, is_seq_cst p, the (payload p))]\<rparr>"
    using e' p(2) by (simp add: party_of_def same_packet_def)
  moreover have "is_seq_cst p \<longrightarrow> all_below n m (handed (party_of n e))"
    using first p(2) by (auto simp: same_packet_def all_below_def handed_set_def)
  ultimately have "party_step n (party_of n e) (party_of n f) (party_of n e')"
    using party_step.take [of "party_of n f" m p "party_of n e" n] p(1) new by simp
  moreover have "own_link n e'"
    using linkedD(1) [OF e] inv sent s1(5) e' by (auto simp: own_link_def split: option.splits if_splits)
  ultimately show ?thesis by blast
qed

lemma recv_link_passed:
  assumes "recv_link n e f" and "passed k (inst e) s2" and "received (inst e') = received s2"
  shows "recv_link n e' f"
proof -
  have "received (inst e') m = Some x \<Longrightarrow> received (inst e) m = Some x" for m x
    using assms(2,3) by (auto simp: passed_def split: if_splits)
  with assms(1) show ?thesis unfolding recv_link_def by metis
qed

text \<open>The next expected packet is handed over, from the network or from the window.\<close>

lemma hand_next:
  assumes e: "linked n e f" and f: "linked n f e"
    and p: "made_at n (numbered f) (next_recv_seq_no (inst e)) = Some p" "same_packet p ro c d"
    and pass: "passed k (inst e) s2" and room: "room (inst e) ro"
    and e': "e' = e\<lparr>inst := issue (next_recv_seq_no (inst e)) c ro s2,
      handed_out := handed_out e @ [(next_recv_seq_no (inst e), c, d)]\<rparr>"
    and inv: "seq_inv (issue (next_recv_seq_no (inst e)) c ro s2)"
  shows "party_step n (party_of n e) (party_of n f) (party_of n e') \<and> own_link n e' \<and> recv_link n e' f"
proof -
  let ?m = "next_recv_seq_no (inst e)"
  have core: "core_inv (inst e)" using linkedD(4) [OF e] by simp
  note fields = passed_fields [OF pass]
  have made: "handed_set n (inst e) \<subseteq> dom (made_at n (numbered f))"
    using linkedD(6) [OF f] by (simp add: kept_def)
  have new: "?m \<notin> handed_set n (inst e)"
    using head_not_unlocked [OF core] by (simp add: handed_set_def)
  have "party_step n (party_of n e) (party_of n f) (party_of n e') \<and> own_link n e'"
  proof (rule hand_over [OF e p new refl _ _ _ _ _ _ e' inv])
    show "core_inv s2" using passed_core [OF core pass] .
    show "handed_set n s2 = insert ?m (handed_set n (inst e))"
      by (rule handed_passed [OF pass core made linkedD(5) [OF f] p(1)])
    show "room s2 ro" using room fields by (simp add: send_side_cong [of s2 "inst e"])
  qed (use fields in \<open>simp_all add: sent_cong [of s2 "inst e"] reserved_cong [of s2 "inst e"]\<close>)
  moreover have "recv_link n e' f"
    using recv_link_passed [OF linkedD(2) [OF e] pass] e' received_cong [of "inst e'" s2] by simp
  ultimately show ?thesis by blast
qed

text \<open>A call that changes nothing the parties know of, and repeats at most what was made.\<close>

abbreviation simulated :: "seq_no \<Rightarrow> 'd endpoint \<Rightarrow> 'd endpoint \<Rightarrow> 'd endpoint \<Rightarrow> bool" where
  "simulated n e f e' \<equiv>
     party_step n (party_of n e) (party_of n f) (party_of n e') \<and> own_link n e' \<and> recv_link n e' f"

lemma quiet_call:
  assumes e: "linked n e f" and inv: "seq_inv s'"
    and same: "reserved s' = reserved (inst e)" "next_send_seq_no s' = next_send_seq_no (inst e)"
      "handed_set n s' = handed_set n (inst e)"
    and sent: "\<And>m. map_option to_packet (sent s' m) = map_option to_packet (sent (inst e) m)"
    and recv: "recv_link n (e\<lparr>inst := s', wire_out := wire_out e @ ps\<rparr>) f"
    and ps: "set ps \<subseteq> ran (made_at n (numbered e))"
  shows "simulated n e f (e\<lparr>inst := s', wire_out := wire_out e @ ps\<rparr>)"
proof -
  have "dom (sent s') = dom (sent (inst e))"
    using sent by (metis (mono_tags, lifting) domIff option.map_disc_iff subsetI subset_antisym)
  then have "party_of n (e\<lparr>inst := s', wire_out := wire_out e @ ps\<rparr>)
      = (party_of n e)\<lparr>wired := wired (party_of n e) \<union> set ps\<rparr>"
    using same by (simp add: party_of_def)
  then have "party_step n (party_of n e) (party_of n f) (party_of n (e\<lparr>inst := s', wire_out := wire_out e @ ps\<rparr>))"
    using party_step.resend [of "set ps" "party_of n e" n "party_of n f"] ps by simp
  moreover have kept: "made_at n (numbered e) m = Some (to_packet x)" if "sent s' m = Some x" for m x
  proof -
    from sent [of m] that obtain y where "sent (inst e) m = Some y" and "to_packet y = to_packet x"
      by (cases "sent (inst e) m") auto
    with linkedD(1) [OF e] show ?thesis by (auto simp: own_link_def)
  qed
  moreover have "own_link n (e\<lparr>inst := s', wire_out := wire_out e @ ps\<rparr>)"
    unfolding own_link_def using linkedD(1) [OF e] inv same kept by (simp add: own_link_def)
  ultimately show ?thesis using recv by blast
qed

lemma recv_link_same:
  "recv_link n e f \<Longrightarrow> received (inst e') = received (inst e) \<Longrightarrow> recv_link n e' f"
  by (simp add: recv_link_def)

lemma idle_call:
  assumes "linked n e f"
  shows "simulated n e f e"
  using quiet_call [OF assms linkedD(4) [OF assms], of "[]"] linkedD(2) [OF assms] by simp

lemma store_call:
  assumes e: "linked n e f" and f: "linked n f e" and free: "received (inst e) m = None"
    and win: "in_window (inst e) m" and p: "made_at n (numbered f) m = Some p" "same_packet p ro c d"
    and e': "e' = e\<lparr>inst := put_recv (Occupied m ro c d) (inst e)\<rparr>"
  shows "simulated n e f e'"
proof -
  let ?s = "put_recv (Occupied m ro c d) (inst e)"
  have core: "core_inv (inst e)" using linkedD(4) [OF e] by simp
  have recv: "received ?s = (received (inst e))(m \<mapsto> Occupied m ro c d)"
    using put_recv_received [OF core_parts(1,2) [OF core], of "Occupied m ro c d"] win by simp
  have "handed_set n ?s = handed_set n (inst e)"
    using recv free by (auto simp: handed_set_def)
  moreover have "recv_link n (e\<lparr>inst := ?s\<rparr>) f"
    using linkedD(2) [OF e] recv p by (auto simp: recv_link_def)
  moreover have "seq_inv ?s" using linkedD(4) [OF e] win by (intro put_recv_wf) simp_all
  ultimately show ?thesis
    using quiet_call [OF e, of ?s "[]"] e' sent_cong [of ?s "inst e"] reserved_cong [of ?s "inst e"]
    by simp
qed

lemma ahead_call:
  assumes e: "linked n e f" and f: "linked n f e"
    and p: "made_at n (numbered f) m = Some p" "same_packet p ro False d"
    and win: "in_window (inst e) m" and room: "room (inst e) ro"
    and new: "received (inst e) m \<noteq> Some (Unlocked m)" and later: "m \<noteq> next_recv_seq_no (inst e)"
    and e': "e' = e\<lparr>inst := issue m False ro (put_recv (Unlocked m) (inst e)),
      handed_out := handed_out e @ [(m, False, d)]\<rparr>"
    and inv: "seq_inv (issue m False ro (put_recv (Unlocked m) (inst e)))"
  shows "simulated n e f e'"
proof -
  let ?s = "put_recv (Unlocked m) (inst e)"
  have core: "core_inv (inst e)" using linkedD(4) [OF e] by simp
  have recv: "received ?s = (received (inst e))(m \<mapsto> Unlocked m)"
    using put_recv_received [OF core_parts(1,2) [OF core], of "Unlocked m"] win by simp
  have "pos n (next_recv_seq_no (inst e)) \<le> 2 ^ 31"
    using recv_bound [of n "inst e" "numbered f"] linkedD(5,6) [OF f] by (force simp: kept_def)
  then have "m \<notin> handed_set n (inst e)"
    using window_handed [OF core_parts(1) [OF core] _ win] new by simp
  then have "party_step n (party_of n e) (party_of n f) (party_of n e') \<and> own_link n e'"
  proof (rule hand_over [OF e p _ _ _ _ _ _ _ _ e' inv])
    show "core_inv ?s" using core win later by (intro put_recv_core) simp_all
    show "room ?s ro" using room by (simp add: send_side_cong [of ?s "inst e"])
    show "handed_set n ?s = insert m (handed_set n (inst e))" using recv by (auto simp: handed_set_def)
  qed (simp_all add: sent_cong [of ?s "inst e"] reserved_cong [of ?s "inst e"])
  moreover have "recv_link n e' f"
    using linkedD(2) [OF e] recv p e' received_cong [of "inst e'" ?s]
    by (auto simp: recv_link_def same_packet_def)
  ultimately show ?thesis by blast
qed

section \<open>Receiving and pumping\<close>

lemma to_packet_parts [simp]:
  "seq_part (to_packet x) = Some (entry_seq_no x)" "reply_part (to_packet x) = entry_reply_no x"
  "is_seq_cst (to_packet x) = entry_seq_cst x" "payload (to_packet x) = Some (entry_data x)"
  by (cases "entry_reply_no x"; cases "entry_seq_cst x"; simp add: to_packet_def payload_def)+

lemma entries_set: "i < length w \<Longrightarrow> w ! i = Some x \<Longrightarrow> x \<in> set (entries w)"
  by (force simp: entries_def in_set_conv_nth intro!: bexI [of _ i])

lemma wire_made:
  assumes "linked n f e" and "p \<in> set (wire_out f)" and "seq_part p = Some m"
  shows "made_at n (numbered f) m = Some p" and "same_packet p (reply_part p) (is_seq_cst p) (the (payload p))"
proof -
  show "made_at n (numbered f) m = Some p"
    using ownD(2) [OF linkedD(8) [OF assms(1)], of p m] assms(2,3) by simp
  show "same_packet p (reply_part p) (is_seq_cst p) (the (payload p))"
    using assms(3) by (cases p) (simp_all add: same_packet_def payload_def)
qed

lemma head_made:
  assumes e: "linked n e f" and "recv_head (inst e) = Occupied m ro c d"
  obtains p where "m = next_recv_seq_no (inst e)" and "made_at n (numbered f) m = Some p"
    and "same_packet p ro c d" and "m \<notin> handed_set n (inst e)"
proof -
  have core: "core_inv (inst e)" using linkedD(4) [OF e] by simp
  have m: "m = next_recv_seq_no (inst e)" by (rule pump_head(1) [OF core assms(2)])
  then have "received (inst e) m = Some (Occupied m ro c d)"
    using assms(2) by (simp add: received_def recv_head_def)
  then obtain p where "made_at n (numbered f) m = Some p" and "same_packet p ro c d"
    using linkedD(2) [OF e] unfolding recv_link_def by blast
  moreover have "m \<notin> handed_set n (inst e)"
    using head_not_unlocked [OF core] m by (simp add: handed_set_def)
  ultimately show thesis using that m by blast
qed

text \<open>Between two such peers every receive and every pump is permitted.\<close>

lemma honest_permits:
  assumes e: "linked n e f" and f: "linked n f e"
  shows "p \<in> set (wire_out f) \<Longrightarrow> fresh_call (Receive p) (inst e) \<Longrightarrow> permits b (Receive p) (inst e)"
    and "permits b Pump (inst e)"
proof -
  have core: "core_inv (inst e)" using linkedD(4) [OF e] by simp
  show "permits b Pump (inst e)"
  proof (cases "recv_head (inst e)")
    case (Occupied m ro c d)
    obtain p where "made_at n (numbered f) m = Some p" and "same_packet p ro c d"
      and "m \<notin> handed_set n (inst e)"
      by (rule head_made [OF e Occupied])
    with honest_reply [OF e] Occupied show ?thesis by (auto simp: same_packet_def)
  qed simp_all
  assume p: "p \<in> set (wire_out f)" and fresh: "fresh_call (Receive p) (inst e)"
  show "permits b (Receive p) (inst e)"
  proof (cases "seq_part p")
    case (Some m)
    have "reply_ok (inst e) (reply_part p)" if win: "in_window (inst e) m"
    proof (rule honest_reply [OF e wire_made(1) [OF f p Some]])
      have "pos n (next_recv_seq_no (inst e)) \<le> 2 ^ 31"
        using recv_bound [of n "inst e" "numbered f"] linkedD(5,6) [OF f] by (force simp: kept_def)
      from window_handed [OF core_parts(1) [OF core] this win] show "m \<notin> handed_set n (inst e)"
        using fresh Some by auto
    qed
    with Some show ?thesis by simp
  qed simp
qed

lemma receive_call:
  assumes e: "linked n e f" and f: "linked n f e" and p: "p \<in> set (wire_out f)"
    and fresh: "fresh_call (Receive p) (inst e)"
    and run: "exec Release (Receive p) (inst e) = Some (out, s')"
  shows "simulated n e f (absorb out s' e)"
    (is "simulated n e f ?e'")
proof -
  have core: "core_inv (inst e)" using linkedD(4) [OF e] by simp
  note shape = core_parts(1) [OF core]
  have inv: "seq_inv s'"
    using exec_keeps [of "inst e" Release "Receive p"] honest_permits(1) [OF e f p fresh, of Release]
      linkedD(4) [OF e] core run by (metis option.inject prod.inject)
  show ?thesis
  proof (cases "seq_part p")
    case None
    then obtain r where r: "p = Ack r" by (cases p) simp_all
    with run have s': "s' = drop_sent r (inst e)" and out: "emitted out = []" "made_by out = []" "out_data out = []"
      by (auto simp: receive_ack_eq [OF shape] split: option.splits)
    have sent: "sent s' = (sent (inst e))(r := None)" using drop_sent_sent [OF shape] s' by simp
    have recv: "received s' = received (inst e)" "next_recv_seq_no s' = next_recv_seq_no (inst e)"
      "reserved s' = reserved (inst e)" using s' by (simp_all add: drop_sent_views)
    then have "party_of n ?e' = (party_of n e)\<lparr>unanswered := unanswered (party_of n e) - {r}\<rparr>"
      using sent out by (auto simp: party_of_def handed_set_def)
    then have "party_step n (party_of n e) (party_of n f) (party_of n ?e')"
      using party_step.answered [of r "party_of n f" n "party_of n e"] p r by simp
    moreover have "own_link n ?e'"
      using linkedD(1) [OF e] inv sent out s' by (auto simp: own_link_def)
    ultimately show ?thesis using linkedD(2) [OF e] recv by (simp add: recv_link_same)
  next
    case (Some m)
    note made = wire_made [OF f p Some]
    from run Some obtain q where q: "receive_data Release (\<lambda>d. d) (is_seq_cst p) m (reply_part p)
        (the (payload p)) (inst e) = Some (q, s')" and out: "out = ReceiveOut q"
      by (auto simp: receive_eq bind_eq_Some_conv split: prod.splits)
    have resends: "resends q = (if below_window (inst e) m \<and> \<not> reply_pending (inst e) m then [m] else [])"
      by (rule receive_resends [OF core, of Release "\<lambda>d. d" "is_seq_cst p" m "reply_part p" "the (payload p)"])
        (use q in simp)
    show ?thesis
    proof (cases "below_window (inst e) m")
      case True
      note below = receive_below [OF core True, where b = Release and into = "\<lambda>d. d" and c = "is_seq_cst p"
        and ro = "reply_part p" and d = "the (payload p)"]
      from q below have s': "s' = inst e" and none: "out_data out = []" using out by auto
      show ?thesis
      proof (cases "reply_pending (inst e) m")
        case True
        with resends s' none out have "?e' = e" by (simp add: absorb_quiet(3))
        with idle_call [OF e] show ?thesis by (simp add: absorb_quiet(3))
      next
        case False
        then have settled: "m \<notin># reserved (inst e)"
          "\<And>x. x \<in> set (entries (send_window (inst e))) \<Longrightarrow> entry_reply_no x \<noteq> Some m"
          by (auto simp: reply_pending_def)
        have "reply_part q \<noteq> Some m" if "j \<in> unanswered (party_of n e)" "made (party_of n e) j = Some q" for j q
        proof -
          from that(1) obtain x where x: "sent (inst e) j = Some x" by auto
          with that(2) linkedD(1) [OF e] have "q = to_packet x" by (simp add: own_link_def)
          moreover have "x \<in> set (entries (send_window (inst e)))"
            using sent_SomeD [OF x] shape_bounds(4) [OF shape, of j] by (metis entries_set)
          ultimately show ?thesis using settled(2) by simp
        qed
        then have "party_step n (party_of n e) (party_of n f)
            ((party_of n e)\<lparr>wired := insert (Ack m) (wired (party_of n e))\<rparr>)"
          using below_handed [OF linkedD(1,6) [OF f] core made(1) True] settled(1)
          by (intro party_step.ack_again) simp_all
        moreover have "party_of n ?e' = (party_of n e)\<lparr>wired := insert (Ack m) (wired (party_of n e))\<rparr>"
          using resends True False s' none out by (simp add: party_of_def)
        ultimately show ?thesis
          using linkedD(1,2) [OF e] s' none out by (simp add: own_link_def recv_link_same)
      qed
    next
      case False
      with resends have no_ack: "resends q = []" by simp
      from core show ?thesis
      proof (cases rule: receive_data_cases
          [of "inst e" Release "\<lambda>d. d" "is_seq_cst p" m "reply_part p" "the (payload p)"])
        case (drop x)
        with q have "q = Inl x" and "s' = inst e" by simp_all
        with no_ack out have "?e' = e" by (simp add: absorb_quiet(3))
        with idle_call [OF e] show ?thesis by (simp add: absorb_quiet(3))
      next
        case (store x)
        with q have "q = Inl x" and s': "s' = put_recv (Occupied m (reply_part p) (is_seq_cst p) (the (payload p))) (inst e)"
          by simp_all
        with no_ack out show ?thesis
          by (intro store_call [OF e f store(3,1) made] endpoint.equality) simp_all
      next
        case ahead
        with q no_ack out inv fresh Some show ?thesis
          using made by (intro ahead_call [OF e f made(1)] endpoint.equality) (auto simp: deliverable_def)
      next
        case (head k s2)
        with q no_ack out inv show ?thesis
          using made by (intro hand_next [OF e f _ _ head(3)] endpoint.equality) (auto simp: deliverable_def)
      qed
    qed
  qed
qed

lemma pump_call:
  assumes e: "linked n e f" and f: "linked n f e" and run: "exec Release Pump (inst e) = Some (out, s')"
  shows "simulated n e f (absorb out s' e)"
    (is "simulated n e f ?e'")
proof -
  have core: "core_inv (inst e)" using linkedD(4) [OF e] by simp
  have inv: "seq_inv s'"
    using exec_keeps [of "inst e" Release Pump] honest_permits(2) [OF e f, of Release]
      linkedD(4) [OF e] core run by (metis option.inject prod.inject)
  from run obtain q where q: "try_pump_raw Release (inst e) = Some (q, s')" and out: "out = PumpOut q"
    by (auto simp: bind_eq_Some_conv split: prod.splits)
  from core show ?thesis
  proof (cases rule: pump_cases [of "inst e" Release])
    case (wait x)
    with q have "q = Inl x" and "s' = inst e" by simp_all
    with out have "?e' = e" by (simp add: absorb_quiet(3))
    with idle_call [OF e] show ?thesis by (simp add: absorb_quiet(3))
  next
    case (head ro c d k s2)
    obtain p where "made_at n (numbered f) (next_recv_seq_no (inst e)) = Some p" and "same_packet p ro c d"
      using head_made [OF e head(1)] by blast
    with head q out inv show ?thesis
      by (intro hand_next [OF e f _ _ head(3)] endpoint.equality) (auto simp: deliverable_def)
  qed
qed

section \<open>Sending\<close>

text \<open>The slot of the next number is free, so the entry pushed is the only change.\<close>

lemma push_call:
  assumes e: "linked n e f" and bound: "length (numbered e) < 2 ^ 31"
    and base: "shape base" "send_window base = send_window (inst e)" "next_send_seq_no base = next_send_seq_no (inst e)"
      "handed_set n base = handed_set n (inst e)" "received base = received (inst e)"
    and free: "send_window (inst e) ! slot (cap_of (inst e)) (next_send_seq_no (inst e)) = None"
    and x: "entry_seq_no x = next_send_seq_no (inst e)"
    and inv: "seq_inv (push_entry x base)"
    and e': "e' = e\<lparr>inst := push_entry x base, wire_out := wire_out e @ [to_packet x],
      numbered := numbered e @ [to_packet x]\<rparr>"
    and who: "entry_reply_no x = None \<and> reserved base = reserved (inst e)
      \<or> (\<exists>r. entry_reply_no x = Some r \<and> r \<in># reserved (inst e) \<and> reserved base = reserved (inst e) - {#r#})"
  shows "simulated n e f e'"
proof -
  let ?m = "next_send_seq_no (inst e)" and ?p = "to_packet x"
  have own: "?m = n + of_nat (length (numbered e))" using linkedD(1) [OF e] by (simp add: own_link_def)
  have made: "made_at n (numbered e') = (made_at n (numbered e))(?m \<mapsto> ?p)"
    using made_at_snoc [of "numbered e" n ?p] bound own e' by simp
  have new: "made_at n (numbered e) ?m = None" using bound own by (simp add: made_at_def)
  have "sent (push_entry x base) = (sent base)(?m \<mapsto> x)"
    using push_entry_sent [OF base(1), of x] base free x by simp
  then have sent: "sent (inst e') = (sent (inst e))(?m \<mapsto> x)" using sent_cong [OF base(2)] e' by simp
  have views: "reserved (inst e') = reserved base" "received (inst e') = received (inst e)"
    "handed_set n (inst e') = handed_set n (inst e)"
    using e' base by (simp_all add: push_entry_views handed_set_def)
  have party: "party_of n e' = (party_of n e)\<lparr>made := (made (party_of n e))(?m \<mapsto> ?p),
      unanswered := insert ?m (unanswered (party_of n e)), owed := reserved base,
      wired := insert ?p (wired (party_of n e))\<rparr>"
    using made sent views e' by (simp add: party_of_def)
  from who have "party_step n (party_of n e) (party_of n f) (party_of n e')"
  proof (elim disjE exE conjE)
    assume "entry_reply_no x = None" and "reserved base = reserved (inst e)"
    then have "party_of n e' = (party_of n e)\<lparr>made := (made (party_of n e))(?m \<mapsto> ?p),
        unanswered := insert ?m (unanswered (party_of n e)), wired := insert ?p (wired (party_of n e))\<rparr>"
      using party by (simp add: party_of_def)
    with party_step.make [of "party_of n e" ?m ?p n "party_of n f"] new x \<open>entry_reply_no x = None\<close>
    show ?thesis by simp
  next
    fix r assume "entry_reply_no x = Some r" "r \<in># reserved (inst e)" "reserved base = reserved (inst e) - {#r#}"
    with party_step.reply [of "party_of n e" ?m ?p r n "party_of n f"] new x party show ?thesis by simp
  qed
  moreover have "own_link n e'"
    unfolding own_link_def
  proof (intro conjI allI impI)
    show "next_send_seq_no (inst e') = n + of_nat (length (numbered e'))"
      using own base(3) e' by (simp add: add.assoc)
    fix m y assume "sent (inst e') m = Some y"
    with sent made linkedD(1) [OF e] show "made_at n (numbered e') m = Some (to_packet y)"
      by (auto simp: own_link_def split: if_splits)
  qed (use inv bound e' in simp_all)
  moreover have "recv_link n e' f" using linkedD(2) [OF e] views by (simp add: recv_link_same)
  ultimately show ?thesis by blast
qed

lemma try_send_call:
  assumes e: "linked n e f" and run: "exec Release (TrySend t c d) (inst e) = Some (out, s')"
    and bound: "length (numbered e @ made_by out) \<le> 2 ^ 31"
  shows "simulated n e f (absorb out s' e)"
proof -
  have inv: "seq_inv (inst e)" using linkedD(4) [OF e] .
  have time: "time_ok Release t (inst e)" by (simp add: time_ok_def)
  note eq = try_send_direct_eq [OF wf_parts(1) [OF inv] time, of c d]
  let ?x = "new_entry t c None d (inst e)"
  show ?thesis
  proof (cases "room (inst e) None")
    case True
    with run eq have "out = TrySendOut (Inr (to_packet ?x))" and "s' = push_entry ?x (inst e)"
      by (auto simp: Let_def)
    with bound room_free [OF True, of 0] push_new_entry_wf [OF inv True, of t c d] wf_parts(1) [OF inv] show ?thesis
      by (intro push_call [OF e, where x = ?x] endpoint.equality) simp_all
  next
    case False
    with run eq have "out = TrySendOut (Inl (full_error (inst e) None, d))" and "s' = inst e"
      by auto
    with idle_call [OF e] show ?thesis by (simp add: absorb_quiet(3))
  qed
qed

lemma redeemed_same:
  assumes "redeemed r s s1"
  shows "send_window (set_lock u s1) = send_window s" "next_send_seq_no (set_lock u s1) = next_send_seq_no s"
    "handed_set n (set_lock u s1) = handed_set n s" "received (set_lock u s1) = received s"
    "sent (set_lock u s1) = sent s"
  using redeemed_fields [OF assms] handed_set_cong [of "set_lock u s1" s]
    received_cong [of "set_lock u s1" s] sent_cong [of "set_lock u s1" s]
  by simp_all

lemma reply_call:
  assumes e: "linked n e f" and run: "exec Release (ReplyRaw t r u c d) (inst e) = Some (out, s')"
    and bound: "length (numbered e @ made_by out) \<le> 2 ^ 31"
  shows "simulated n e f (absorb out s' e)"
proof -
  have inv: "seq_inv (inst e)" using linkedD(4) [OF e] .
  then have core: "core_inv (inst e)" by simp
  show ?thesis
  proof (cases "r \<in># reserved (inst e)")
    case True
    let ?x = "new_entry t c (Some r) d (inst e)"
    obtain s1 where red: "redeemed r (inst e) s1" and eq: "reply_raw_and_direct Release t r u c d (inst e)
        = Some (Some (to_packet ?x), push_entry ?x (set_lock u s1))"
      by (rule reply_known [OF core True, of Release u t c d]) (simp_all add: unlock_ok_def time_ok_def)
    from run eq have "out = ReplyOut (Some (to_packet ?x))" and s': "s' = push_entry ?x (set_lock u s1)"
      by simp_all
    moreover have "shape (set_lock u s1)"
      using core_parts(1) [OF set_lock_core [OF redeemed_core [OF core red]]] .
    ultimately show ?thesis
      using bound redeemed_same [OF red, where u = u] redeemed_reserved(1) [OF red, of u]
        reply_slot_free [OF inv True] reply_wf [OF inv red, of t c d u] True
      by (intro push_call [OF e, where x = ?x and base = "set_lock u s1"] endpoint.equality) simp_all
  next
    case False
    with run reply_unknown(1) [OF core] have "out = ReplyOut None" and "s' = inst e" by auto
    with idle_call [OF e] show ?thesis by (simp add: absorb_quiet(3))
  qed
qed

lemma ack_call:
  assumes e: "linked n e f" and run: "exec Release (AckRaw r u) (inst e) = Some (out, s')"
  shows "simulated n e f (absorb out s' e)"
    (is "simulated n e f ?e'")
proof -
  have inv: "seq_inv (inst e)" using linkedD(4) [OF e] .
  then have core: "core_inv (inst e)" by simp
  show ?thesis
  proof (cases "r \<in># reserved (inst e)")
    case True
    obtain s1 where red: "redeemed r (inst e) s1"
      and "ack_raw_and_direct Release r u (inst e) = Some (Some (Ack r), set_lock u s1)"
      by (rule ack_known [OF core True, of Release u]) (simp_all add: unlock_ok_def)
    with run have out: "out = AckOut (Some (Ack r))" and s': "s' = set_lock u s1" by simp_all
    note same = redeemed_same [OF red, where u = u] redeemed_reserved(1) [OF red, of u]
    have "party_of n ?e' = (party_of n e)\<lparr>owed := owed (party_of n e) - {#r#},
        wired := insert (Ack r) (wired (party_of n e))\<rparr>"
      using out s' same by (simp add: party_of_def)
    with party_step.ack [of r "party_of n e" n "party_of n f"] True
    have "party_step n (party_of n e) (party_of n f) (party_of n ?e')" by simp
    moreover have "own_link n ?e'"
      using linkedD(1) [OF e] same s' out ack_wf [OF inv red, of u] by (simp add: own_link_def)
    ultimately show ?thesis
      using linkedD(2) [OF e] same s' by (simp add: recv_link_same)
  next
    case False
    with run reply_unknown(2) [OF core] have "out = AckOut None" and "s' = inst e" by auto
    with idle_call [OF e] show ?thesis by (simp add: absorb_quiet(3))
  qed
qed

lemma due_made:
  assumes "own_link n e"
  shows "set (due_in_order t (inst e)) \<subseteq> ran (made_at n (numbered e))"
proof
  fix p assume "p \<in> set (due_in_order t (inst e))"
  then obtain m where "p \<in> set (due_packets t (sent (inst e) m))" by (auto simp: due_in_order_def)
  then obtain x where "sent (inst e) m = Some x" and "p = to_packet x"
    by (cases "sent (inst e) m") (auto split: if_splits)
  with assms show "p \<in> ran (made_at n (numbered e))" by (auto simp: own_link_def intro: ranI)
qed

lemma service_call:
  assumes e: "linked n e f" and run: "exec Release (ServiceAll t) (inst e) = Some (out, s')"
  shows "simulated n e f (absorb out s' e)"
proof -
  have inv: "seq_inv (inst e)" using linkedD(4) [OF e] .
  note shape = wf_parts(1) [OF inv]
  show ?thesis
  proof (cases "sint (next_service_timestamp (inst e)) \<le> sint t")
    case True
    with service_loop_eq [OF inv, of Release t] run
    have out: "out = ServiceOut (due_in_order t (inst e))" and s': "s' = serviced t (inst e)"
      by (simp_all add: time_ok_def)
    have recv: "received s' = received (inst e)" "handed_set n s' = handed_set n (inst e)"
      using s' serviced_views(2) [of t "inst e"] by (simp_all add: handed_set_def)
    have "map_option to_packet (sent s' m) = map_option to_packet (sent (inst e) m)" for m
      using serviced_sent [OF shape, of t m] s' by (cases "sent (inst e) m") (simp_all add: refresh_def)
    from quiet_call [OF e _ _ _ _ this _ due_made [OF linkedD(1) [OF e]], of t]
      serviced_wf [OF inv, of t] serviced_views(1) [of t "inst e"] recv s' linkedD(2) [OF e] out
    show ?thesis by (simp add: recv_link_same absorb_quiet(1))
  next
    case False
    with run service_loop_early [of t "inst e" Release] have "out = ServiceOut []" and "s' = inst e" by auto
    with idle_call [OF e] show ?thesis by (simp add: absorb_quiet(3))
  qed
qed

lemma unlock_call:
  assumes e: "linked n e f" and run: "exec Release UnlockRaw (inst e) = Some (out, s')"
  shows "simulated n e f (absorb out s' e)"
proof -
  from run have out: "out = UnlockOut" and s': "s' = unlock_raw (inst e)" by simp_all
  have inv: "seq_inv s'"
    using exec_keeps [of "inst e" Release UnlockRaw] linkedD(4) [OF e] run
    by (metis option.inject permits.simps(6) prod.inject seq_inv_core)
  have same: "send_window s' = send_window (inst e)" "recv_window s' = recv_window (inst e)"
    "next_send_seq_no s' = next_send_seq_no (inst e)" "next_recv_seq_no s' = next_recv_seq_no (inst e)"
    "reserved s' = reserved (inst e)"
    by (simp_all add: s' unlock_raw_def reserved_def)
  from quiet_call [OF e inv, of "[]"] same sent_cong [OF same(1)] handed_set_cong [OF same(2,4)]
    received_cong [OF same(2)] linkedD(2) [OF e] out
  show ?thesis by (simp add: recv_link_same absorb_quiet(2))
qed

text \<open>Every call of an endpoint is a step of its party.\<close>

lemma endpoint_simulates:
  assumes e: "linked n e f" and f: "linked n f e" and step: "endpoint_step b c e = Some e'"
    and wire: "from_wire c (set (wire_out f))" and fresh: "fresh_call c (inst e)"
    and bound: "length (numbered e') \<le> 2 ^ 31"
  shows "simulated n e f e'"
proof -
  from step obtain out s' where "exec b c (inst e) = Some (out, s')" and e': "e' = absorb out s' e"
    by (auto simp: endpoint_step_def bind_eq_Some_conv)
  then have run: "exec Release c (inst e) = Some (out, s')"
    using agreesD [OF exec_mono] by (cases b) auto
  show ?thesis
  proof (cases c)
    case (TrySend t q d)
    with run bound e' show ?thesis using try_send_call [OF e] by simp
  next
    case (Receive p)
    with run e' wire fresh show ?thesis using receive_call [OF e f] by simp
  next
    case Pump
    with run e' show ?thesis using pump_call [OF e f] by simp
  next
    case (ReplyRaw t r u q d)
    with run bound e' show ?thesis using reply_call [OF e] by simp
  next
    case (AckRaw r u)
    with run e' show ?thesis using ack_call [OF e] by simp
  next
    case UnlockRaw
    with run e' show ?thesis using unlock_call [OF e] by simp
  next
    case (ServiceAll t)
    with run e' show ?thesis using service_call [OF e] by simp
  qed
qed

end
