(* ===== verification/Peer_Delivery.thy ===== *)
theory Peer_Delivery
  imports Peers
begin

text \<open>
  What two peers can rely on, whatever they call and whatever the network does: exactly-once
  delivery, order, flow control, and that no packet is lost for good. The histories are bounded by
  half the range of sequence numbers, as older packets would be mistaken for new ones.
\<close>

section \<open>Reachable states\<close>

definition new_net :: "('d, 'd) seqex \<Rightarrow> ('d, 'd) seqex \<Rightarrow> 'd net" where
  "new_net s t = (\<lambda>i. new_endpoint (if i then t else s))"

text \<open>Fewer than half of all sequence numbers have been used.\<close>

definition young :: "'d net \<Rightarrow> bool" where
  "young w \<longleftrightarrow> (\<forall>i. length (numbered (w i)) \<le> 2 ^ 31)"

definition net_inv :: "seq_no \<Rightarrow> 'd net \<Rightarrow> bool" where
  "net_inv n w \<longleftrightarrow> (\<forall>i. linked n (w i) (w (\<not> i)))"

lemma net_invD:
  assumes "net_inv n w"
  shows "linked n (w i) (w (\<not> i))" and "linked n (w (\<not> i)) (w i)"
  using assms spec [of "\<lambda>j. linked n (w j) (w (\<not> j))" "\<not> i"] by (simp_all add: net_inv_def)

lemma endpoint_step_grows:
  "endpoint_step b c e = Some e' \<Longrightarrow> \<exists>ps. numbered e' = numbered e @ ps"
  by (auto simp: endpoint_step_def bind_eq_Some_conv)

lemma net_step_grows:
  "net_step b once w w' \<Longrightarrow> \<exists>ps. numbered (w' i) = numbered (w i) @ ps"
  by (induction rule: net_step.induct) (auto dest: endpoint_step_grows)

lemma recv_link_mono:
  assumes "recv_link n e f" and "numbered f' = numbered f @ ps"
  shows "recv_link n e f'"
  using assms(1) made_at_append unfolding recv_link_def assms(2) by metis

lemma linked_step:
  assumes e: "linked n e f" and f: "linked n f e" and step: "endpoint_step b c e = Some e'"
    and "from_wire c (set (wire_out f))" and "fresh_call c (inst e)" and "length (numbered e') \<le> 2 ^ 31"
  shows "linked n e' f" and "linked n f e'"
proof -
  from endpoint_simulates [OF assms] have party: "party_step n (party_of n e) (party_of n f) (party_of n e')"
    and own: "own_link n e'" and recv: "recv_link n e' f" by simp_all
  have agree: "agree n (party_of n e') (party_of n f) \<and> agree n (party_of n f) (party_of n e')"
    by (rule agree_step [OF party linkedD(3) [OF e] linkedD(3) [OF f]])
  obtain ps where "numbered e' = numbered e @ ps" using endpoint_step_grows [OF step] ..
  with recv_link_mono [OF linkedD(2) [OF f]] have "recv_link n f e'" .
  with agree own recv linkedD(1) [OF f] show "linked n e' f" and "linked n f e'"
    by (simp_all add: linked_def)
qed

lemma net_step_inv:
  assumes "net_step b True w w'" and "net_inv n w" and "young w'"
  shows "net_inv n w'"
  using assms
proof (induction rule: net_step.induct)
  case (call c w i e)
  then have "length (numbered e) \<le> 2 ^ 31" by (metis fun_upd_same young_def)
  with call linked_step [OF net_invD [OF call(4), of i] call(1)]
  have "linked n e (w (\<not> i))" and "linked n (w (\<not> i)) e" by simp_all
  moreover have "(w(i := e)) j = (if j = i then e else w (\<not> i))" for j by (cases j; cases i) simp_all
  ultimately show ?case by (auto simp: net_inv_def simp del: fun_upd_apply)
qed

lemma young_before:
  assumes "net_step b once w w'" and "young w'"
  shows "young w"
  using assms(2) net_step_grows [OF assms(1)] unfolding young_def
  by (metis append_eq_conv_conj length_append le_add1 order_trans)

lemma net_reach_inv:
  assumes "net_reach b True w w'" and "net_inv n w" and "young w'"
  shows "net_inv n w'"
  using assms by (induction rule: net_reach.induct) (auto intro: net_step_inv young_before)

lemma new_net_inv:
  assumes "window_ring cap1" and "new_seqex b1 cap1 iv1 n = Some s"
    and "window_ring cap2" and "new_seqex b2 cap2 iv2 n = Some t"
  shows "net_inv n (new_net s t)"
proof -
  note views = new_seqex_views [OF window_ring.cap_pos [OF assms(1)] assms(2)]
    new_seqex_views [OF window_ring.cap_pos [OF assms(3)] assms(4)]
  note invs = new_seqex_wf [OF assms(1,2)] new_seqex_wf [OF assms(3,4)]
  have "party_of n (new_net s t i) = \<lparr> made = Map.empty, unanswered = {}, owed = {#}, handed = {},
      wired = {}, taken = [] \<rparr>" for i
    using views by (auto simp: party_of_def new_net_def new_endpoint_def made_at_def handed_set_def
        pos_def fun_eq_iff)
  moreover have "agree n \<lparr> made = Map.empty, unanswered = {}, owed = {#}, handed = {}, wired = {}, taken = [] \<rparr>
      \<lparr> made = Map.empty, unanswered = {}, owed = {#}, handed = {}, wired = {}, taken = [] \<rparr>"
    by (simp add: agree_def agree_defs)
  ultimately show ?thesis
    using views invs
    by (auto simp: net_inv_def linked_def own_link_def recv_link_def new_net_def new_endpoint_def)
qed

lemma reach_inv:
  assumes "window_ring cap1" and "new_seqex b1 cap1 iv1 n = Some s"
    and "window_ring cap2" and "new_seqex b2 cap2 iv2 n = Some t"
    and "net_reach b True (new_net s t) w" and "young w"
  shows "net_inv n w"
  using net_reach_inv [OF assms(5) new_net_inv [OF assms(1-4)] assms(6)] .

text \<open>When everything is SeqCst, no packet is processed out of order, so the network may repeat any.\<close>

definition all_seq_cst :: "'d net \<Rightarrow> bool" where
  "all_seq_cst w \<longleftrightarrow> (\<forall>i. \<forall>p \<in> set (numbered (w i)). is_seq_cst p)"

lemma all_seq_cst_before:
  "net_step b once w w' \<Longrightarrow> all_seq_cst w' \<Longrightarrow> all_seq_cst w"
  unfolding all_seq_cst_def using net_step_grows by (metis UnCI set_append)

lemma made_in: "made_at n ps m = Some p \<Longrightarrow> p \<in> set ps"
  by (auto simp: made_at_def split: if_splits)

lemma seq_cst_once:
  assumes "net_reach b False w w'" and "net_inv n w" and "young w'" and "all_seq_cst w'"
  shows "net_reach b True w w'"
  using assms
proof (induction rule: net_reach.induct)
  case (here w)
  show ?case by (rule net_reach.here)
next
  case (there w v u)
  then have young: "young v" and cst: "all_seq_cst v"
    using young_before all_seq_cst_before by blast+
  with there have reach: "net_reach b True w v" by simp
  have inv: "net_inv n v" by (rule net_reach_inv [OF reach there(4) young])
  have "net_step b True v u"
    using there(2)
  proof cases
    case (call c i e)
    have no: "received (inst (v i)) m \<noteq> Some (Unlocked m')" for m m'
    proof
      assume "received (inst (v i)) m = Some (Unlocked m')"
      then obtain p where "made_at n (numbered (v (\<not> i))) m = Some p" and "\<not> is_seq_cst p"
        using linkedD(2) [OF net_invD(1) [OF inv, of i]] unfolding recv_link_def by blast
      with made_in cst show False unfolding all_seq_cst_def by blast
    qed
    have "fresh_call c (inst (v i))"
    proof (cases c)
      case (Receive p)
      then show ?thesis using no by (auto split: option.split recv_entry.split)
    qed simp_all
    with call show ?thesis by (simp add: net_step.call)
  qed
  with reach show ?case by (rule net_reach.there)
qed

text \<open>Numbers handed over long ago are below the window.\<close>

lemma passed_is_below:
  assumes "pos n m < pos n (next_recv_seq_no s)" and "pos n (next_recv_seq_no s) \<le> 2 ^ 31"
  shows "below_window s m"
proof (rule ccontr)
  assume "\<not> below_window s m"
  then have "unat (m - next_recv_seq_no s) < 2 ^ 31" by (simp add: below_window_def)
  with assms pos_plus [of n "next_recv_seq_no s" m] show False by simp
qed

lemma receive_not_early:
  assumes "core_inv s" and "in_window s m \<or> below_window s m"
    and "receive_data b into c m ro d s = Some (Inl RawDroppedTooEarly, s')"
  shows False
proof (cases "below_window s m")
  case True
  from receive_below [OF assms(1) True, of b into c ro d] assms(3) show False by (simp split: if_splits)
next
  case False
  with assms(2) have win: "in_window s m" by simp
  have "wait_error s c m ro \<noteq> RawDroppedTooEarly"
    by (simp add: wait_error_def split: try_error.split)
  with receive_wait [OF assms(1) win, of c ro b into d] receive_hand_views [OF assms(1) win, of c ro b into d] assms(3)
  show False by (cases "deliverable s c m ro") auto
qed

section \<open>Schedules\<close>

text \<open>A schedule of calls on a pair of endpoints, for concrete runs.\<close>

definition net_of :: "'d endpoint \<times> 'd endpoint \<Rightarrow> 'd net" where
  "net_of w = (\<lambda>i. if i then snd w else fst w)"

definition call_allowed :: "bool \<Rightarrow> ('d, 'd) call \<Rightarrow> 'd endpoint \<Rightarrow> 'd endpoint \<Rightarrow> bool" where
  "call_allowed once c e f \<longleftrightarrow> from_wire c (set (wire_out f)) \<and> (once \<longrightarrow> fresh_call c (inst e))"

fun net_run :: "build \<Rightarrow> bool \<Rightarrow> (bool \<times> ('d, 'd) call) list \<Rightarrow> 'd endpoint \<times> 'd endpoint \<Rightarrow>
    ('d endpoint \<times> 'd endpoint) option" where
  "net_run b once [] w = Some w"
| "net_run b once ((False, c) # cs) (e, f) =
     (if call_allowed once c e f
      then case endpoint_step b c e of None \<Rightarrow> None | Some e' \<Rightarrow> net_run b once cs (e', f) else None)"
| "net_run b once ((True, c) # cs) (e, f) =
     (if call_allowed once c f e
      then case endpoint_step b c f of None \<Rightarrow> None | Some f' \<Rightarrow> net_run b once cs (e, f') else None)"

lemma net_reach_front: "net_reach b once v u \<Longrightarrow> net_step b once w v \<Longrightarrow> net_reach b once w u"
  by (induction rule: net_reach.induct) (auto intro: net_reach.intros)

lemma net_step_at:
  assumes "endpoint_step b c (w i) = Some e" and "call_allowed once c (w i) (w (\<not> i))"
    and "v = w(i := e)"
  shows "net_step b once w v"
  using assms by (auto simp: call_allowed_def intro: net_step.call)

lemma net_run_reach: "net_run b once cs w = Some u \<Longrightarrow> net_reach b once (net_of w) (net_of u)"
proof (induction b once cs w rule: net_run.induct)
  case (2 b once c cs e f)
  then obtain e' where step: "endpoint_step b c e = Some e'" "call_allowed once c e f"
    and "net_reach b once (net_of (e', f)) (net_of u)"
    by (auto split: if_splits option.splits)
  moreover have "net_step b once (net_of (e, f)) (net_of (e', f))"
    by (rule net_step_at [where c = c and i = False and e = e']) (use step in \<open>auto simp: net_of_def\<close>)
  ultimately show ?case by (rule_tac net_reach_front)
next
  case (3 b once c cs e f)
  then obtain f' where step: "endpoint_step b c f = Some f'" "call_allowed once c f e"
    and "net_reach b once (net_of (e, f')) (net_of u)"
    by (auto split: if_splits option.splits)
  moreover have "net_step b once (net_of (e, f)) (net_of (e, f'))"
    by (rule net_step_at [where c = c and i = True and e = f']) (use step in \<open>auto simp: net_of_def\<close>)
  ultimately show ?case by (rule_tac net_reach_front)
qed (simp add: net_reach.here)

text \<open>Two SeqCst packets arrive in the wrong order, twice, and are handed over in order.\<close>

definition two_fresh :: "nat endpoint \<times> nat endpoint" where
  "two_fresh = (new_endpoint (fresh 8), new_endpoint (fresh 8))"

lemma two_fresh_net: "net_of two_fresh = new_net (fresh 8) (fresh 8)"
  by (auto simp: two_fresh_def net_of_def new_net_def)

definition swapped_run :: "(bool \<times> (nat, nat) call) list" where
  "swapped_run = [(False, TrySend 1 True 4), (False, TrySend 2 True 5),
     (True, Receive (SeqCstPayload 1 5)), (True, Receive (SeqCstPayload 0 4)),
     (True, Receive (SeqCstPayload 1 5)), (True, AckRaw 0 True), (True, Pump),
     (True, Receive (SeqCstPayload 0 4))]"

lemma young_pair:
  "young (net_of w) \<longleftrightarrow> length (numbered (fst w)) \<le> 2 ^ 31 \<and> length (numbered (snd w)) \<le> 2 ^ 31"
  by (auto simp: young_def net_of_def)

lemma all_seq_cst_pair:
  "all_seq_cst (net_of w) \<longleftrightarrow> list_all is_seq_cst (numbered (fst w)) \<and> list_all is_seq_cst (numbered (snd w))"
  by (auto simp: all_seq_cst_def net_of_def list_all_iff split: if_splits)

definition swapped_end :: "nat endpoint \<times> nat endpoint" where
  "swapped_end = the (net_run Debug True swapped_run two_fresh)"

lemma swapped_runs:
  "map_option (\<lambda>w. (map length [numbered (fst w), numbered (snd w)], list_all is_seq_cst (numbered (fst w)),
      handed_out (snd w), wire_out (snd w), wire_out (fst w))) (net_run Debug True swapped_run two_fresh)
    = Some ([2, 0], True, [(0, True, 4), (1, True, 5)], [Ack 0, Ack 0], [SeqCstPayload 0 4, SeqCstPayload 1 5])"
  by code_simp

lemma swapped_views:
  "map_option (\<lambda>w. (cap_of (inst (fst w)), cap_of (inst (snd w)), next_recv_seq_no (inst (snd w)),
      sent (inst (fst w)) 1 = None)) (net_run Debug True swapped_run two_fresh) = Some (8, 8, 2, False)"
  by code_simp

lemma swapped_end:
  "net_run Debug True swapped_run two_fresh = Some swapped_end"
  "young (net_of swapped_end)" "all_seq_cst (net_of swapped_end)"
  "handed_out (snd swapped_end) = [(0, True, 4), (1, True, 5)]"
  "wire_out (snd swapped_end) = [Ack 0, Ack 0]"
  "wire_out (fst swapped_end) = [SeqCstPayload 0 4, SeqCstPayload 1 5]"
  "cap_of (inst (fst swapped_end)) = cap_of (inst (snd swapped_end))"
  "next_recv_seq_no (inst (snd swapped_end)) = 2" "sent (inst (fst swapped_end)) 1 \<noteq> None"
  using swapped_runs swapped_views
  by (auto simp: swapped_end_def young_pair all_seq_cst_pair)

lemma swapped_reached: "net_reach Debug True (new_net (fresh 8) (fresh 8)) (net_of swapped_end)"
  using net_run_reach [OF swapped_end(1)] by (simp add: two_fresh_net)

lemma net_reach_weaken: "net_reach b True w u \<Longrightarrow> net_reach b False w u"
  by (induction rule: net_reach.induct) (auto elim!: net_step.cases intro: net_reach.intros net_step.intros)

text \<open>The data of a numbered packet.\<close>

definition data_of :: "'d packet \<Rightarrow> 'd" where
  "data_of p = the (payload p)"

text \<open>A SeqCst stream is handed over in the order it was made.\<close>

lemma stream_prefix:
  assumes "net_inv n w" and "all_seq_cst w"
  shows "map (\<lambda>(m, c, d). d) (handed_out (w i))
    = map data_of (take (length (handed_out (w i))) (numbered (w (\<not> i))))"
proof -
  note inv = net_invD(2) [OF assms(1), of i]
  let ?out = "handed_out (w i)" and ?ps = "numbered (w (\<not> i))"
  have made: "made_at n ?ps m = Some (?ps ! pos n m) \<and> pos n m < length ?ps \<and> d = data_of (?ps ! pos n m)"
    if "(m, c, d) \<in> set ?out" for m c d
    using that linkedD(3) [OF inv]
    by (fastforce simp: agree_def taken_ok_def made_at_def data_of_def split: if_splits)
  have "\<forall>p \<in> ran (made (party_of n (w (\<not> i)))). is_seq_cst p"
    using assms(2) made_in by (fastforce simp: all_seq_cst_def ran_def)
  from taken_in_sequence [OF linkedD(3) [OF inv] this]
  have seq: "map (pos n \<circ> fst) ?out = [0..<length ?out]" by simp
  have at: "pos n (fst (?out ! j)) = j" if "j < length ?out" for j
    using arg_cong [OF seq, of "\<lambda>xs. xs ! j"] that by simp
  have elem: "j < length ?ps \<and> (\<lambda>(m, c, d). d) (?out ! j) = data_of (?ps ! j)" if "j < length ?out" for j
  proof -
    obtain m c d where t: "?out ! j = (m, c, d)" by (cases "?out ! j")
    with that have "(m, c, d) \<in> set ?out" by (metis nth_mem)
    from made [OF this] at [OF that] t show ?thesis by simp
  qed
  then have "length ?out \<le> length ?ps" by (meson leI less_irrefl)
  then show ?thesis using elem by (intro nth_equalityI) simp_all
qed

section \<open>Properties\<close>

text \<open>
  C3. End to end, exactly once. Two new instances, of any capacities, start from the same sequence
  number; both make any calls, in either build, at most \<open>2 ^ 31\<close> packets each, and receive what the other
  sent: lost, late, in any order, any number of times, except that a packet processed out of order is not
  repeated while the window still has its mark; the last property of this theory is about that case. Then each packet handed over is one that the other made, with its flag
  and data, none is handed over twice, and a SeqCst packet comes after all that were made before it.
\<close>

theorem end_to_end_exactly_once:
  assumes "window_ring cap1" and "new_seqex b1 cap1 iv1 n = Some s"
    and "window_ring cap2" and "new_seqex b2 cap2 iv2 n = Some t"
    and "net_reach b True (new_net s t) w" and "young w"
  shows "distinct (map fst (handed_out (w i))) \<and> in_order n {} (handed_out (w i))
    \<and> (\<forall>(m, c, d) \<in> set (handed_out (w i)). \<exists>k < length (numbered (w (\<not> i))).
         m = n + of_nat k \<and> c = is_seq_cst (numbered (w (\<not> i)) ! k) \<and> d = data_of (numbered (w (\<not> i)) ! k))"
proof -
  have inv: "linked n (w (\<not> i)) (w i)" by (rule net_invD(2) [OF reach_inv [OF assms]])
  have ok: "taken_ok (party_of n (w (\<not> i))) (party_of n (w i))" and ord: "in_order n {} (handed_out (w i))"
    using linkedD(3) [OF inv] by (simp_all add: agree_def)
  have "\<exists>k < length (numbered (w (\<not> i))). m = n + of_nat k
      \<and> c = is_seq_cst (numbered (w (\<not> i)) ! k) \<and> d = data_of (numbered (w (\<not> i)) ! k)"
    if "(m, c, d) \<in> set (handed_out (w i))" for m c d
  proof -
    from ok that have "\<exists>p. made_at n (numbered (w (\<not> i))) m = Some p \<and> c = is_seq_cst p \<and> d = the (payload p)"
      by (fastforce simp: taken_ok_def)
    then show ?thesis
      using linkedD(5) [OF inv] pos_inj [of n m "n + of_nat (pos n m)"] pos_less [of n m]
      by (intro exI [of _ "pos n m"]) (auto simp: made_at_def data_of_def split: if_splits)
  qed
  with ok ord show ?thesis by (auto simp: taken_ok_def)
qed

text \<open>
  C4. A SeqCst stream arrives in order. If all packets made are SeqCst, the network may do anything
  with them, and still what has been handed over is, at every moment, the data of the first packets
  the other made, in the order they were made.
\<close>

theorem seq_cst_stream_is_prefix:
  assumes "window_ring cap1" and "new_seqex b1 cap1 iv1 n = Some s"
    and "window_ring cap2" and "new_seqex b2 cap2 iv2 n = Some t"
    and "net_reach b False (new_net s t) w" and "young w" and "all_seq_cst w"
  shows "map (\<lambda>(m, c, d). d) (handed_out (w i))
    = map data_of (take (length (handed_out (w i))) (numbered (w (\<not> i))))"
proof -
  have "net_reach b True (new_net s t) w"
    by (rule seq_cst_once [OF assms(5) new_net_inv [OF assms(1-4)] assms(6,7)])
  then show ?thesis by (rule stream_prefix [OF reach_inv [OF assms(1-4) _ assms(6)] assms(7)])
qed

text \<open>
  C8. Flow control. In every state that two such peers reach, with no packet repeated while its mark
  is in the window and at most \<open>2 ^ 31\<close> packets each, a peer with a window no larger than ours is not
  ahead of our window: no packet it ever sent, received now, is dropped as too early.
\<close>

theorem never_too_early:
  assumes "window_ring cap1" and "new_seqex b1 cap1 iv1 n = Some s"
    and "window_ring cap2" and "new_seqex b2 cap2 iv2 n = Some t"
    and "net_reach b True (new_net s t) w" and "young w"
    and "cap_of (inst (w (\<not> i))) \<le> cap_of (inst (w i))" and "p \<in> set (wire_out (w (\<not> i)))"
  shows "exec b' (Receive p) (inst (w i)) \<noteq> Some (ReceiveOut (Inl RawDroppedTooEarly), s')"
proof
  assume run: "exec b' (Receive p) (inst (w i)) = Some (ReceiveOut (Inl RawDroppedTooEarly), s')"
  have e: "linked n (w i) (w (\<not> i))" and f: "linked n (w (\<not> i)) (w i)"
    using net_invD reach_inv [OF assms(1-6)] by blast+
  have core: "core_inv (inst (w i))" using linkedD(4) [OF e] by simp
  note shape = core_parts(1) [OF core]
  show False
  proof (cases "seq_part p")
    case None
    then obtain r where "p = Ack r" by (cases p) simp_all
    with run show False by (auto simp: receive_ack_eq [OF shape] split: option.splits)
  next
    case (Some m)
    have "in_window (inst (w i)) m \<or> below_window (inst (w i)) m"
    proof (cases "m \<in> handed_set n (inst (w i))")
      case False
      then have le: "pos n (next_recv_seq_no (inst (w i))) \<le> pos n m" by (simp add: handed_set_def)
      have "pos n m < length (numbered (w (\<not> i)))"
        using wire_made(1) [OF f assms(8) Some] by (simp add: made_at_def split: if_splits)
      with flow [OF linkedD(1,6) [OF f] core] assms(7)
      have "pos n m - pos n (next_recv_seq_no (inst (w i))) < cap_of (inst (w i))" using le by linarith
      then show ?thesis using pos_offset [OF le] by (simp add: in_window_def)
    next
      case True
      then consider "pos n m < pos n (next_recv_seq_no (inst (w i)))"
        | "received (inst (w i)) m = Some (Unlocked m)"
        by (auto simp: handed_set_def)
      then show ?thesis
      proof cases
        case 1
        have "pos n (next_recv_seq_no (inst (w i))) \<le> 2 ^ 31"
          using recv_bound [of n "inst (w i)" "numbered (w (\<not> i))"] linkedD(5,6) [OF f]
          by (force simp: kept_def)
        with passed_is_below [OF 1] show ?thesis by blast
      next
        case 2
        with received_in_window(1) [OF core_parts(1,2) [OF core]] show ?thesis by blast
      qed
    qed
    moreover from run Some obtain q where "receive_data b' (\<lambda>d. d) (is_seq_cst p) m (reply_part p)
        (the (payload p)) (inst (w i)) = Some (q, s')" and "q = Inl RawDroppedTooEarly"
      by (auto simp: receive_eq bind_eq_Some_conv split: prod.splits)
    ultimately show False
      using receive_not_early [OF core, of m b' "\<lambda>d. d" "is_seq_cst p" "reply_part p" "the (payload p)" s']
      by simp
  qed
qed

text \<open>
  C5. Nothing is lost for good, in every state that two such peers reach, with no packet repeated
  while its mark is in the window and at most \<open>2 ^ 31\<close> packets each. A numbered packet that the other side has not been handed is still
  in the send window, as it was made, so it is resent. One that was handed over and is still
  unacknowledged is either still owed an answer, or its reply is in the other's send window, or its
  mark is in the receive window, or receiving it again, in either build, sends the acknowledgement again.
\<close>

theorem nothing_lost_between_peers:
  assumes "window_ring cap1" and "new_seqex b1 cap1 iv1 n = Some s"
    and "window_ring cap2" and "new_seqex b2 cap2 iv2 n = Some t"
    and "net_reach b True (new_net s t) w" and "young w"
  shows "(\<forall>k < length (numbered (w i)). n + of_nat k \<notin> handed_set n (inst (w (\<not> i))) \<longrightarrow>
      (\<exists>x. sent (inst (w i)) (n + of_nat k) = Some x \<and> to_packet x = numbered (w i) ! k))
    \<and> (\<forall>m x. sent (inst (w i)) m = Some x \<longrightarrow> m \<in> handed_set n (inst (w (\<not> i))) \<longrightarrow>
        reply_pending (inst (w (\<not> i))) m \<or> received (inst (w (\<not> i))) m = Some (Unlocked m)
        \<or> try_receive_raw b' (\<lambda>d. d) (to_packet x) (inst (w (\<not> i)))
          = Some (Inl DroppedDuplicate, [Ack m], inst (w (\<not> i))))"
proof (intro conjI allI impI)
  have e: "linked n (w i) (w (\<not> i))" and f: "linked n (w (\<not> i)) (w i)"
    using net_invD reach_inv [OF assms] by blast+
  let ?r = "inst (w (\<not> i))"
  have core: "core_inv ?r" using linkedD(4) [OF f] by simp
  {
    fix k assume k: "k < length (numbered (w i))" and new: "n + of_nat k \<notin> handed_set n ?r"
    then have made: "made_at n (numbered (w i)) (n + of_nat k) = Some (numbered (w i) ! k)"
      using linkedD(5) [OF e] by (simp add: made_at_def)
    with keptD(3) [OF linkedD(6) [OF e], of "n + of_nat k"] new
    obtain x where "sent (inst (w i)) (n + of_nat k) = Some x" by auto
    with made linkedD(1) [OF e]
    show "\<exists>x. sent (inst (w i)) (n + of_nat k) = Some x \<and> to_packet x = numbered (w i) ! k"
      by (simp add: own_link_def)
  next
    fix m x assume x: "sent (inst (w i)) m = Some x" and old: "m \<in> handed_set n ?r"
    have "pos n (next_recv_seq_no ?r) \<le> 2 ^ 31"
      using recv_bound [of n ?r "numbered (w i)"] linkedD(5,6) [OF e] by (force simp: kept_def)
    with old passed_is_below [of n m ?r]
    have "received ?r m = Some (Unlocked m) \<or> below_window ?r m" by (auto simp: handed_set_def)
    moreover have "try_receive_raw b' (\<lambda>d. d) (to_packet x) ?r = Some (Inl DroppedDuplicate, [Ack m], ?r)"
      if "below_window ?r m" "\<not> reply_pending ?r m"
      using that receive_below [OF core that(1), where b = b' and into = "\<lambda>d. d" and c = "entry_seq_cst x"
          and ro = "entry_reply_no x" and d = "entry_data x"] sent_SomeD [OF x]
      by (simp add: try_receive_raw_def receive_eq)
    ultimately show "reply_pending ?r m \<or> received ?r m = Some (Unlocked m)
        \<or> try_receive_raw b' (\<lambda>d. d) (to_packet x) ?r = Some (Inl DroppedDuplicate, [Ack m], ?r)"
      by blast
  }
qed

text \<open>
  C9. Peers do not make each other panic. In a debug build, in every state that two peers
  reach with no packet repeated while its mark is in the window and at most \<open>2 ^ 31\<close> packets
  each, the full invariant holds of both, and pumping returns and so does receiving any packet of the
  other, except for one repeated in this way.
\<close>

theorem peers_never_panic:
  assumes "window_ring cap1" and "new_seqex b1 cap1 iv1 n = Some s"
    and "window_ring cap2" and "new_seqex b2 cap2 iv2 n = Some t"
    and "net_reach Debug True (new_net s t) w" and "young w"
  shows "seq_inv (inst (w i)) \<and> exec Debug Pump (inst (w i)) \<noteq> None
    \<and> (\<forall>p \<in> set (wire_out (w (\<not> i))). fresh_call (Receive p) (inst (w i)) \<longrightarrow>
        exec Debug (Receive p) (inst (w i)) \<noteq> None)"
proof -
  have e: "linked n (w i) (w (\<not> i))" and f: "linked n (w (\<not> i)) (w i)"
    using net_invD reach_inv [OF assms] by blast+
  have inv: "seq_inv (inst (w i))" using linkedD(4) [OF e] .
  have "exec Debug c (inst (w i)) \<noteq> None" if "permits Debug c (inst (w i))" for c
    by (rule exec_keeps [of "inst (w i)" Debug c]) (use inv that in simp_all)
  with inv honest_permits [OF e f, where b = Debug] show ?thesis by blast
qed

section \<open>What a repeated packet can do\<close>

text \<open>
  The side \<open>False\<close> has four slots and the side \<open>True\<close> eight. Packet 1 arrives first and once more, is
  handed over twice, and is answered twice: by an acknowledgement and, late, by a reply.
\<close>

definition narrow_pair :: "nat endpoint \<times> nat endpoint" where
  "narrow_pair = (new_endpoint (fresh 4), new_endpoint (fresh 8))"

definition repeated_run :: "(bool \<times> (nat, nat) call) list" where
  "repeated_run = [(False, TrySend 0 False 10), (False, TrySend 0 False 11), (False, TrySend 0 False 12),
     (False, TrySend 0 False 13), (True, Receive (Payload 1 11)), (True, Receive (Payload 1 11)),
     (True, Receive (Payload 0 10)), (True, Receive (Payload 2 12)), (True, Receive (Payload 3 13)),
     (True, AckRaw 1 False), (True, ReplyRaw 0 1 False False 9), (True, AckRaw 0 False),
     (True, AckRaw 2 False), (True, AckRaw 3 False), (False, Receive (Ack 0)), (False, Receive (Ack 1)),
     (False, Receive (Ack 2)), (False, Receive (Ack 3)), (False, TrySend 0 False 14),
     (False, TrySend 0 False 15), (False, TrySend 0 False 16), (False, TrySend 0 False 17),
     (True, Receive (Payload 4 14)), (True, AckRaw 4 False), (False, Receive (Ack 4)),
     (False, TrySend 0 False 18), (False, Receive (Reply 0 1 9))]"

text \<open>
  A repeated packet breaks correct peers. Two peers that only answer the guards they were given,
  over a network that repeats one packet which was processed out of order: the same data is handed
  over twice, and then the answer to a reply, one guard used once, panics in a debug build and in a
  release build overwrites packet 5, which was never acknowledged.
\<close>

theorem repeated_packet_breaks_peers:
  "map_option (\<lambda>w. (map fst (handed_out (snd w)), map (map_option entry_seq_no) (send_window (inst (fst w))),
      exec Debug (ReplyRaw 1 0 False False 8) (inst (fst w)) = None,
      map_option (\<lambda>(out, s). map (map_option entry_seq_no) (send_window s))
        (exec Release (ReplyRaw 1 0 False False 8) (inst (fst w)))))
    (net_run Debug False repeated_run narrow_pair)
   = Some ([1, 1, 0, 2, 3, 4], [Some 8, Some 5, Some 6, Some 7], True,
       Some [Some 8, Some 9, Some 6, Some 7])"
  by code_simp

lemmas fresh_pair = small_rings(2) fresh_new_small(2) [of Debug]
  small_rings(2) fresh_new_small(2) [of Debug]

text \<open>
  C33. A repeat is handed over again. Two new instances reach any state as above; in it, one of them has
  processed packet \<open>m\<close> out of order and its mark is in the window. Should the network repeat the packet
  now, while there is room for its reply, then it is not dropped, in either build: the data handed over
  before is handed over a second time, its number is issued a second time, and the receive window is the
  same as before, so that the next repeat does it again.
\<close>

theorem repeat_is_handed_over_again:
  assumes "window_ring cap1" and "new_seqex b1 cap1 iv1 n = Some s"
    and "window_ring cap2" and "new_seqex b2 cap2 iv2 n = Some t"
    and "net_reach b True (new_net s t) w" and "young w"
    and "received (inst (w i)) m = Some (Unlocked m)"
    and "p \<in> set (wire_out (w (\<not> i)))" and "seq_part p = Some m" and "room (inst (w i)) (reply_part p)"
  shows "(m, False, data_of p) \<in> set (handed_out (w i))
    \<and> (\<exists>e. endpoint_step b' (Receive p) (w i) = Some e
        \<and> handed_out e = handed_out (w i) @ [(m, False, data_of p)]
        \<and> reserved (inst e) = add_mset m (reserved (inst (w i)))
        \<and> received (inst e) = received (inst (w i)) \<and> wire_out e = wire_out (w i))"
proof -
  have e: "linked n (w i) (w (\<not> i))" and f: "linked n (w (\<not> i)) (w i)"
    using net_invD reach_inv [OF assms(1-6)] by blast+
  have core: "core_inv (inst (w i))" using linkedD(4) [OF e] by simp
  note made = wire_made(1) [OF f assms(8,9)]
  from linkedD(2) [OF e] assms(7) made have plain: "\<not> is_seq_cst p" by (auto simp: recv_link_def)
  have win: "in_window (inst (w i)) m" "m \<noteq> next_recv_seq_no (inst (w i))"
    using received_in_window(1) [OF core_parts(1,2) [OF core] assms(7)]
      next_not_marked [OF core_parts(1-3) [OF core], of m] assms(7) by auto
  have "deliverable (inst (w i)) False m (reply_part p)" using assms(10) by (simp add: deliverable_def)
  from receive_ahead_views [OF core win(1) this win(2), of b' "\<lambda>d. d" "data_of p"] obtain s' where
    run: "exec b' (Receive p) (inst (w i))
        = Some (ReceiveOut (Inr (delivered_as (inst (w i)) m (reply_part p) False (data_of p), False)), s')"
    and s': "received s' = received (inst (w i))" "reserved s' = add_mset m (reserved (inst (w i)))"
    using assms(7,9) plain fun_upd_triv [of "received (inst (w i))" m]
    by (auto simp: receive_eq data_of_def hand_over_effect_def)
  have "m \<in> fst ` set (handed_out (w i))"
    using linkedD(3) [OF f] assms(7) by (auto simp: agree_def taken_ok_def handed_set_def)
  then obtain c d where before: "(m, c, d) \<in> set (handed_out (w i))" by auto
  with linkedD(3) [OF f] obtain p' where "made_at n (numbered (w (\<not> i))) m = Some p'"
    and "c = is_seq_cst p'" "d = the (payload p')"
    by (fastforce simp: agree_def taken_ok_def)
  with made plain before have "(m, False, data_of p) \<in> set (handed_out (w i))" by (simp add: data_of_def)
  with run s' show ?thesis by (simp add: endpoint_step_def)
qed

text \<open>Packet 1 overtakes packet 0.\<close>

definition overtaken :: "nat endpoint \<times> nat endpoint" where
  "overtaken = the (net_run Debug True
     [(False, TrySend 0 False 10), (False, TrySend 0 False 11), (True, Receive (Payload 1 11))] two_fresh)"

lemma overtaken_views:
  "map_option (\<lambda>w. (map length [numbered (fst w), numbered (snd w)], received (inst (snd w)) 1,
      wire_out (fst w), handed_out (snd w), room (inst (snd w)) None))
    (net_run Debug True
      [(False, TrySend 0 False 10), (False, TrySend 0 False 11), (True, Receive (Payload 1 11))] two_fresh)
    = Some ([2, 0], Some (Unlocked 1), [Payload 0 10, Payload 1 11], [(1, False, 11)], True)"
  by code_simp

theorem repeat_is_handed_over_again_witness:
  "\<exists>e. endpoint_step Debug (Receive (Payload 1 11)) (snd overtaken) = Some e
    \<and> handed_out e = [(1, False, 11), (1, False, 11)]"
proof -
  have run: "net_run Debug True
      [(False, TrySend 0 False 10), (False, TrySend 0 False 11), (True, Receive (Payload 1 11))] two_fresh
      = Some overtaken"
    and young: "young (net_of overtaken)" and mark: "received (inst (snd overtaken)) 1 = Some (Unlocked 1)"
    and sent: "wire_out (fst overtaken) = [Payload 0 10, Payload 1 11]"
    and out: "handed_out (snd overtaken) = [(1, False, 11)]" and rm: "room (inst (snd overtaken)) None"
    using overtaken_views by (auto simp: overtaken_def young_pair)
  have reach: "net_reach Debug True (new_net (fresh 8) (fresh 8)) (net_of overtaken)"
    using net_run_reach [OF run] by (simp add: two_fresh_net)
  from repeat_is_handed_over_again [OF fresh_pair reach young, of True 1 "Payload 1 11" Debug] mark sent out rm
  show ?thesis by (auto simp: net_of_def data_of_def payload_def)
qed

section \<open>Witnesses\<close>

theorem end_to_end_exactly_once_witness:
  "map fst (handed_out (snd swapped_end)) = [0, 1] \<and> distinct (map fst (handed_out (snd swapped_end)))
    \<and> in_order 0 {} (handed_out (snd swapped_end))"
  using end_to_end_exactly_once [OF fresh_pair swapped_reached swapped_end(2), of True] swapped_end(4)
  by (simp add: net_of_def)

theorem seq_cst_stream_is_prefix_witness:
  "handed_out (snd swapped_end) = [(0, True, 4), (1, True, 5)]
    \<and> [4, 5] = map data_of (take 2 (numbered (fst swapped_end)))"
  using seq_cst_stream_is_prefix [OF fresh_pair net_reach_weaken [OF swapped_reached] swapped_end(2,3), of True]
    swapped_end(4)
  by (simp add: net_of_def numeral_2_eq_2)

theorem never_too_early_witness:
  "\<forall>s'. exec Debug (Receive (SeqCstPayload 1 5)) (inst (snd swapped_end))
    \<noteq> Some (ReceiveOut (Inl RawDroppedTooEarly), s')"
  using never_too_early [OF fresh_pair swapped_reached swapped_end(2), of True "SeqCstPayload 1 5" Debug]
    swapped_end(6,7)
  by (simp add: net_of_def del: exec.simps)

theorem nothing_lost_between_peers_witness:
  "\<exists>x. sent (inst (fst swapped_end)) 1 = Some x \<and> 1 \<in> handed_set 0 (inst (snd swapped_end))
    \<and> (reply_pending (inst (snd swapped_end)) 1 \<or> received (inst (snd swapped_end)) 1 = Some (Unlocked 1)
      \<or> try_receive_raw Debug (\<lambda>d. d) (to_packet x) (inst (snd swapped_end))
        = Some (Inl DroppedDuplicate, [Ack 1], inst (snd swapped_end)))"
proof -
  obtain x where x: "sent (inst (fst swapped_end)) 1 = Some x" using swapped_end(9) by auto
  have old: "1 \<in> handed_set 0 (inst (snd swapped_end))"
    by (simp add: handed_set_def pos_def swapped_end(8))
  from nothing_lost_between_peers [OF fresh_pair swapped_reached swapped_end(2), of False Debug] x old
  show ?thesis by (auto simp: net_of_def)
qed

theorem peers_never_panic_witness:
  "exec Debug (Receive (Ack 0)) (inst (fst swapped_end)) \<noteq> None"
  using peers_never_panic [OF fresh_pair swapped_reached swapped_end(2), of False] swapped_end(5)
  by (simp add: net_of_def del: exec.simps)

end
