(* ===== verification/Calculator.thy ===== *)
theory Calculator
  imports Receive_Loop Peer_Delivery
begin

text \<open>
  \<^verbatim>\<open>examples/calculator.rs\<close>: one peer sends arithmetic operations as SeqCst packets over a
  channel that drops some of them; the other applies them, in the order it is handed them, to a value
  of its own. \<^verbatim>\<open>f32\<close> and its five operations are a parameter.
\<close>

section \<open>The program\<close>

record 'v arith =
  f_add :: "'v \<Rightarrow> 'v \<Rightarrow> 'v"
  f_sub :: "'v \<Rightarrow> 'v \<Rightarrow> 'v"
  f_mul :: "'v \<Rightarrow> 'v \<Rightarrow> 'v"
  f_div :: "'v \<Rightarrow> 'v \<Rightarrow> 'v"
  f_rem :: "'v \<Rightarrow> 'v \<Rightarrow> 'v"

datatype 'v op = Add 'v | Sub 'v | Mul 'v | Div 'v | Mod 'v

fun apply_op :: "'v arith \<Rightarrow> 'v op \<Rightarrow> 'v \<Rightarrow> 'v" where
  "apply_op ar (Add n) v = f_add ar v n"
| "apply_op ar (Sub n) v = f_sub ar v n"
| "apply_op ar (Mul n) v = f_mul ar v n"
| "apply_op ar (Div n) v = f_div ar v n"
| "apply_op ar (Mod n) v = f_rem ar v n"

type_synonym 'v side = "('v op, 'v op) inner"

text \<open>The guard is dropped after the value has been changed.\<close>

definition calc_body :: "build \<Rightarrow> 'v arith \<Rightarrow> ('v op, 'v op, 'v) loop_body" where
  "calc_body b ar item v x =
     (case fst (recv_consume item) of
        Some (g, p) \<Rightarrow> do {
          (ps, _, x) \<leftarrow> sync_guard_drop b g x;
          Some (ps, apply_op ar p v, x)
        }
      | None \<Rightarrow> Some ([], v, x))"

text \<open>
  \<^verbatim>\<open>receive\<close> takes every packet out of the channel; \<open>coin\<close> says which of them
  \<^verbatim>\<open>drop_packet\<close> drops.
\<close>

fun calc_receive ::
  "build \<Rightarrow> 'v arith \<Rightarrow> (nat \<Rightarrow> bool) \<Rightarrow> 'v op packet list \<Rightarrow> 'v \<Rightarrow> 'v side \<Rightarrow>
   (loop_end \<times> 'v op packet list \<times> 'v \<times> 'v side) option" where
  "calc_receive b ar coin [] v x = Some (Done, [], v, x)"
| "calc_receive b ar coin (p # rest) v x =
     (if coin 0 then calc_receive b ar (coin \<circ> Suc) rest v x
      else do {
        (r, ps, v, x) \<leftarrow> receive_all_loop b (calc_body b ar) p v x;
        case r of
          Blocked \<Rightarrow> Some (Blocked, ps, v, x)
        | Done \<Rightarrow> do {
            (r, ps', v, x) \<leftarrow> calc_receive b ar (coin \<circ> Suc) rest v x;
            Some (r, ps @ ps', v, x)
          }
      })"

text \<open>\<open>to_first\<close> is what \<^verbatim>\<open>recv1\<close> receives from, \<open>to_second\<close> what \<^verbatim>\<open>recv2\<close> does.\<close>

record 'v calc =
  first :: "'v side"
  second :: "'v side"
  to_first :: "'v op packet list"
  to_second :: "'v op packet list"
  val :: 'v
  remote_val :: 'v

text \<open>
  \<^verbatim>\<open>seq1.send(...).unwrap()\<close> for each operation, with the same operation on
  \<^verbatim>\<open>value\<close>; \<open>t\<close> are the times. A send that waits would wait for ever.
\<close>

fun calc_send :: "build \<Rightarrow> 'v arith \<Rightarrow> (nat \<Rightarrow> i64) \<Rightarrow> 'v op list \<Rightarrow> 'v calc \<Rightarrow> (loop_end \<times> 'v calc) option" where
  "calc_send b ar t [] st = Some (Done, st)"
| "calc_send b ar t (p # rest) st = do {
     (sent, _, ps, x) \<leftarrow> sync_send b (t 0) True p (first st);
     case sent of
       Return (Inr _) \<Rightarrow>
         calc_send b ar (t \<circ> Suc) rest
           (st\<lparr>first := x, to_second := to_second st @ ps, val := apply_op ar p (val st)\<rparr>)
     | Return (Inl _) \<Rightarrow> None
     | _ \<Rightarrow> Some (Blocked, st)
   }"

text \<open>One turn of the loop of \<^verbatim>\<open>main\<close>.\<close>

definition calc_round ::
  "build \<Rightarrow> 'v arith \<Rightarrow> (nat \<Rightarrow> bool) \<times> (nat \<Rightarrow> bool) \<times> i64 \<times> i64 \<Rightarrow> 'v calc \<Rightarrow> (loop_end \<times> 'v calc) option" where
  "calc_round b ar env st = (case env of (coin1, coin2, t1, t2) \<Rightarrow> do {
     (r1, ps2, v, x1) \<leftarrow> calc_receive b ar coin1 (to_first st) (val st) (first st);
     (r2, ps1, w, x2) \<leftarrow> calc_receive b ar coin2 (to_second st @ ps2) (remote_val st) (second st);
     (_, qs2, x1) \<leftarrow> sync_service b t1 x1;
     (_, qs1, x2) \<leftarrow> sync_service b t2 x2;
     Some (if r1 = Done \<and> r2 = Done then Done else Blocked,
       \<lparr> first = x1, second = x2, to_first = ps1 @ qs1, to_second = qs2, val = v, remote_val = w \<rparr>)
   })"

fun calc_rounds ::
  "build \<Rightarrow> 'v arith \<Rightarrow> ((nat \<Rightarrow> bool) \<times> (nat \<Rightarrow> bool) \<times> i64 \<times> i64) list \<Rightarrow> 'v calc \<Rightarrow>
   (loop_end \<times> 'v calc) option" where
  "calc_rounds b ar [] st = Some (Done, st)"
| "calc_rounds b ar (env # envs) st = do {
     (r, st) \<leftarrow> calc_round b ar env st;
     case r of Done \<Rightarrow> calc_rounds b ar envs st | Blocked \<Rightarrow> Some (Blocked, st)
   }"

text \<open>
  \<^verbatim>\<open>main\<close> up to its assertion: the five operations, then sixteen turns, with the
  numbers that \<open>lit\<close> gives for its literals.
\<close>

definition calc_ops :: "(nat \<Rightarrow> 'v) \<Rightarrow> 'v op list" where
  "calc_ops lit = [Add (lit 1), Sub (lit 2), Mul (lit 3), Div (lit 4), Mod (lit 5)]"

definition calc_main ::
  "build \<Rightarrow> 'v arith \<Rightarrow> (nat \<Rightarrow> 'v) \<Rightarrow> (nat \<Rightarrow> i64) \<Rightarrow>
   ((nat \<Rightarrow> bool) \<times> (nat \<Rightarrow> bool) \<times> i64 \<times> i64) list \<Rightarrow> (loop_end \<times> 'v calc) option" where
  "calc_main b ar lit t envs = do {
     x1 \<leftarrow> sync_new b DEFAULT_WINDOW_CAP 5 1;
     x2 \<leftarrow> sync_new b DEFAULT_WINDOW_CAP 5 1;
     (r, st) \<leftarrow> calc_send b ar t (calc_ops lit)
       \<lparr> first = x1, second = x2, to_first = [], to_second = [], val = lit 0, remote_val = lit 0 \<rparr>;
     case r of Done \<Rightarrow> calc_rounds b ar (take 16 envs) st | Blocked \<Rightarrow> Some (Blocked, st)
   }"

end
