(* ===== verification/Sections.thy ===== *)
theory Sections
  imports Mpsc Pumping Peer_Delivery
begin

text \<open>
  The methods of the thread-safe API as calls of an endpoint, for an instance with one thread: each
  section of a method is one low-level call, so that a program of sections is a run of the network of
  two peers. With no guard alive nothing waits for a reply.
\<close>

section \<open>Sections as calls\<close>

fun item_data :: "('s, 'r) recv_ok \<Rightarrow> (seq_no \<times> bool \<times> 'r) list" where
  "item_data (RecvPayload g d) = [(guard_reply_no g, is_holding_lock g, d)]"
| "item_data (RecvReply g d _) = [(guard_reply_no g, is_holding_lock g, d)]"
| "item_data (RecvAck _) = []"

definition item_guards :: "('s, 'r) recv_ok \<Rightarrow> reply_guard list" where
  "item_guards item = (case fst (recv_consume item) of Some (g, _) \<Rightarrow> [g] | None \<Rightarrow> [])"

lemma item_of_raw [simp]:
  "item_data (recv_from_raw r) = raw_data r" "item_guards (recv_from_raw r) = raw_guards r"
  by (cases r; simp add: item_guards_def raw_guards_def guard_new_def)+

text \<open>The guards \<open>gs\<close> are all there are, on an open instance in which no thread waits to pump.\<close>

definition holding :: "reply_guard list \<Rightarrow> ('s, 'r) inner \<Rightarrow> bool" where
  "holding gs x \<longleftrightarrow> sound Release (inner_seq x) \<and> \<not> closed x \<and> \<not> reply_receiver_waiters x
     \<and> 2 < cap_of (inner_seq x) \<and> reserved (inner_seq x) = mset (map guard_reply_no gs)
     \<and> (if is_locked (inner_seq x) then 1 else 0) = length (filter is_holding_lock gs)"

lemma holding_after:
  assumes "holding [] x" and "exec Release c (inner_seq x) = Some (out, s)" and "gains gs (inner_seq x) s"
  shows "holding gs (x\<lparr>inner_seq := s\<rparr>)"
  using assms release_sound [OF _ assms(2)] exec_cap [OF _ assms(2)] sound_core [of Release "inner_seq x"]
  by (auto simp: holding_def gains_def split: if_splits)

lemma idle_replies:
  assumes "holding [] x"
  shows "concurrent_replies_total (inner_seq x) = 0"
proof -
  have core: "core_inv (inner_seq x)" using assms sound_core by (auto simp: holding_def)
  have "size (reserved (inner_seq x)) = concurrent_replies_total (inner_seq x)"
    using core_parts(1,5) [OF core] by (simp add: reserved_def shape_def)
  with assms show ?thesis by (simp add: holding_def)
qed

lemma idle_room:
  assumes "holding [] x" and "\<not> room (inner_seq x) ro"
  shows "full_error (inner_seq x) ro = WaitingForRecv"
  using assms idle_replies [OF assms(1)] by (auto simp: full_error_def room_def holding_def)

lemma exec_release_total:
  assumes "sound Release s"
  obtains out s' where "exec Release c s = Some (out, s')"
  by (rule sound_exec [OF assms, of c]) simp

lemma receive_never_waits:
  assumes "holding [] x"
    and "exec Release (Receive p) (inner_seq x) = Some (out, s)"
  shows "out \<noteq> ReceiveOut (Inl RawWaitingForReply)"
proof
  assume out: "out = ReceiveOut (Inl RawWaitingForReply)"
  have core: "core_inv (inner_seq x)" using assms(1) sound_core by (auto simp: holding_def)
  note shape = core_parts(1) [OF core]
  show False
  proof (cases "seq_part p")
    case None
    then obtain r where "p = Ack r" by (cases p) simp_all
    with assms(2) out show False by (auto simp: receive_ack_eq [OF shape] split: option.splits)
  next
    case (Some n)
    let ?c = "is_seq_cst p" and ?ro = "reply_part p" and ?d = "the (payload p)" and ?s = "inner_seq x"
    from assms(2) out Some have run: "receive_data Release (\<lambda>d. d) ?c n ?ro ?d ?s
        = Some (Inl RawWaitingForReply, s)"
      by (auto simp: receive_eq bind_eq_Some_conv split: prod.splits)
    consider "below_window ?s n" | "\<not> below_window ?s n" "\<not> in_window ?s n" | "in_window ?s n" by blast
    then show False
    proof cases
      case 1
      with run receive_below [OF core 1, of Release "\<lambda>d. d" ?c ?ro ?d] show False
        by (simp split: if_splits)
    next
      case 2
      with run receive_above [OF shape 2, of Release "\<lambda>d. d" ?c ?ro ?d] show False by simp
    next
      case 3
      show False
      proof (cases "deliverable ?s ?c n ?ro")
        case True
        with run receive_hand_views [OF core 3 True, of Release "\<lambda>d. d" ?d] show False by auto
      next
        case False
        have "wait_error ?s ?c n ?ro = RawWaitingForRecv"
          using False idle_room [OF assms(1)] assms(1)
          by (auto simp: wait_error_def deliverable_def holding_def)
        with run receive_wait [OF core 3 False, of Release "\<lambda>d. d" ?d] show False by simp
      qed
    qed
  qed
qed

lemma pump_never_waits:
  assumes "holding [] x" and "exec Release Pump (inner_seq x) = Some (out, s)"
  shows "out \<noteq> PumpOut (Inl WaitingForReply)"
proof
  assume out: "out = PumpOut (Inl WaitingForReply)"
  have core: "core_inv (inner_seq x)" using assms(1) sound_core by (auto simp: holding_def)
  from assms(2) out have run: "try_pump_raw Release (inner_seq x) = Some (Inl WaitingForReply, s)"
    by (auto simp: bind_eq_Some_conv split: prod.splits)
  show False
  proof (cases "recv_head (inner_seq x)")
    case (Occupied n ro c d)
    show False
    proof (cases "room (inner_seq x) ro")
      case False
      with run pump_head(2) [OF core Occupied False, of Release] idle_room [OF assms(1) False]
      show False by simp
    next
      case True
      then have "deliverable (inner_seq x) c n ro"
        using assms(1) pump_head(1) [OF core Occupied] by (auto simp: deliverable_def holding_def)
      from pump_deliver [OF core Occupied this, of Release] run show False by auto
    qed
  qed (use run pump_nothing [OF core_parts(1) [OF core], of Release] in simp_all)
qed


section \<open>Runs of calls\<close>

inductive calls_from :: "'d packet set \<Rightarrow> 'd endpoint \<Rightarrow> 'd endpoint \<Rightarrow> bool" for W where
  stay: "calls_from W e e"
| next_call: "calls_from W e f \<Longrightarrow> from_wire c W \<Longrightarrow> endpoint_step Release c f = Some g \<Longrightarrow> calls_from W e g"

text \<open>The run makes the packets \<open>new\<close>, puts \<open>ps\<close> on the wire and hands over \<open>ds\<close>.\<close>

definition runs_as ::
  "'d packet set \<Rightarrow> 'd packet list \<Rightarrow> 'd packet list \<Rightarrow> (seq_no \<times> bool \<times> 'd) list \<Rightarrow>
   'd endpoint \<Rightarrow> 'd endpoint \<Rightarrow> bool" where
  "runs_as W new ps ds e e' \<longleftrightarrow> calls_from W e e' \<and> numbered e' = numbered e @ new
     \<and> wire_out e' = wire_out e @ ps \<and> handed_out e' = handed_out e @ ds"

lemma runs_as_stay [simp]: "runs_as W [] [] [] e e"
  by (simp add: runs_as_def calls_from.stay)

lemma calls_from_trans:
  "calls_from W f g \<Longrightarrow> calls_from W e f \<Longrightarrow> calls_from W e g"
  by (induction rule: calls_from.induct) (auto intro: calls_from.next_call)

lemma runs_as_trans:
  "runs_as W new ps ds e f \<Longrightarrow> runs_as W new' ps' ds' f g \<Longrightarrow> runs_as W (new @ new') (ps @ ps') (ds @ ds') e g"
  by (auto simp: runs_as_def intro: calls_from_trans)

lemma runs_as_call:
  assumes "exec Release c (inst e) = Some (out, s)" and "from_wire c W"
  shows "runs_as W (made_by out) (emitted out) (out_data out) e (absorb out s e)"
proof -
  have "endpoint_step Release c e = Some (absorb out s e)"
    using assms(1) by (simp add: endpoint_step_def del: exec.simps)
  with assms(2) have "calls_from W e (absorb out s e)"
    by (rule_tac calls_from.next_call [OF calls_from.stay])
  then show ?thesis by (simp add: runs_as_def)
qed

lemma calls_from_reach:
  assumes "calls_from W e g" and "net_reach Release False v (w(i := e))"
    and "W \<subseteq> set (wire_out (w (\<not> i)))"
  shows "net_reach Release False v (w(i := g))"
  using assms
proof (induction rule: calls_from.induct)
  case (next_call e f c g)
  have "from_wire c (set (wire_out (w (\<not> i))))"
    using next_call.hyps(2) next_call.prems(2) by (cases c) auto
  with net_step.call [of Release c "w(i := f)" i g False] next_call.hyps(3)
  have "net_step Release False (w(i := f)) (w(i := g))" by simp
  with next_call.IH [OF next_call.prems] show ?case by (rule net_reach.there)
qed

section \<open>Each section\<close>

definition standing :: "reply_guard list \<Rightarrow> ('d, 'd) inner \<Rightarrow> 'd endpoint \<Rightarrow> bool" where
  "standing gs x e \<longleftrightarrow> inst e = inner_seq x \<and> holding gs x"

definition found_data :: "('d, 'd) recv_ok option \<Rightarrow> (seq_no \<times> bool \<times> 'd) list" where
  "found_data it = (case it of Some item \<Rightarrow> item_data item | None \<Rightarrow> [])"

definition found_guards :: "('d, 'd) recv_ok option \<Rightarrow> reply_guard list" where
  "found_guards it = (case it of Some item \<Rightarrow> item_guards item | None \<Rightarrow> [])"

fun found :: "'e + ('a \<times> bool) \<Rightarrow> 'a option" where
  "found (Inr (item, _)) = Some item"
| "found (Inl _) = None"

lemma found_simps [simp]:
  "found_data None = []" "found_data (Some item) = item_data item"
  "found_guards None = []" "found_guards (Some item) = item_guards item"
  by (simp_all add: found_data_def found_guards_def)

lemma standing_run:
  assumes "standing [] x e"
  obtains out s where "exec Release c (inner_seq x) = Some (out, s)"
proof (rule exec_release_total)
  show "sound Release (inner_seq x)" using assms by (simp add: standing_def holding_def)
qed

lemma standing_after:
  assumes "standing [] x e" and "exec Release c (inner_seq x) = Some (out, s)" and "gains gs (inner_seq x) s"
    and "from_wire c W"
  shows "standing gs (x\<lparr>inner_seq := s\<rparr>) (absorb out s e)"
    and "runs_as W (made_by out) (emitted out) (out_data out) e (absorb out s e)"
  using holding_after [OF _ assms(2,3)] runs_as_call [OF _ assms(4), of e out s] assms(1,2)
  by (simp_all add: standing_def del: exec.simps)

lemma standing_core: "standing gs x e \<Longrightarrow> core_inv (inner_seq x)"
  using sound_core by (auto simp: standing_def holding_def)

lemma receive_section:
  assumes "standing [] x e" and "p \<in> W"
  shows "\<exists>ret ps ws x' e'. sync_try_receive Release p x = Some (ret, ps, ws, x') \<and> ret \<noteq> Inl SyncWaitingForReply
    \<and> runs_as W [] ps (found_data (found ret)) e e' \<and> standing (found_guards (found ret)) x' e'"
proof -
  obtain out s where step: "exec Release (Receive p) (inner_seq x) = Some (out, s)"
    by (rule standing_run [OF assms(1)])
  then obtain q where out: "out = ReceiveOut q"
    and run: "try_receive_raw_and_direct Release (\<lambda>d. d) p (inner_seq x) = Some (q, s)"
    by (auto simp: bind_eq_Some_conv split: prod.splits)
  have open_inst: "\<not> closed x" using assms(1) by (simp add: standing_def holding_def)
  have wire: "from_wire (Receive p) W" using assms(2) by simp
  note after = standing_after [OF assms(1) step receive_gains [OF standing_core [OF assms(1)] run] wire]
  have "holding [] x" using assms(1) by (simp add: standing_def)
  from receive_never_waits [OF this step] out have wait: "q \<noteq> Inl RawWaitingForReply" by simp
  show ?thesis
  proof (cases q)
    case (Inl err)
    with run open_inst wait after out show ?thesis
      by (cases err) (auto simp: sync_try_receive_def try_receive_raw_def intro!: exI [of _ "absorb out s e"])
  next
    case (Inr a)
    obtain r do_pump where a: "a = (r, do_pump)" by (cases a)
    from run open_inst Inr a after out show ?thesis
      by (auto simp: sync_try_receive_def try_receive_raw_def notify_recv_def Let_def
          intro!: exI [of _ "absorb out s e"])
  qed
qed

lemma pump_section:
  assumes "standing [] x e"
  shows "\<exists>ret ws x' e'. sync_pump Release x = Some (Return ret, ws, x')
    \<and> runs_as W [] [] (found_data (map_option fst ret)) e e' \<and> standing (found_guards (map_option fst ret)) x' e'
    \<and> (ret \<noteq> None \<longrightarrow> length (filter is_occupied (recv_window (inner_seq x')))
          < length (filter is_occupied (recv_window (inner_seq x))))"
proof -
  obtain out s where step: "exec Release Pump (inner_seq x) = Some (out, s)"
    by (rule standing_run [OF assms(1)])
  then obtain q where out: "out = PumpOut q" and run: "try_pump_raw Release (inner_seq x) = Some (q, s)"
    by (auto simp: bind_eq_Some_conv split: prod.splits)
  have idle: "\<not> reply_receiver_waiters x" and held: "holding [] x"
    using assms(1) by (simp_all add: standing_def holding_def)
  note after = standing_after [OF assms(1) step pump_gains [OF standing_core [OF assms(1)] run], of W]
  from pump_never_waits [OF held step] out have wait: "q \<noteq> Inl WaitingForReply" by simp
  show ?thesis
  proof (cases q)
    case (Inl err)
    with run idle wait after out show ?thesis
      by (cases err) (auto simp: sync_pump_def pump_loop_def intro!: exI [of _ "absorb out s e"])
  next
    case (Inr a)
    obtain r do_pump where a: "a = (r, do_pump)" by (cases a)
    from run idle Inr a after out pump_occupied [of Release "inner_seq x"] show ?thesis
      by (auto simp: sync_pump_def pump_loop_def notify_recv_def Let_def intro!: exI [of _ "absorb out s e"])
  qed
qed

lemma drop_section:
  assumes "standing [g] x e"
  shows "\<exists>ps ws x' e'. sync_guard_drop Release g x = Some (ps, ws, x') \<and> runs_as W [] ps [] e e'
    \<and> standing [] x' e' \<and> recv_window (inner_seq x') = recv_window (inner_seq x)"
proof -
  let ?r = "guard_reply_no g" and ?u = "is_holding_lock g"
  from assms have held: "holding [g] x" and inst: "inst e = inner_seq x" by (simp_all add: standing_def)
  then have snd: "sound Release (inner_seq x)" and issued: "?r \<in># reserved (inner_seq x)"
    and unlock: "unlock_ok Release ?u (inner_seq x)"
    by (auto simp: holding_def unlock_ok_def)
  from redeem_views(1) [OF this] obtain s where run: "ack_raw Release ?r ?u (inner_seq x) = Some (True, [Ack ?r], s)"
    and s: "sound Release s" "reserved s = reserved (inner_seq x) - {#?r#}"
      "is_locked s = (is_locked (inner_seq x) \<and> \<not> ?u)" by blast
  have step: "exec Release (AckRaw ?r ?u) (inner_seq x) = Some (AckOut (Some (Ack ?r)), s)"
    using run by (auto simp: ack_raw_def bind_eq_Some_conv split: option.splits)
  from runs_as_call [of "AckRaw ?r ?u" e, OF step [folded inst]]
  have "runs_as W [] [Ack ?r] [] e (absorb (AckOut (Some (Ack ?r))) s e)" by simp
  moreover have "holding [] (x\<lparr>inner_seq := s\<rparr>)"
    using held s exec_cap [OF sound_core [OF snd] step] by (auto simp: holding_def split: if_splits)
  moreover have "recv_window s = recv_window (inner_seq x)"
    using ack_same [OF run] by (simp add: same_recv_def)
  ultimately show ?thesis
    using run held by (auto simp: sync_guard_drop_def notify_reply_def standing_def holding_def
        intro!: exI [of _ "absorb (AckOut (Some (Ack ?r))) s e"])
qed

lemma service_section:
  assumes "standing [] x e"
  shows "\<exists>left ps x' e'. sync_service Release t x = Some (left, ps, x') \<and> runs_as W [] ps [] e e'
    \<and> standing [] x' e'"
proof -
  obtain out s where step: "exec Release (ServiceAll t) (inner_seq x) = Some (out, s)"
    by (rule standing_run [OF assms(1)])
  then obtain ps where out: "out = ServiceOut ps" and run: "service_loop Release t None (inner_seq x) = Some (ps, s)"
    by (auto simp: bind_eq_Some_conv split: prod.splits)
  have "gains [] (inner_seq x) s"
    by (rule send_gains [OF standing_core [OF assms(1)] step]) blast
  from standing_after [OF assms(1) step this, of W] run out show ?thesis
    by (auto simp: sync_service_def service_def i64_sub_def intro!: exI [of _ "absorb out s e"])
qed

text \<open>The next \<open>k\<close> packets find their slots free.\<close>

definition free_ahead :: "nat \<Rightarrow> ('s, 'r) seqex \<Rightarrow> bool" where
  "free_ahead k s \<longleftrightarrow> k \<le> cap_of s
     \<and> (\<forall>i < k. send_window s ! slot (cap_of s) (next_send_seq_no s + of_nat i) = None)"

lemma free_ahead_push:
  assumes "free_ahead (Suc k) s" and "shape s"
  shows "free_ahead k (push_entry en s)"
proof -
  let ?n = "next_send_seq_no s"
  have at: "slot (cap_of s) (?n + 1 + of_nat i) \<noteq> slot (cap_of s) ?n"
    and free: "send_window s ! slot (cap_of s) (?n + 1 + of_nat i) = None" if "i < k" for i
  proof -
    have eq: "?n + 1 + of_nat i = ?n + of_nat (Suc i)" by simp
    show "slot (cap_of s) (?n + 1 + of_nat i) \<noteq> slot (cap_of s) ?n"
      and "send_window s ! slot (cap_of s) (?n + 1 + of_nat i) = None"
      unfolding eq using window_ring.slot_ahead [of "cap_of s" "Suc i" ?n] assms that
      by (auto simp: free_ahead_def shape_def simp del: of_nat_Suc)
  qed
  have "send_window (push_entry en s) ! slot (cap_of s) (?n + 1 + of_nat i) = None" if "i < k" for i
    using free [OF that] by (simp add: push_entry_def nth_list_update_neq [OF at [OF that, symmetric]])
  then show ?thesis using assms(1) by (simp add: free_ahead_def)
qed

lemma free_ahead_room:
  assumes "standing [] x e" and "free_ahead (Suc k) (inner_seq x)"
  shows "room (inner_seq x) None"
proof -
  have "holding [] x" using assms(1) by (simp add: standing_def)
  moreover from this have "concurrent_replies_total (inner_seq x) = 0" by (rule idle_replies)
  moreover have "\<not> blocked (inner_seq x) None 0"
    using assms(2) by (auto simp: free_ahead_def blocked_def)
  ultimately show ?thesis by (simp add: room_def holding_def)
qed

lemma send_section:
  assumes "standing [] x e" and "free_ahead (Suc k) (inner_seq x)"
  shows "\<exists>l q x' e'. sync_send Release t c d x = Some (Return (Inr l), d, [q], x')
    \<and> is_seq_cst q = c \<and> payload q = Some d \<and> runs_as W [q] [q] [] e e' \<and> standing [] x' e'
    \<and> free_ahead k (inner_seq x')"
proof -
  let ?s = "inner_seq x"
  let ?e = "new_entry t c None d ?s"
  let ?s' = "push_entry ?e ?s" and ?out = "TrySendOut (Inr (to_packet ?e)) :: ('a, 'a) call_output"
  note core = standing_core [OF assms(1)]
  have run: "try_send_direct Release t c d ?s = Some (Inr (to_packet ?e), ?s')"
    using free_ahead_room [OF assms] try_send_direct_eq [OF core_parts(1) [OF core], of Release t c d]
    by (simp add: time_ok_def Let_def)
  then have step: "exec Release (TrySend t c d) ?s = Some (?out, ?s')" by simp
  have "gains [] ?s ?s'" by (rule send_gains [OF core step]) blast
  from standing_after [OF assms(1) step this, of W] free_ahead_push [OF assms(2) core_parts(1) [OF core]]
  show ?thesis
    using run assms(1)
    by (auto simp: sync_send_def send_if_open_def send_loop_def try_send_def Let_def standing_def holding_def
        new_entry_def intro!: exI [of _ "absorb ?out ?s' e"])
qed

lemma new_standing:
  assumes "window_ring cap" and "2 < cap" and "sync_new b cap iv n = Some x"
  shows "standing [] x (new_endpoint (inner_seq x))" and "free_ahead cap (inner_seq x)"
    and "new_seqex b cap iv n = Some (inner_seq x)"
proof -
  show new: "new_seqex b cap iv n = Some (inner_seq x)"
    using assms(3) by (auto simp: sync_new_def bind_eq_Some_conv)
  have cap: "cap_of (inner_seq x) = cap" and empty: "send_window (inner_seq x) = replicate cap None"
    using sym [OF new] assms(2) by (simp_all add: new_seqex_Some [of cap b iv n])
  then show "free_ahead cap (inner_seq x)"
    using window_ring.slot_less [OF assms(1)] by (auto simp: free_ahead_def)
  have "sound Release (inner_seq x)" and "\<not> is_locked (inner_seq x)" and "reserved (inner_seq x) = {#}"
    using new_sess_inv [OF assms(1) new, of Release] new_seqex_views(2,4) [OF _ new] assms(2)
    by (simp_all add: sess_inv_def new_session_def)
  then show "standing [] x (new_endpoint (inner_seq x))"
    using assms(2,3) cap by (auto simp: standing_def holding_def new_endpoint_def sync_new_def bind_eq_Some_conv)
qed

end
