(* ===== verification/Calculator_Safety.thy ===== *)
theory Calculator_Safety
  imports Calculator Sections
begin

text \<open>
  The calculator never panics and never waits, and whatever the channels drop, the remote value is
  what the first operations make of zero. Every section of the two instances is a call on one of two
  endpoints, so the guarantees for a stream of SeqCst packets apply.
\<close>

section \<open>Loops whose body acknowledges\<close>

definition data_in :: "(seq_no \<times> bool \<times> 'd) list \<Rightarrow> 'd list" where
  "data_in ds = map (\<lambda>(m, c, d). d) ds"

lemma data_in_simps [simp]: "data_in [] = []" "data_in (ds @ es) = data_in ds @ data_in es"
  by (simp_all add: data_in_def)

text \<open>The body folds the data of an item into its variable and uses up the guard.\<close>

locale acking_loop =
  fixes body :: "('d, 'd, 'u) loop_body" and f :: "'d \<Rightarrow> 'u \<Rightarrow> 'u"
  assumes answers: "standing (item_guards item) x e \<Longrightarrow>
    \<exists>ps x' e'. body item u x = Some (ps, fold f (data_in (item_data item)) u, x') \<and> runs_as W [] ps [] e e'
      \<and> standing [] x' e' \<and> recv_window (inner_seq x') = recv_window (inner_seq x)"
begin

lemma for_each_ends:
  assumes "standing (found_guards (iter_first it)) x e" and "iter_blocking it"
  shows "\<exists>ps ds x' e'. for_each Release body it u x
      = Some (Done, ps, fold f (data_in (found_data (iter_first it) @ ds)) u, x')
    \<and> runs_as W [] ps ds e e' \<and> standing [] x' e'"
  using assms
proof (induction "length (filter is_occupied (recv_window (inner_seq x)))
    + (if iter_first it = None then 0 else 1)" arbitrary: it u x e rule: less_induct)
  case less
  show ?case
  proof (cases "iter_first it")
    case (Some item)
    let ?it = "it\<lparr>iter_first := None\<rparr>"
    from less.prems Some have "standing (item_guards item) x e" by simp
    from answers [OF this] obtain ps x1 e1 where
      body: "body item u x = Some (ps, fold f (data_in (item_data item)) u, x1)"
      and run: "runs_as W [] ps [] e e1" and after: "standing [] x1 e1"
      and kept: "recv_window (inner_seq x1) = recv_window (inner_seq x)" by blast
    obtain ps' ds x2 e2 where
      loop: "for_each Release body ?it (fold f (data_in (item_data item)) u) x1
        = Some (Done, ps', fold f (data_in ds) (fold f (data_in (item_data item)) u), x2)"
      and run2: "runs_as W [] ps' ds e1 e2" and end2: "standing [] x2 e2"
      using less.hyps [of x1 ?it e1 "fold f (data_in (item_data item)) u"] after kept less.prems(2) Some
      by auto
    from runs_as_trans [OF run run2] end2 body loop Some show ?thesis
      by (subst for_each.simps) (auto simp: recv_iter_next_def)
  next
    case None
    from less.prems None have idle: "standing [] x e" by simp
    show ?thesis
    proof (cases "iter_live it")
      case False
      with None idle show ?thesis
        by (subst for_each.simps) (auto simp: recv_iter_next_def intro!: exI [of _ e] exI [of _ "[]"])
    next
      case True
      obtain ret ws x1 e1 where pump: "sync_pump Release x = Some (Return ret, ws, x1)"
        and run: "runs_as W [] [] (found_data (map_option fst ret)) e e1"
        and after: "standing (found_guards (map_option fst ret)) x1 e1"
        and fewer: "ret \<noteq> None \<Longrightarrow> length (filter is_occupied (recv_window (inner_seq x1)))
          < length (filter is_occupied (recv_window (inner_seq x)))"
        using pump_section [OF idle, of W] by blast
      show ?thesis
      proof (cases ret)
        case N: None
        with pump run after None True less.prems(2) show ?thesis
          by (subst for_each.simps) (auto simp: recv_iter_next_def recv_iter_pumped_def
              intro!: exI [of _ e1] exI [of _ "[]"])
      next
        case (Some a)
        obtain item p where a: "a = (item, p)" by (cases a)
        define it1 where "it1 = (if p then it else it\<lparr>iter_live := False\<rparr>)"
        have it1: "iter_first it1 = None" "iter_blocking it1"
          using None less.prems(2) by (simp_all add: it1_def)
        from after Some a have "standing (item_guards item) x1 e1" by simp
        from answers [OF this] obtain ps x2 e2 where
          body: "body item u x1 = Some (ps, fold f (data_in (item_data item)) u, x2)"
          and run1: "runs_as W [] ps [] e1 e2" and after1: "standing [] x2 e2"
          and kept: "recv_window (inner_seq x2) = recv_window (inner_seq x1)" by blast
        obtain ps' ds x3 e3 where
          loop: "for_each Release body it1 (fold f (data_in (item_data item)) u) x2
            = Some (Done, ps', fold f (data_in ds) (fold f (data_in (item_data item)) u), x3)"
          and run2: "runs_as W [] ps' ds e2 e3" and end2: "standing [] x3 e3"
          using less.hyps [of x2 it1 e2 "fold f (data_in (item_data item)) u"] after1 kept fewer Some it1 None
          by auto
        have nxt: "recv_iter_next Release it x = Some (Return (Some item, it1), ws, x1)"
          using pump None True less.prems(2) Some a by (simp add: recv_iter_next_def recv_iter_pumped_def it1_def)
        from runs_as_trans [OF run runs_as_trans [OF run1 run2]] Some a
        have "runs_as W [] (ps @ ps') (item_data item @ ds) e e3" by simp
        with end2 body loop nxt None show ?thesis
          by (subst for_each.simps) (auto intro!: exI [of _ "ps @ ps'"] exI [of _ "item_data item @ ds"])
      qed
    qed
  qed
qed

lemma receive_all_ends:
  assumes "standing [] x e" and "p \<in> W"
  shows "\<exists>ps ds x' e'. receive_all_loop Release body p u x = Some (Done, ps, fold f (data_in ds) u, x')
    \<and> runs_as W [] ps ds e e' \<and> standing [] x' e'"
proof -
  obtain ret ps ws x1 e1 where recv: "sync_try_receive Release p x = Some (ret, ps, ws, x1)"
    and wait: "ret \<noteq> Inl SyncWaitingForReply"
    and run: "runs_as W [] ps (found_data (found ret)) e e1" and after: "standing (found_guards (found ret)) x1 e1"
    using receive_section [OF assms] by blast
  obtain ret' where ret': "receive_match ret = Some ret'" and same: "found ret' = found ret"
    using wait by (cases ret rule: receive_match.cases) auto
  have it: "iter_first (sync_receive_all ret') = found ret" "iter_blocking (sync_receive_all ret')"
    using same by (cases ret'; auto simp: sync_receive_all_def recv_iter_new_def)+
  obtain ps' ds x2 e2 where "for_each Release body (sync_receive_all ret') u x1
      = Some (Done, ps', fold f (data_in (found_data (found ret) @ ds)) u, x2)"
    and run2: "runs_as W [] ps' ds e1 e2" and "standing [] x2 e2"
    using for_each_ends [of "sync_receive_all ret'" x1 e1 u W] after it by auto
  with recv ret' runs_as_trans [OF run run2] show ?thesis
    by (auto simp: receive_all_loop_def intro!: exI [of _ "found_data (found ret) @ ds"])
qed

end

interpretation calc_loop: acking_loop "calc_body Release ar" "apply_op ar" for ar :: "'v arith"
proof
  fix item :: "('v op, 'v op) recv_ok" and x :: "'v side" and e v
    and W :: "'v op packet set"
  assume at: "standing (item_guards item) x e"
  show "\<exists>ps x' e'. calc_body Release ar item v x = Some (ps, fold (apply_op ar) (data_in (item_data item)) v, x')
      \<and> runs_as W [] ps [] e e' \<and> standing [] x' e'
      \<and> recv_window (inner_seq x') = recv_window (inner_seq x)"
  proof (cases "fst (recv_consume item)")
    case None
    with at show ?thesis
      by (cases item) (auto simp: calc_body_def item_guards_def intro!: exI [of _ e])
  next
    case (Some a)
    obtain g d where a: "a = (g, d)" by (cases a)
    with Some at have "standing [g] x e" by (simp add: item_guards_def)
    from drop_section [OF this, of W] Some a show ?thesis
      by (cases item) (auto simp: calc_body_def data_in_def)
  qed
qed

section \<open>The program as a run of two peers\<close>

lemma calc_receive_ends:
  assumes "standing [] x e" and "set recv \<subseteq> W"
  shows "\<exists>ps ds x' e'. calc_receive Release ar coin recv v x
      = Some (Done, ps, fold (apply_op ar) (data_in ds) v, x')
    \<and> runs_as W [] ps ds e e' \<and> standing [] x' e'"
  using assms
proof (induction recv arbitrary: coin v x e)
  case Nil
  then show ?case by (auto intro!: exI [of _ e] exI [of _ "[]"])
next
  case (Cons p rest)
  show ?case
  proof (cases "coin 0")
    case True
    with Cons show ?thesis by simp
  next
    case False
    from Cons.prems obtain ps ds x1 e1 where
      loop: "receive_all_loop Release (calc_body Release ar) p v x
        = Some (Done, ps, fold (apply_op ar) (data_in ds) v, x1)"
      and run: "runs_as W [] ps ds e e1" and after: "standing [] x1 e1"
      using calc_loop.receive_all_ends [of x e p W ar v] by auto
    have "set rest \<subseteq> W" using Cons.prems(2) by simp
    from Cons.IH [OF after this] obtain ps' ds' x2 e2 where
      others: "calc_receive Release ar (coin \<circ> Suc) rest (fold (apply_op ar) (data_in ds) v) x1
        = Some (Done, ps', fold (apply_op ar) (data_in ds') (fold (apply_op ar) (data_in ds) v), x2)"
      and run2: "runs_as W [] ps' ds' e1 e2" and end2: "standing [] x2 e2" by blast
    from False loop others end2 runs_as_trans [OF run run2] show ?thesis
      by (auto intro!: exI [of _ "ds @ ds'"])
  qed
qed

text \<open>
  \<open>played\<close>: the state is that of two peers, of which only the first makes packets, one for each of
  \<open>ops\<close>; the values are what the operations make of \<open>z\<close>.
\<close>

definition played :: "'v arith \<Rightarrow> 'v op net \<Rightarrow> 'v op list \<Rightarrow> 'v \<Rightarrow> 'v calc \<Rightarrow> 'v op net \<Rightarrow> bool" where
  "played ar w0 ops z st w \<longleftrightarrow> net_reach Release False w0 w
     \<and> standing [] (first st) (w False) \<and> standing [] (second st) (w True)
     \<and> set (to_first st) \<subseteq> set (wire_out (w True)) \<and> set (to_second st) \<subseteq> set (wire_out (w False))
     \<and> numbered (w True) = [] \<and> map payload (numbered (w False)) = map Some ops
     \<and> list_all is_seq_cst (numbered (w False))
     \<and> val st = fold (apply_op ar) (data_in (handed_out (w False))) (fold (apply_op ar) ops z)
     \<and> remote_val st = fold (apply_op ar) (data_in (handed_out (w True))) z"

lemma runs_as_net:
  assumes "runs_as (set (wire_out (w (\<not> i)))) new ps ds (w i) e" and "net_reach Release False w0 w"
  shows "net_reach Release False w0 (w(i := e))"
  using calls_from_reach [of "set (wire_out (w (\<not> i)))" "w i" e w0 w i] assms by (simp add: runs_as_def)

lemma calc_send_ends:
  assumes "played ar w0 ops z st w" and "free_ahead (length qs) (inner_seq (first st))"
    and "handed_out (w False) = []"
  shows "\<exists>st' w'. calc_send Release ar t qs st = Some (Done, st') \<and> played ar w0 (ops @ qs) z st' w'"
  using assms
proof (induction qs arbitrary: t st ops w)
  case Nil
  then show ?case by auto
next
  case (Cons p rest)
  from Cons.prems(1) have at: "standing [] (first st) (w False)" by (simp add: played_def)
  from Cons.prems(2) have free: "free_ahead (Suc (length rest)) (inner_seq (first st))" by simp
  obtain l q x e where send: "sync_send Release (t 0) True p (first st) = Some (Return (Inr l), p, [q], x)"
    and q: "is_seq_cst q" "payload q = Some p"
    and run: "runs_as (set (wire_out (w (\<not> False)))) [q] [q] [] (w False) e"
    and after: "standing [] x e" "free_ahead (length rest) (inner_seq x)"
    using send_section [OF at free, of "t 0" True p "set (wire_out (w (\<not> False)))"] by auto
  let ?st = "st\<lparr>first := x, to_second := to_second st @ [q], val := apply_op ar p (val st)\<rparr>"
  let ?w = "w(False := e)"
  have now: "played ar w0 (ops @ [p]) z ?st ?w"
    using Cons.prems(1,3) run after q runs_as_net [OF run] by (auto simp: played_def runs_as_def)
  have "free_ahead (length rest) (inner_seq (first ?st))" and "handed_out (?w False) = []"
    using after run Cons.prems(3) by (simp_all add: runs_as_def)
  from Cons.IH [OF now this, of "t \<circ> Suc"] obtain st' w' where
    "calc_send Release ar (t \<circ> Suc) rest ?st = Some (Done, st')" and "played ar w0 ((ops @ [p]) @ rest) z st' w'"
    by blast
  with send show ?case by auto
qed

lemma calc_round_ends:
  assumes "played ar w0 ops z st w"
  shows "\<exists>st' w'. calc_round Release ar env st = Some (Done, st') \<and> played ar w0 ops z st' w'"
proof -
  obtain coin1 coin2 t1 t2 where env: "env = (coin1, coin2, t1, t2)" by (cases env)
  from assms have at: "standing [] (first st) (w False)" "standing [] (second st) (w True)"
    and wires: "set (to_first st) \<subseteq> set (wire_out (w True))" "set (to_second st) \<subseteq> set (wire_out (w False))"
    and reach: "net_reach Release False w0 w" by (simp_all add: played_def)
  let ?W1 = "set (wire_out (w True))"
  obtain ps2 ds1 x1 e1 where recv1: "calc_receive Release ar coin1 (to_first st) (val st) (first st)
      = Some (Done, ps2, fold (apply_op ar) (data_in ds1) (val st), x1)"
    and run1: "runs_as ?W1 [] ps2 ds1 (w False) e1" and x1: "standing [] x1 e1"
    using calc_receive_ends [OF at(1) wires(1), of ar coin1 "val st"] by blast
  let ?W2 = "set (wire_out e1)"
  have "set (to_second st @ ps2) \<subseteq> ?W2" using run1 wires(2) by (auto simp: runs_as_def)
  from calc_receive_ends [OF at(2) this, of ar coin2 "remote_val st"]
  obtain ps1 ds2 x2 e2 where recv2: "calc_receive Release ar coin2 (to_second st @ ps2) (remote_val st) (second st)
      = Some (Done, ps1, fold (apply_op ar) (data_in ds2) (remote_val st), x2)"
    and run2: "runs_as ?W2 [] ps1 ds2 (w True) e2" and x2: "standing [] x2 e2" by blast
  obtain l1 qs2 x3 e3 where serve1: "sync_service Release t1 x1 = Some (l1, qs2, x3)"
    and run3: "runs_as (set (wire_out e2)) [] qs2 [] e1 e3" and x3: "standing [] x3 e3"
    using service_section [OF x1] by blast
  obtain l2 qs1 x4 e4 where serve2: "sync_service Release t2 x2 = Some (l2, qs1, x4)"
    and run4: "runs_as (set (wire_out e3)) [] qs1 [] e2 e4" and x4: "standing [] x4 e4"
    using service_section [OF x2] by blast
  let ?w1 = "w(False := e1)" let ?w2 = "?w1(True := e2)" let ?w3 = "?w2(False := e3)" let ?w4 = "?w3(True := e4)"
  have "net_reach Release False w0 ?w1" using runs_as_net [of w False] run1 reach by simp
  then have "net_reach Release False w0 ?w2" using runs_as_net [of ?w1 True] run2 by simp
  then have "net_reach Release False w0 ?w3" using runs_as_net [of ?w2 False] run3 by simp
  then have "net_reach Release False w0 ?w4" using runs_as_net [of ?w3 True] run4 by simp
  then show ?thesis
    using assms env recv1 recv2 serve1 serve2 run1 run2 run3 run4 x3 x4
    by (auto simp: calc_round_def played_def runs_as_def intro!: exI [of _ ?w4])
qed

lemma calc_rounds_end:
  "played ar w0 ops z st w \<Longrightarrow>
   \<exists>st' w'. calc_rounds Release ar envs st = Some (Done, st') \<and> played ar w0 ops z st' w'"
proof (induction envs arbitrary: st w)
  case (Cons env envs)
  obtain st1 w1 where "calc_round Release ar env st = Some (Done, st1)" and "played ar w0 ops z st1 w1"
    using calc_round_ends [OF Cons.prems] by blast
  with Cons.IH show ?case by simp
qed auto

text \<open>What arrives is a prefix of what was sent, and nothing arrives at the sender.\<close>

lemma played_values:
  assumes "window_ring cap" and "new_seqex b cap iv n = Some s" and "played ar (new_net s s) ops z st w"
    and "length ops \<le> 2 ^ 31"
  obtains j where "val st = fold (apply_op ar) ops z" and "remote_val st = fold (apply_op ar) (take j ops) z"
proof
  from assms(3) have made: "map payload (numbered (w False)) = map Some ops" "numbered (w True) = []"
    and cst: "list_all is_seq_cst (numbered (w False))" and reach: "net_reach Release False (new_net s s) w"
    by (simp_all add: played_def)
  have "length (numbered (w False)) = length ops"
    using arg_cong [OF made(1), of length] by simp
  with made(2) cst assms(4) have young: "young w" and all: "all_seq_cst w"
    by (auto simp: young_def all_seq_cst_def list_all_iff all_bool_eq split: bool.splits)
  have "net_reach Release True (new_net s s) w"
    by (rule seq_cst_once [OF reach new_net_inv [OF assms(1,2,1,2)] young all])
  from stream_prefix [OF reach_inv [OF assms(1,2,1,2) this young] all]
  have prefix: "data_in (handed_out (w i)) = map data_of (take (length (handed_out (w i))) (numbered (w (\<not> i))))" for i
    by (simp add: data_in_def)
  have "map data_of (numbered (w False)) = ops"
    using arg_cong [OF made(1), of "map the"] by (simp add: data_of_def [abs_def] comp_def)
  with prefix [of False] prefix [of True] made(2) assms(3)
  show "val st = fold (apply_op ar) ops z"
    and "remote_val st = fold (apply_op ar) (take (length (handed_out (w True))) ops) z"
    by (auto simp: played_def take_map)
qed

section \<open>Properties\<close>

text \<open>
  C10. The calculator example. In a release build, whatever packets the channels drop and whatever the
  clocks say, \<^verbatim>\<open>main\<close> reaches its assertion: no call panics and nothing waits for
  ever. Its own value is what the five operations make of zero, and the remote value is what the
  first few of them do, in order: the assertion holds once all five have arrived.
\<close>

theorem calculator_follows:
  "\<exists>st j. calc_main Release ar lit t envs = Some (Done, st) \<and> j \<le> 5
     \<and> val st = fold (apply_op ar) (calc_ops lit) (lit 0)
     \<and> remote_val st = fold (apply_op ar) (take j (calc_ops lit)) (lit 0)"
proof -
  have ring: "window_ring 64" by (rule default_ring.window_ring_axioms)
  obtain x1 :: "('a op, 'a op) inner" where new: "sync_new Release DEFAULT_WINDOW_CAP 5 1 = Some x1"
    by (simp add: sync_new_def DEFAULT_WINDOW_CAP_def new_seqex_Some)
  then have x1: "sync_new Release 64 5 1 = Some x1" by (simp add: DEFAULT_WINDOW_CAP_def)
  note fresh = new_standing [OF ring _ x1, simplified]
  define s0 where "s0 = inner_seq x1"
  let ?st = "\<lparr> first = x1, second = x1, to_first = [], to_second = [], val = lit 0, remote_val = lit 0 \<rparr>"
  have start: "played ar (new_net s0 s0) [] (lit 0) ?st (new_net s0 s0)"
    using fresh(1) by (simp add: played_def new_net_def new_endpoint_def s0_def net_reach.here)
  have "free_ahead (length (calc_ops lit)) (inner_seq (first ?st))"
    using fresh(2) by (simp add: free_ahead_def calc_ops_def)
  from calc_send_ends [OF start this, of t] obtain st1 w1 where
    sends: "calc_send Release ar t (calc_ops lit) ?st = Some (Done, st1)"
    and "played ar (new_net s0 s0) ([] @ calc_ops lit) (lit 0) st1 w1"
    by (auto simp: new_net_def new_endpoint_def)
  from calc_rounds_end [OF this(2), of "take 16 envs"] obtain st w where
    rounds: "calc_rounds Release ar (take 16 envs) st1 = Some (Done, st)"
    and played: "played ar (new_net s0 s0) (calc_ops lit) (lit 0) st w" by auto
  have main: "calc_main Release ar lit t envs = Some (Done, st)"
    using new sends rounds by (simp add: calc_main_def)
  have "length (calc_ops lit) \<le> 2 ^ 31" by (simp add: calc_ops_def)
  from played_values [OF ring fresh(3) [folded s0_def] played this] obtain j where
    "val st = fold (apply_op ar) (calc_ops lit) (lit 0)"
    and "remote_val st = fold (apply_op ar) (take j (calc_ops lit)) (lit 0)" .
  moreover have "take j (calc_ops lit) = take (min 5 j) (calc_ops lit)"
    by (simp add: min_def calc_ops_def)
  ultimately show ?thesis using main by (intro exI [of _ st] exI [of _ "min 5 j"]) simp
qed

text \<open>
  Two runs over the integers: when nothing is dropped the assertion holds, and when every packet is
  dropped in all sixteen turns it fails.
\<close>

definition int_arith :: "int arith" where
  "int_arith = \<lparr> f_add = (+), f_sub = (-), f_mul = (*), f_div = (div), f_rem = (mod) \<rparr>"

definition calc_outcome :: "(nat \<Rightarrow> bool) \<Rightarrow> (loop_end \<times> int \<times> int) option" where
  "calc_outcome coin = map_option (\<lambda>(r, st). (r, val st, remote_val st))
     (calc_main Release int_arith int (\<lambda>_. 0) (replicate 16 (coin, coin, 5, 5)))"

lemma calculator_runs:
  "calc_outcome (\<lambda>_. False) = Some (Done, 4, 4)" "calc_outcome (\<lambda>_. True) = Some (Done, 4, 0)"
  by code_simp+

end
