(* ===== verification/Progress.thy ===== *)
theory Progress
  imports Peer_Delivery
begin

text \<open>
  While both peers have room for one more packet, nothing they made is stuck: from any state the
  network can reach, some further calls hand over and acknowledge every packet.
\<close>

section \<open>Replies settle what they answer\<close>

definition replies_done :: "'d party \<Rightarrow> 'd party \<Rightarrow> bool" where
  "replies_done x y \<longleftrightarrow> (\<forall>j p m. made y j = Some p \<longrightarrow> reply_part p = Some m \<longrightarrow> j \<in> handed x \<longrightarrow> m \<notin> unanswered x)"

lemma replies_done_step:
  assumes "party_step n x y x'" and "agree n x y" and "agree n y x" and "replies_done x y" and "replies_done y x"
  shows "replies_done x' y \<and> replies_done y x'"
proof -
  have kept: "kept x y" "kept y x" and once: "answers_once x y" using assms(2,3) by (simp_all add: agree_def)
  have old: "reply_part p \<noteq> Some m" if "made x m = None" "made y j = Some p" for j p m
    using answersD(5) [OF once that(2), of m] keptD(2) [OF kept(1), of m] that(1) by blast
  have new: "m \<notin> handed y" if "made x m = None" for m
    using keptD(2) [OF kept(1), of m] that by blast
  show ?thesis
    using assms(1,4,5) old new
    by (induction rule: party_step.induct) (auto simp: replies_done_def elem_set)
qed

section \<open>Moves\<close>

definition fits :: "seq_no \<Rightarrow> 'd net \<Rightarrow> bool" where
  "fits n w \<longleftrightarrow> net_inv n w \<and> young w \<and> (\<forall>i. set (numbered (w i)) \<subseteq> set (wire_out (w i))
     \<and> replies_done (party_of n (w i)) (party_of n (w (\<not> i))) \<and> 2 < cap_of (inst (w i)))"

lemma fitsD:
  assumes "fits n w"
  shows "net_inv n w" and "young w" and "linked n (w i) (w (\<not> i))" and "linked n (w (\<not> i)) (w i)"
    and "set (numbered (w i)) \<subseteq> set (wire_out (w i))"
    and "replies_done (party_of n (w i)) (party_of n (w (\<not> i)))" and "2 < cap_of (inst (w i))"
    and "core_inv (inst (w i))"
  using assms net_invD [of n w i] linkedD(4) [of n "w i" "w (\<not> i)"] by (simp_all add: fits_def)

lemma made_emitted: "set (made_by out) \<subseteq> set (emitted out)"
  by (cases out rule: made_by.cases) auto

lemma fits_step:
  assumes "fits n w" and step: "endpoint_step b c (w i) = Some e"
    and wire: "from_wire c (set (wire_out (w (\<not> i))))" and fresh: "fresh_call c (inst (w i))"
    and bound: "length (numbered e) \<le> 2 ^ 31"
  shows "fits n (w(i := e))"
proof -
  note fit = fitsD [OF assms(1)]
  from step obtain out s where "exec b c (inst (w i)) = Some (out, s)" and e: "e = absorb out s (w i)"
    by (auto simp: endpoint_step_def bind_eq_Some_conv)
  then have run: "exec Release c (inst (w i)) = Some (out, s)"
    using agreesD [OF exec_mono] by (cases b) auto
  have young: "young (w(i := e))" using fit(2) bound by (simp add: young_def)
  have "net_step b True w (w(i := e))" using step wire fresh by (simp add: net_step.call)
  from net_step_inv [OF this fit(1) young] have inv: "net_inv n (w(i := e))" .
  have "party_step n (party_of n (w i)) (party_of n (w (\<not> i))) (party_of n e)"
    using endpoint_simulates [OF fit(3,4) step wire fresh bound] by simp
  from replies_done_step [OF this linkedD(3) [OF fit(3)] linkedD(3) [OF fit(4)] fit(6)] fit(6) [of "\<not> i"]
  have "replies_done (party_of n e) (party_of n (w (\<not> i)))" "replies_done (party_of n (w (\<not> i))) (party_of n e)"
    by simp_all
  moreover have "set (numbered e) \<subseteq> set (wire_out e)" using fit(5) [of i] made_emitted [of out] e by auto
  moreover have "2 < cap_of (inst e)" using fit(7) [of i] exec_cap [OF fit(8) run] e by simp
  ultimately show ?thesis using inv young fit(5,6,7) by (auto simp: fits_def all_bool_eq split: bool.splits)
qed

lemma net_reach_trans: "net_reach b once v u \<Longrightarrow> net_reach b once w v \<Longrightarrow> net_reach b once w u"
  by (induction rule: net_reach.induct) (auto intro: net_reach.there)

lemma reach_fits:
  assumes "net_reach b True w w'" and "fits n w" and "young w'"
  shows "fits n w'"
  using assms
proof (induction rule: net_reach.induct)
  case (there w v u)
  have "young v" by (rule young_before [OF there(2,5)])
  with there have "fits n v" by simp
  from there(2) show ?case
  proof cases
    case (call c i e)
    have "length (numbered e) \<le> 2 ^ 31" using there(5) call(1) by (metis fun_upd_same young_def)
    from fits_step [OF \<open>fits n v\<close> call(2,3) _ this] call(1,4) show ?thesis by (simp del: fun_upd_apply)
  qed
qed simp

lemma new_net_fits:
  assumes "window_ring cap1" and "new_seqex b1 cap1 iv1 n = Some s" and "2 < cap1"
    and "window_ring cap2" and "new_seqex b2 cap2 iv2 n = Some t" and "2 < cap2"
  shows "fits n (new_net s t)"
proof -
  have "cap_of s = cap1" and "cap_of t = cap2"
    using sym [OF assms(2)] sym [OF assms(5)] assms(3,6)
    by (simp_all add: new_seqex_Some [of cap1 b1 iv1 n] new_seqex_Some [of cap2 b2 iv2 n])
  with new_net_inv [OF assms(1,2,4,5)] assms(3,6) show ?thesis
    by (simp add: fits_def young_def replies_done_def new_net_def new_endpoint_def made_at_def)
qed

text \<open>Moves that make no packet.\<close>

definition onward :: "seq_no \<Rightarrow> 'd net \<Rightarrow> 'd net \<Rightarrow> bool" where
  "onward n w w' \<longleftrightarrow> net_reach Release True w w' \<and> fits n w' \<and> (\<forall>i. numbered (w' i) = numbered (w i))"

lemma onward_refl: "fits n w \<Longrightarrow> onward n w w"
  by (simp add: onward_def net_reach.here)

lemma onward_trans: "onward n w v \<Longrightarrow> onward n v u \<Longrightarrow> onward n w u"
  by (auto simp: onward_def intro: net_reach_trans)

lemma onwardD: "onward n w w' \<Longrightarrow> fits n w'" "onward n w w' \<Longrightarrow> numbered (w' i) = numbered (w i)"
  by (simp_all add: onward_def)

lemma move:
  assumes "fits n w" and "exec Release c (inst (w i)) = Some (out, s)"
    and "from_wire c (set (wire_out (w (\<not> i))))" and "fresh_call c (inst (w i))" and "made_by out = []"
  shows "onward n w (w(i := absorb out s (w i)))"
proof -
  let ?e = "absorb out s (w i)"
  have step: "endpoint_step Release c (w i) = Some ?e"
    using assms(2) by (simp add: endpoint_step_def del: exec.simps)
  have "length (numbered ?e) \<le> 2 ^ 31" using fitsD(2) [OF assms(1)] assms(5) by (simp add: young_def)
  from fits_step [OF assms(1) step assms(3,4) this] have "fits n (w(i := ?e))" .
  moreover have "net_reach Release True w (w(i := ?e))"
    using net_step.call [of Release c w i ?e True] step assms(3,4) net_reach.here net_reach.there by blast
  ultimately show ?thesis using assms(5) by (simp add: onward_def)
qed

section \<open>Releasing every guard\<close>

definition rest :: "'d endpoint \<Rightarrow> bool" where
  "rest e \<longleftrightarrow> reserved (inst e) = {#} \<and> \<not> is_locked (inst e)"

definition roomy :: "'d endpoint \<Rightarrow> bool" where
  "roomy e \<longleftrightarrow> \<not> blocked (inst e) None 0"

text \<open>Everything but the reservations, the lock and the wire is as before.\<close>

definition same_windows :: "'d endpoint \<Rightarrow> 'd endpoint \<Rightarrow> bool" where
  "same_windows e e' \<longleftrightarrow> send_window (inst e') = send_window (inst e)
     \<and> recv_window (inst e') = recv_window (inst e)
     \<and> next_send_seq_no (inst e') = next_send_seq_no (inst e)
     \<and> next_recv_seq_no (inst e') = next_recv_seq_no (inst e)"

lemma same_windows_views:
  assumes "same_windows e e'"
  shows "roomy e' = roomy e" and "sent (inst e') = sent (inst e)"
    and "next_recv_seq_no (inst e') = next_recv_seq_no (inst e)"
  using assms sent_cong [of "inst e'" "inst e"] by (auto simp: same_windows_def roomy_def blocked_def)

lemma settle:
  assumes "fits n w"
  shows "\<exists>e. onward n w (w(i := e)) \<and> rest e \<and> same_windows (w i) e"
  using assms
proof (induction "reserved (inst (w i))" arbitrary: w)
  case empty
  let ?e = "absorb UnlockOut (unlock_raw (inst (w i))) (w i)"
  have "onward n w (w(i := ?e))" by (rule move [OF empty(2), where c = UnlockRaw]) simp_all
  moreover have "rest ?e" and "same_windows (w i) ?e"
    using empty(1) by (simp_all add: rest_def same_windows_def unlock_raw_def reserved_def)
  ultimately show ?case by blast
next
  case (add r R)
  let ?s = "inst (w i)"
  have issued: "r \<in># reserved ?s" using add(2) by (metis union_single_eq_member)
  obtain s1 where red: "redeemed r ?s s1"
    and run: "ack_raw_and_direct Release r False ?s = Some (Some (Ack r), set_lock False s1)"
    by (rule ack_known [OF fitsD(8) [OF add(3)] issued, of Release False]) (simp add: unlock_ok_def)
  let ?e = "absorb (AckOut (Some (Ack r))) (set_lock False s1) (w i)"
  have first: "onward n w (w(i := ?e))"
    by (rule move [OF add(3), where c = "AckRaw r False"]) (use run in simp_all)
  have same: "same_windows (w i) ?e"
    using redeemed_fields [OF red] by (simp add: same_windows_def)
  have "R = reserved (inst ((w(i := ?e)) i))"
    using redeemed_reserved(1) [OF red, of False] add(2) by (metis absorb_fields(1) add_mset_remove_trivial fun_upd_same)
  from add(1) [OF this onwardD(1) [OF first]] obtain e where
    "onward n (w(i := ?e)) (w(i := e))" and "rest e" and "same_windows ?e e" by auto
  with onward_trans [OF first] same show ?case by (auto simp: same_windows_def)
qed

section \<open>Handing over the next packet\<close>

lemma blocked_some: "\<not> blocked s None i \<Longrightarrow> \<not> blocked s ro i"
  by (auto simp: blocked_def split: option.splits)

lemma rest_roomy:
  assumes "core_inv (inst e)" and "rest e" and "roomy e" and "2 < cap_of (inst e)"
  shows "deliverable (inst e) c (next_recv_seq_no (inst e)) ro"
proof -
  have "concurrent_replies_total (inst e) = size (reserved (inst e))"
    using core_parts(1,5) [OF assms(1)] by (simp add: reserved_def shape_def)
  with assms(2-4) blocked_some show ?thesis
    by (simp add: deliverable_def room_def rest_def roomy_def)
qed

lemma issue_roomy:
  fixes s t :: "('a, 'b) seqex"
  assumes "send_window t = send_window s" and "next_send_seq_no t = next_send_seq_no s" and "\<not> blocked s None 0"
  shows "\<not> blocked (issue m c ro t) None 0"
proof -
  have keep: "xs[i := None] ! j = None" if "xs ! j = None" for xs :: "'a send_entry option list" and i j
    using that by (cases "i = j"; cases "i < length xs") (simp_all add: list_update_beyond)
  show ?thesis
    using assms by (auto simp: issue_def Let_def drop_sent_def blocked_def keep split: option.splits)
qed

lemma in_step:
  assumes "fits n w"
  shows "pos n (next_recv_seq_no (inst (w i))) \<le> length (numbered (w (\<not> i)))"
    and "length (numbered (w i)) \<le> 2 ^ 31"
proof -
  note linked = fitsD(4) [OF assms, of i]
  show "pos n (next_recv_seq_no (inst (w i))) \<le> length (numbered (w (\<not> i)))"
    using recv_bound [of n "inst (w i)" "numbered (w (\<not> i))"] linkedD(5,6) [OF linked] by (force simp: kept_def)
  show "length (numbered (w i)) \<le> 2 ^ 31" using fitsD(2) [OF assms] by (simp add: young_def)
qed

lemma feed_one:
  assumes fit: "fits n w" and "rest (w i)" and "roomy (w i)"
    and more: "pos n (next_recv_seq_no (inst (w i))) < length (numbered (w (\<not> i)))"
  shows "\<exists>e. onward n w (w(i := e)) \<and> rest e \<and> roomy e
    \<and> pos n (next_recv_seq_no (inst (w i))) < pos n (next_recv_seq_no (inst e))"
proof -
  let ?s = "inst (w i)" and ?f = "w (\<not> i)"
  let ?m = "next_recv_seq_no ?s"
  let ?p = "numbered ?f ! pos n ?m"
  have made: "made_at n (numbered ?f) ?m = Some ?p" using more by (simp add: made_at_def)
  have core: "core_inv ?s" by (rule fitsD(8) [OF fit])
  have seq: "seq_part ?p = Some ?m"
    using ownD(1) [OF linkedD(8) [OF fitsD(4) [OF fit, of i]], of ?m ?p] made by simp
  have wire: "?p \<in> set (wire_out ?f)" using fitsD(5) [OF fit, of "\<not> i"] more by auto
  have fresh: "fresh_call (Receive ?p) ?s"
    using head_not_unlocked [OF core] seq by (auto split: option.split recv_entry.split)
  let ?c = "is_seq_cst ?p" and ?ro = "reply_part ?p" and ?d = "the (payload ?p)"
  have ok: "deliverable ?s ?c ?m ?ro"
    by (rule rest_roomy [OF core assms(2,3) fitsD(7) [OF fit]])
  obtain k s2 where passed: "passed k ?s s2" and run: "receive_data Release (\<lambda>d. d) ?c ?m ?ro ?d ?s
      = Some (Inr (delivered_as ?s ?m ?ro ?c ?d, is_occupied (recv_head s2)), issue ?m ?c ?ro s2)"
    by (rule receive_next [OF core ok])
  let ?s' = "issue ?m ?c ?ro s2"
  let ?out = "ReceiveOut (Inr (delivered_as ?s ?m ?ro ?c ?d, is_occupied (recv_head s2)))"
  let ?e = "absorb ?out ?s' (w i)"
  note fields = passed_fields [OF passed]
  have "exec Release (Receive ?p) ?s = Some (?out, ?s')" using run seq by (simp add: receive_eq)
  from move [OF fit this _ fresh] wire have first: "onward n w (w(i := ?e))" by (simp del: fun_upd_apply)
  have roomy: "roomy ?e"
    using issue_roomy [of s2 ?s ?m ?c ?ro] assms(3) fields by (simp add: roomy_def)
  from settle [OF onwardD(1) [OF first], of i] obtain e where
    second: "onward n (w(i := ?e)) (w(i := e))" and e: "rest e" "same_windows ?e e" by auto
  have steps: "onward n w (w(i := e))" by (rule onward_trans [OF first second])
  have next_e: "next_recv_seq_no (inst e) = ?m + of_nat (Suc k)"
    using same_windows_views(3) [OF e(2)] fields(4) by simp
  have k: "k \<le> 2 ^ 31" using passed shape_bounds(2) [OF core_parts(1) [OF core]] by (simp add: passed_def)
  have "pos n ?m + Suc k < 2 ^ 32"
  proof (cases k)
    case (Suc j)
    with passed have "received ?s (?m + of_nat (Suc j)) = Some (Unlocked (?m + of_nat (Suc j)))"
      by (simp add: passed_def add.assoc)
    then obtain q where "made_at n (numbered ?f) (?m + of_nat (Suc j)) = Some q"
      using linkedD(2) [OF fitsD(3) [OF fit, of i]] unfolding recv_link_def by blast
    moreover have "pos n (?m + of_nat (Suc j)) = pos n ?m + Suc j"
      using more in_step(2) [OF fit, of "\<not> i"] k Suc by (intro pos_add_of_nat) simp
    ultimately have "pos n ?m + Suc j < length (numbered ?f)"
      by (simp add: made_at_def del: of_nat_Suc split: if_splits)
    with Suc in_step(2) [OF fit, of "\<not> i"] show ?thesis by simp
  qed (use more in_step(2) [OF fit, of "\<not> i"] in simp)
  then have "pos n (next_recv_seq_no (inst e)) = pos n ?m + Suc k"
    unfolding next_e by (rule pos_add_of_nat)
  then have "pos n ?m < pos n (next_recv_seq_no (inst e))" by simp
  with steps e(1) roomy same_windows_views(1) [OF e(2)] show ?thesis by auto
qed

definition fed :: "seq_no \<Rightarrow> 'd net \<Rightarrow> bool \<Rightarrow> bool" where
  "fed n w i \<longleftrightarrow> pos n (next_recv_seq_no (inst (w i))) = length (numbered (w (\<not> i)))"

lemma feed:
  assumes "fits n w" and "rest (w i)" and "roomy (w i)"
  shows "\<exists>e. onward n w (w(i := e)) \<and> rest e \<and> roomy e \<and> fed n (w(i := e)) i"
  using assms
proof (induction "length (numbered (w (\<not> i))) - pos n (next_recv_seq_no (inst (w i)))" arbitrary: w rule: less_induct)
  case less
  show ?case
  proof (cases "pos n (next_recv_seq_no (inst (w i))) < length (numbered (w (\<not> i)))")
    case True
    from feed_one [OF less(2-4) True] obtain e where first: "onward n w (w(i := e))" and e: "rest e" "roomy e"
      and further: "pos n (next_recv_seq_no (inst (w i))) < pos n (next_recv_seq_no (inst e))" by blast
    have "length (numbered ((w(i := e)) (\<not> i))) - pos n (next_recv_seq_no (inst ((w(i := e)) i)))
        < length (numbered (w (\<not> i))) - pos n (next_recv_seq_no (inst (w i)))"
      using further True by simp
    from less(1) [OF this onwardD(1) [OF first]] e obtain e' where
      "onward n (w(i := e)) (w(i := e'))" and "rest e' \<and> roomy e' \<and> fed n (w(i := e')) i" by auto
    with onward_trans [OF first] show ?thesis by blast
  next
    case False
    with in_step(1) [OF less(2), of i] have "fed n w i" by (simp add: fed_def)
    with less(2-4) onward_refl show ?thesis by (metis fun_upd_triv)
  qed
qed

section \<open>Acknowledging\<close>

text \<open>Everything has been handed over, and no guard is alive.\<close>

definition calm :: "seq_no \<Rightarrow> 'd net \<Rightarrow> bool" where
  "calm n w \<longleftrightarrow> fits n w \<and> (\<forall>i. rest (w i) \<and> fed n w i)"

lemma calmD:
  assumes "calm n w"
  shows "fits n w" and "rest (w i)" and "pos n (next_recv_seq_no (inst (w i))) = length (numbered (w (\<not> i)))"
  using assms by (simp_all add: calm_def fed_def)

lemma calm_below:
  assumes "calm n w" and "made_at n (numbered (w (\<not> i))) m \<noteq> None"
  shows "below_window (inst (w i)) m" and "m \<in> handed_set n (inst (w i))"
    and "seq_part p = Some m \<Longrightarrow> fresh_call (Receive p) (inst (w i))"
proof -
  note fit = calmD(1) [OF assms(1)]
  have lt: "pos n m < pos n (next_recv_seq_no (inst (w i)))"
    using assms(2) calmD(3) [OF assms(1), of i] by (simp add: made_at_def split: if_splits)
  then show "m \<in> handed_set n (inst (w i))" by (simp add: handed_set_def)
  have "pos n (next_recv_seq_no (inst (w i))) \<le> 2 ^ 31"
    using calmD(3) [OF assms(1), of i] in_step(2) [OF fit, of "\<not> i"] by simp
  from passed_is_below [OF lt this] show below: "below_window (inst (w i)) m" .
  note core = fitsD(8) [OF fit, of i]
  have "received (inst (w i)) m \<noteq> Some (Unlocked m')" for m'
    using unlocked_same(2) [OF core] window_ranges(3) [OF core_parts(1) [OF core]] below by blast
  then show "seq_part p = Some m \<Longrightarrow> fresh_call (Receive p) (inst (w i))"
    by (auto split: option.split recv_entry.split)
qed

lemma calm_settled:
  assumes "calm n w" and "sent (inst (w i)) m \<noteq> None"
  shows "\<not> reply_pending (inst (w (\<not> i))) m"
proof
  assume "reply_pending (inst (w (\<not> i))) m"
  moreover have "reserved (inst (w (\<not> i))) = {#}" using calmD(2) [OF assms(1)] by (simp add: rest_def)
  ultimately obtain y where y: "y \<in> set (entries (send_window (inst (w (\<not> i)))))" "entry_reply_no y = Some m"
    by (auto simp: reply_pending_def)
  note fit = calmD(1) [OF assms(1)]
  note other = fitsD(4) [OF fit, of i]
  from y(1) obtain k where "k < cap_of (inst (w (\<not> i)))" "send_window (inst (w (\<not> i))) ! k = Some y"
    by (auto simp: entries_def in_set_conv_nth)
  with wf_parts(2) [OF linkedD(4) [OF other]] have "sent (inst (w (\<not> i))) (entry_seq_no y) = Some y"
    by (auto simp: send_ok_def sent_def)
  then have made: "made_at n (numbered (w (\<not> i))) (entry_seq_no y) = Some (to_packet y)"
    using linkedD(1) [OF other] by (simp add: own_link_def)
  with calm_below(2) [OF assms(1), of i "entry_seq_no y"] have "entry_seq_no y \<in> handed_set n (inst (w i))" by simp
  with fitsD(6) [OF fit, of i] made y(2) have "sent (inst (w i)) m = None"
    unfolding replies_done_def by fastforce
  with assms(2) show False by simp
qed

lemma ack_one:
  assumes calm: "calm n w" and x: "sent (inst (w i)) m = Some x"
  shows "\<exists>w'. onward n w w' \<and> calm n w' \<and> sent (inst (w' i)) = (sent (inst (w i)))(m := None)
    \<and> sent (inst (w' (\<not> i))) = sent (inst (w (\<not> i)))"
proof -
  let ?f = "w (\<not> i)" and ?p = "to_packet x"
  note fit = calmD(1) [OF calm]
  have made: "made_at n (numbered (w i)) m = Some ?p"
    using linkedD(1) [OF fitsD(3) [OF fit, of i]] x by (simp add: own_link_def)
  then have wire: "?p \<in> set (wire_out (w i))" using made_in fitsD(5) [OF fit, of i] by blast
  have seq: "seq_part ?p = Some m" using sent_SomeD [OF x] by simp
  have "made_at n (numbered (w (\<not> \<not> i))) m \<noteq> None" using made by simp
  note below = calm_below [OF calm this]
  note fresh = below(3) [OF seq]
  have run: "exec Release (Receive ?p) (inst ?f)
      = Some (ReceiveOut (Inl (RawDroppedDuplicateResendAck m)), inst ?f)"
    using calm_settled [OF calm, of i m] x seq
    by (simp add: receive_eq receive_below [OF fitsD(8) [OF fit] below(1)])
  let ?e = "absorb (ReceiveOut (Inl (RawDroppedDuplicateResendAck m))) (inst ?f) ?f"
  let ?w = "w(\<not> i := ?e)"
  have first: "onward n w ?w"
    by (rule move [OF fit run _ fresh]) (use wire in simp_all)
  note core = fitsD(8) [OF fit, of i]
  have run2: "exec Release (Receive (Ack m)) (inst (?w i))
      = Some (ReceiveOut (Inr (RawAck (entry_data x), False)), drop_sent m (inst (w i)))"
    using x by (simp add: receive_ack_eq [OF core_parts(1) [OF core]])
  let ?e2 = "absorb (ReceiveOut (Inr (RawAck (entry_data x), False))) (drop_sent m (inst (w i))) (?w i)"
  have second: "onward n ?w (?w(i := ?e2))"
    by (rule move [OF onwardD(1) [OF first] run2]) simp_all
  let ?w' = "?w(i := ?e2)"
  have "?w' j = (if j = i then ?e2 else ?e)" for j by auto
  then have "calm n ?w'"
    using onwardD(1) [OF second] calm by (auto simp: calm_def rest_def fed_def drop_sent_views)
  moreover have "sent (inst (?w' i)) = (sent (inst (w i)))(m := None)"
    using drop_sent_sent [OF core_parts(1) [OF core]] by simp
  ultimately show ?thesis using onward_trans [OF first second] by (intro exI [of _ ?w']) simp
qed

lemma drain:
  assumes "calm n w"
  shows "\<exists>w'. onward n w w' \<and> calm n w' \<and> sent (inst (w' i)) = Map.empty
    \<and> sent (inst (w' (\<not> i))) = sent (inst (w (\<not> i)))"
  using assms
proof (induction "card (dom (sent (inst (w i))))" arbitrary: w rule: less_induct)
  case less
  show ?case
  proof (cases "dom (sent (inst (w i))) = {}")
    case True
    with less(2) onward_refl [OF calmD(1) [OF less(2)]] show ?thesis by auto
  next
    case False
    then obtain m x where x: "sent (inst (w i)) m = Some x" by blast
    from ack_one [OF less(2) x] obtain w1 where first: "onward n w w1" and calm: "calm n w1"
      and gone: "sent (inst (w1 i)) = (sent (inst (w i)))(m := None)"
      and same: "sent (inst (w1 (\<not> i))) = sent (inst (w (\<not> i)))" by blast
    have "card (dom (sent (inst (w1 i)))) < card (dom (sent (inst (w i))))"
      by (rule psubset_card_mono) (use x gone in auto)
    from less(1) [OF this calm] onward_trans [OF first] same show ?thesis by metis
  qed
qed

section \<open>From room to the end\<close>

lemma all_settled:
  assumes "fits n w" and "\<And>i. roomy (w i)"
  shows "\<exists>w'. onward n w w' \<and> (\<forall>i. rest (w' i) \<and> roomy (w' i))"
proof -
  from settle [OF assms(1), of False] obtain e where e: "onward n w (w(False := e))" "rest e"
    and "same_windows (w False) e" by blast
  with assms(2) have "roomy e" using same_windows_views(1) by blast
  from settle [OF onwardD(1) [OF e(1)], of True] obtain f where
    f: "onward n (w(False := e)) (w(False := e, True := f))" "rest f" and "same_windows (w True) f" by auto
  with assms(2) have "roomy f" using same_windows_views(1) by blast
  with onward_trans [OF e(1) f(1)] e(2) f(2) \<open>roomy e\<close> show ?thesis
    by (intro exI [of _ "w(False := e, True := f)"]) (simp add: all_bool_eq)
qed

lemma all_calm:
  assumes "fits n w" and "\<And>i. rest (w i) \<and> roomy (w i)"
  shows "\<exists>w'. onward n w w' \<and> calm n w'"
proof -
  from feed [OF assms(1)] assms(2) obtain e where e: "onward n w (w(False := e))" "rest e" "fed n (w(False := e)) False"
    by blast
  let ?w = "w(False := e)"
  have "rest (?w True)" and "roomy (?w True)" using assms(2) by simp_all
  from feed [OF onwardD(1) [OF e(1)] this] obtain f where
    f: "onward n ?w (?w(True := f))" "rest f" "fed n (?w(True := f)) True" by blast
  have "numbered f = numbered (w True)" using onwardD(2) [OF f(1), of True] by simp
  with e(2,3) f onwardD(1) [OF f(1)] have "calm n (?w(True := f))"
    by (simp add: calm_def all_bool_eq fed_def)
  with onward_trans [OF e(1) f(1)] show ?thesis by blast
qed

lemma all_drained:
  assumes "calm n w"
  shows "\<exists>w'. onward n w w' \<and> calm n w' \<and> (\<forall>i. sent (inst (w' i)) = Map.empty)"
proof -
  from drain [OF assms, of False] obtain v where v: "onward n w v" "calm n v" "sent (inst (v False)) = Map.empty"
    by blast
  from drain [OF v(2), of True] obtain u where u: "onward n v u" "calm n u" "sent (inst (u True)) = Map.empty"
    and "sent (inst (u False)) = sent (inst (v False))" by auto
  with v(3) onward_trans [OF v(1) u(1)] show ?thesis by (auto simp: all_bool_eq)
qed

lemma calm_all_handed:
  assumes "calm n w"
  shows "distinct (map fst (handed_out (w i)))"
    and "fst ` set (handed_out (w i)) = (\<lambda>k. n + of_nat k) ` {..<length (numbered (w (\<not> i)))}"
proof -
  note fit = calmD(1) [OF assms]
  note linked = fitsD(4) [OF fit, of i]
  have ok: "taken_ok (party_of n (w (\<not> i))) (party_of n (w i))" and kept: "kept (party_of n (w (\<not> i))) (party_of n (w i))"
    using linkedD(3) [OF linked] by (simp_all add: agree_def)
  from ok show "distinct (map fst (handed_out (w i)))" by (simp add: taken_ok_def)
  let ?ps = "numbered (w (\<not> i))"
  have "handed_set n (inst (w i)) = dom (made_at n ?ps)"
    using kept calm_below(2) [OF assms] by (force simp: kept_def)
  also have "\<dots> = (\<lambda>k. n + of_nat k) ` {..<length ?ps}"
  proof (intro set_eqI iffI)
    fix m assume "m \<in> dom (made_at n ?ps)"
    then have "pos n m < length ?ps" by (auto simp: made_at_def split: if_splits)
    moreover have "m = n + of_nat (pos n m)" by (simp add: pos_def)
    ultimately show "m \<in> (\<lambda>k. n + of_nat k) ` {..<length ?ps}" by blast
  next
    fix m assume "m \<in> (\<lambda>k. n + of_nat k) ` {..<length ?ps}"
    then show "m \<in> dom (made_at n ?ps)"
      using in_step(2) [OF fit, of "\<not> i"] by (auto simp: made_at_def)
  qed
  finally show "fst ` set (handed_out (w i)) = (\<lambda>k. n + of_nat k) ` {..<length ?ps}"
    using ok by (simp add: taken_ok_def)
qed

section \<open>Properties\<close>

text \<open>
  C6. Room on both sides is enough. Take any state that two new peers with more than two slots can
  reach while the network repeats no packet that was processed out of order as long as its mark is in the
  window, with at most \<open>2 ^ 31\<close> packets each, in which the next slot of each send window is free. Then some further calls, none of which makes a packet, bring the
  two to an end: each has been handed every packet the other made, once, every packet is
  acknowledged, no reply is owed and no lock is held.
\<close>

theorem room_lets_everything_through:
  assumes "window_ring cap1" and "new_seqex b1 cap1 iv1 n = Some s" and "2 < cap1"
    and "window_ring cap2" and "new_seqex b2 cap2 iv2 n = Some t" and "2 < cap2"
    and "net_reach b True (new_net s t) w" and "young w"
    and "\<And>i. send_window (inst (w i)) ! slot (cap_of (inst (w i))) (next_send_seq_no (inst (w i))) = None"
  shows "\<exists>w'. net_reach Release True w w' \<and> (\<forall>i. numbered (w' i) = numbered (w i)
    \<and> distinct (map fst (handed_out (w' i)))
    \<and> fst ` set (handed_out (w' i)) = (\<lambda>k. n + of_nat k) ` {..<length (numbered (w (\<not> i)))}
    \<and> sent (inst (w' i)) = Map.empty \<and> reserved (inst (w' i)) = {#} \<and> \<not> is_locked (inst (w' i)))"
proof -
  have fit: "fits n w" by (rule reach_fits [OF assms(7) new_net_fits [OF assms(1-6)] assms(8)])
  have "\<And>i. roomy (w i)" using assms(9) by (simp add: roomy_def blocked_def)
  from all_settled [OF fit this] obtain w1 where w1: "onward n w w1" "\<And>i. rest (w1 i) \<and> roomy (w1 i)" by blast
  from all_calm [OF onwardD(1) [OF w1(1)] w1(2)] obtain w2 where w2: "onward n w1 w2" "calm n w2" by blast
  from all_drained [OF w2(2)] obtain w3 where w3: "onward n w2 w3" "calm n w3"
    "\<And>i. sent (inst (w3 i)) = Map.empty" by blast
  have all: "onward n w w3" by (rule onward_trans [OF onward_trans [OF w1(1) w2(1)] w3(1)])
  then show ?thesis
    using calm_all_handed [OF w3(2)] calmD(2) [OF w3(2)] w3(3)
    by (intro exI [of _ w3]) (simp add: onward_def rest_def)
qed

lemma swapped_room:
  "map_option (\<lambda>w. map (\<lambda>e. send_window (inst e) ! slot (cap_of (inst e)) (next_send_seq_no (inst e)) = None)
      [fst w, snd w]) (net_run Debug True swapped_run two_fresh) = Some [True, True]"
  by code_simp

theorem room_lets_everything_through_witness:
  "\<exists>w'. net_reach Release True (net_of swapped_end) w'
    \<and> fst ` set (handed_out (w' True)) = (\<lambda>k. 0 + of_nat k) ` {..<length (numbered (net_of swapped_end False))}"
proof -
  have "send_window (inst (net_of swapped_end i))
      ! slot (cap_of (inst (net_of swapped_end i))) (next_send_seq_no (inst (net_of swapped_end i))) = None" for i
    using swapped_room swapped_end(1) by (simp add: net_of_def)
  note here = room_lets_everything_through [OF small_rings(2) fresh_new_small(2) [of Debug] _ small_rings(2)
      fresh_new_small(2) [of Debug] _ swapped_reached swapped_end(2) this]
  have "2 < (8 :: nat)" by simp
  from here [OF this this] show ?thesis
    by (elim ex_forward conj_forward) (assumption, drule spec [of _ True], simp)
qed

end
