(* ===== verification/Deadlock.thy ===== *)
theory Deadlock
  imports Peer_Delivery
begin

text \<open>
  What the rule that a packet is processed only while there is room for a reply means for two peers.
  When both have filled their send windows before either was handed anything, neither can ever
  process a packet of the other again. When both still have room for one packet, everything they made
  can still be delivered and acknowledged.
\<close>

section \<open>Full windows\<close>

text \<open>A peer that has made as many packets as its window holds, and has been handed nothing.\<close>

definition crammed :: "'d endpoint \<Rightarrow> bool" where
  "crammed e \<longleftrightarrow> cap_of (inst e) \<le> length (numbered e) \<and> handed_out e = []"

lemma nothing_handed:
  assumes "linked n f e" and "handed_out e = []"
  shows "handed_set n (inst e) = {}"
  using linkedD(3) [OF assms(1)] assms(2) by (simp add: agree_def taken_ok_def)

lemma crammed_blocked:
  assumes f: "linked n f e" and full: "cap_of (inst f) \<le> length (numbered f)" and "handed_set n (inst e) = {}"
  shows "blocked (inst f) None 0"
proof -
  let ?s = "inst f" and ?L = "length (numbered f)" and ?C = "cap_of (inst f)"
  let ?m = "n + of_nat (?L - ?C) :: seq_no"
  have inv: "seq_inv ?s" and L: "?L \<le> 2 ^ 31" and ring: "window_ring ?C"
    using linkedD(4,5) [OF f] by (simp_all add: seq_inv_def shape_def)
  have "pos n ?m = ?L - ?C" using L by simp
  moreover have "?L - ?C < ?L" using full window_ring.cap_pos [OF ring] by linarith
  ultimately have "made_at n (numbered f) ?m \<noteq> None" by (simp add: made_at_def)
  with keptD(3) [OF linkedD(6) [OF f], of ?m] assms(3) obtain x where "sent ?s ?m = Some x" by auto
  then have "send_window ?s ! slot ?C ?m = Some x" by (simp add: sent_SomeD)
  moreover have "next_send_seq_no ?s = ?m + of_nat ?C"
    using linkedD(1) [OF f] full by (simp add: own_link_def of_nat_diff)
  then have "slot ?C (next_send_seq_no ?s) = slot ?C ?m"
    using window_ring.slot_add [OF ring, of ?m ?C] by (simp add: slot_def)
  ultimately show ?thesis by (simp add: blocked_def)
qed

text \<open>Then it makes nothing and is handed nothing.\<close>

lemma crammed_step:
  assumes e: "linked n e f" and f: "linked n f e" and crammed: "crammed e" "crammed f"
    and step: "endpoint_step b c f = Some f'" and wire: "from_wire c (set (wire_out e))"
  shows "crammed f' \<and> numbered f' = numbered f"
proof -
  let ?s = "inst f"
  from step obtain out s' where "exec b c ?s = Some (out, s')" and f': "f' = absorb out s' f"
    by (auto simp: endpoint_step_def bind_eq_Some_conv)
  then have run: "exec Release c ?s = Some (out, s')"
    using agreesD [OF exec_mono] by (cases b) auto
  have core: "core_inv ?s" using linkedD(4) [OF f] by simp
  note shape = core_parts(1) [OF core]
  have none: "handed_set n (inst e) = {}" "handed_set n ?s = {}"
    using nothing_handed [OF f] nothing_handed [OF e] crammed by (simp_all add: crammed_def)
  have full: "\<not> room ?s None"
    using crammed_blocked [OF f _ none(1)] crammed(2) by (auto simp: crammed_def room_def)
  have no_reply: "reply_part p = None" if "made_at n (numbered e) m = Some p" for p m
    using answersD(5) [OF linkedD(7) [OF f], of m p] that none(1) by (cases "reply_part p") auto
  have refused: "\<not> deliverable ?s c m (reply_part p)" if "made_at n (numbered e) m = Some p" for c m p
    using full no_reply [OF that] by (simp add: deliverable_def)
  have "r \<notin># reserved ?s" for r
    using answersD(1) [OF linkedD(7) [OF e], of r] none(2) by auto
  then have unknown: "reply_raw_and_direct Release t r u q d ?s = Some (None, ?s)"
    "ack_raw_and_direct Release r u ?s = Some (None, ?s)" for t r u q d
    using reply_unknown [OF core] by blast+
  have "made_by out = [] \<and> out_data out = []"
  proof (cases c)
    case (TrySend t q d)
    have "time_ok Release t ?s" by (simp add: time_ok_def)
    with TrySend run full show ?thesis by (auto simp: try_send_direct_eq [OF shape] Let_def)
  next
    case (Receive p)
    show ?thesis
    proof (cases "seq_part p")
      case None
      then obtain r where "p = Ack r" by (cases p) simp_all
      with Receive run show ?thesis by (auto simp: receive_ack_eq [OF shape] split: option.splits)
    next
      case (Some m)
      from Receive wire have "made_at n (numbered e) m = Some p"
        using wire_made(1) [OF e _ Some] by simp
      note refused = refused [OF this]
      from Receive run Some obtain r where out: "out = ReceiveOut r" and "receive_data Release (\<lambda>d. d)
          (is_seq_cst p) m (reply_part p) (the (payload p)) ?s = Some (r, s')"
        by (auto simp: receive_eq bind_eq_Some_conv split: prod.splits)
      then show ?thesis
        using refused by (cases rule: receive_data_cases [OF core, of Release "\<lambda>d. d" "is_seq_cst p" m
            "reply_part p" "the (payload p)"]) auto
    qed
  next
    case Pump
    with run obtain r where out: "out = PumpOut r" and pump: "try_pump_raw Release ?s = Some (r, s')"
      by (auto simp: bind_eq_Some_conv split: prod.splits)
    from core show ?thesis
    proof (cases rule: pump_cases [of ?s Release])
      case (head ro q d k s2)
      obtain p where "made_at n (numbered e) (next_recv_seq_no ?s) = Some p" and "same_packet p ro q d"
        by (rule head_made [OF f head(1)]) blast
      with refused [of "next_recv_seq_no ?s" p q] head(2) show ?thesis by (simp add: same_packet_def)
    qed (use pump out in auto)
  qed (use run unknown in \<open>auto simp: bind_eq_Some_conv split: prod.splits\<close>)
  then show ?thesis using crammed(2) f' exec_cap [OF core run] by (simp add: crammed_def)
qed

lemma crammed_net_step:
  assumes "net_step b False w w'" and inv: "net_inv n w" and crammed: "\<And>i. crammed (w i)"
  shows "net_step b True w w'" and "crammed (w' i) \<and> numbered (w' i) = numbered (w i)"
proof -
  from assms(1) have "net_step b True w w' \<and> (\<forall>i. crammed (w' i) \<and> numbered (w' i) = numbered (w i))"
  proof cases
    case (call c i f)
    note linked = net_invD [OF inv, of i]
    have "handed_set n (inst (w i)) = {}"
      using nothing_handed [OF linked(2)] crammed [of i] by (simp add: crammed_def)
    then have "received (inst (w i)) m \<noteq> Some (Unlocked m')" for m m'
      using unlocked_same(1) [of "inst (w i)" m m'] linkedD(4) [OF linked(1)] by (auto simp: handed_set_def)
    then have "fresh_call c (inst (w i))"
      by (cases c) (auto split: option.split recv_entry.split)
    with call have "net_step b True w w'" by (simp add: net_step.call)
    moreover have "crammed f \<and> numbered f = numbered (w i)"
      by (rule crammed_step [OF linked(2,1) crammed crammed call(2,3)])
    ultimately show ?thesis using call(1) crammed by simp
  qed
  then show "net_step b True w w'" and "crammed (w' i) \<and> numbered (w' i) = numbered (w i)" by simp_all
qed

lemma crammed_for_ever:
  assumes "net_reach b False w w'" and "net_inv n w" and "young w" and "\<And>i. crammed (w i)"
  shows "net_inv n w' \<and> young w' \<and> (\<forall>i. crammed (w' i) \<and> numbered (w' i) = numbered (w i))"
  using assms
proof (induction rule: net_reach.induct)
  case (there w v u)
  then have inv: "net_inv n v" and young: "young v"
    and crammed: "\<And>i. crammed (v i) \<and> numbered (v i) = numbered (w i)" by auto
  from crammed_net_step [OF there(2) inv] crammed have "net_step b True v u"
    and same: "\<And>i. crammed (u i) \<and> numbered (u i) = numbered (v i)" by blast+
  moreover have "young u" using young same by (simp add: young_def)
  ultimately show ?case using net_step_inv inv crammed by simp
qed simp

section \<open>Properties\<close>

text \<open>
  C7. Full windows block for ever. When each of two peers has made as many packets as its send window
  holds before either was handed anything, then whatever the network does and whatever they call, none
  is ever handed a packet and none can make one again: a received packet waits for room to reply, and
  room comes only from the other side's answers. The documentation promises that a peer never
  deadlocks awaiting a reply.
\<close>

theorem full_windows_deadlock:
  assumes "window_ring cap1" and "new_seqex b1 cap1 iv1 n = Some s"
    and "window_ring cap2" and "new_seqex b2 cap2 iv2 n = Some t"
    and "net_reach b True (new_net s t) w" and "young w"
    and "\<And>i. cap_of (inst (w i)) \<le> length (numbered (w i)) \<and> handed_out (w i) = []"
    and "net_reach b' False w w'"
  shows "handed_out (w' i) = [] \<and> numbered (w' i) = numbered (w i)"
proof -
  have "\<And>i. crammed (w i)" using assms(7) by (simp add: crammed_def)
  from crammed_for_ever [OF assms(8) reach_inv [OF assms(1-6)] assms(6) this]
  show ?thesis by (simp add: crammed_def)
qed

text \<open>Two peers with windows of four send four packets each; then everything is received, pumped, resent.\<close>

definition two_narrow :: "nat endpoint \<times> nat endpoint" where
  "two_narrow = (new_endpoint (fresh 4), new_endpoint (fresh 4))"

definition cram_run :: "(bool \<times> (nat, nat) call) list" where
  "cram_run = map (\<lambda>k. (False, TrySend 0 False k)) [0..<4] @ map (\<lambda>k. (True, TrySend 0 False k)) [0..<4]"

definition retry_run :: "(bool \<times> (nat, nat) call) list" where
  "retry_run = map (\<lambda>k. (False, Receive (Payload (of_nat k) k))) [0..<4]
     @ map (\<lambda>k. (True, Receive (Payload (of_nat k) k))) [0..<4]
     @ [(False, Pump), (True, Pump), (False, ServiceAll 300), (True, TrySend 300 False 5)]"

definition crammed_pair :: "nat endpoint \<times> nat endpoint" where
  "crammed_pair = the (net_run Debug True cram_run two_narrow)"

definition retried_pair :: "nat endpoint \<times> nat endpoint" where
  "retried_pair = the (net_run Debug False retry_run crammed_pair)"

lemma cram_runs:
  "map_option (\<lambda>w. (map length [numbered (fst w), numbered (snd w)], map (cap_of \<circ> inst) [fst w, snd w],
      map (length \<circ> handed_out) [fst w, snd w])) (net_run Debug True cram_run two_narrow)
    = Some ([4, 4], [4, 4], [0, 0])"
  by code_simp

lemma crammed_pair:
  "net_run Debug True cram_run two_narrow = Some crammed_pair" "young (net_of crammed_pair)"
  "cap_of (inst (net_of crammed_pair i)) \<le> length (numbered (net_of crammed_pair i))
    \<and> handed_out (net_of crammed_pair i) = []"
proof -
  show run: "net_run Debug True cram_run two_narrow = Some crammed_pair"
    using cram_runs by (auto simp: crammed_pair_def)
  show "young (net_of crammed_pair)" using cram_runs run by (simp add: young_pair)
  show "cap_of (inst (net_of crammed_pair i)) \<le> length (numbered (net_of crammed_pair i))
      \<and> handed_out (net_of crammed_pair i) = []"
    using cram_runs run by (simp add: net_of_def)
qed

lemma retry_runs:
  "map_option (\<lambda>w. (length (wire_out (fst w)), length (wire_out (snd w))))
     (Option.bind (net_run Debug True cram_run two_narrow) (net_run Debug False retry_run)) = Some (8, 4)"
  by code_simp

lemma retried_pair: "net_run Debug False retry_run crammed_pair = Some retried_pair"
  using retry_runs crammed_pair(1) by (auto simp: retried_pair_def)

theorem full_windows_deadlock_witness:
  "handed_out (fst retried_pair) = [] \<and> numbered (snd retried_pair) = numbered (snd crammed_pair)"
proof -
  have "net_of two_narrow = new_net (fresh 4) (fresh 4)"
    by (auto simp: two_narrow_def net_of_def new_net_def)
  with net_run_reach [OF crammed_pair(1)]
  have "net_reach Debug True (new_net (fresh 4) (fresh 4)) (net_of crammed_pair)" by simp
  from full_windows_deadlock [OF small_rings(1) fresh_new_small(1) [of Debug] small_rings(1)
      fresh_new_small(1) [of Debug] this crammed_pair(2,3) net_run_reach [OF retried_pair], of False]
    full_windows_deadlock [OF small_rings(1) fresh_new_small(1) [of Debug] small_rings(1)
      fresh_new_small(1) [of Debug] this crammed_pair(2,3) net_run_reach [OF retried_pair], of True]
  show ?thesis by (simp add: net_of_def)
qed

end
