(* ===== verification/File_Download.thy ===== *)
theory File_Download
  imports Receive_Loop
begin

text \<open>
  \<^verbatim>\<open>examples/file_download.rs\<close>: a peer asks for files, and the other confirms each
  request in the reply and sends the file in chunks from a thread of its own. Parameters are the
  encoding of packets (\<^verbatim>\<open>serde_cbor\<close>), the capacity that
  \<^verbatim>\<open>Vec::with_capacity\<close> gives, which packets are dropped, and the clock. The read-write
  lock of a filesystem is never contended, since a peer either serves files or downloads them.
\<close>

section \<open>Data\<close>

type_synonym u8 = "8 word"

definition FILE_CHUNK_SIZE :: nat where
  "FILE_CHUNK_SIZE = 1000"

datatype file_payload =
    RequestFile string
  | ConfirmRequestFile u64
  | FileDownload string "u8 list"

text \<open>A vector has a capacity; \<^verbatim>\<open>extend\<close> within it does not change it.\<close>

record file_vec =
  contents :: "u8 list"
  capacity :: nat

type_synonym filesystem = "string \<Rightarrow> file_vec option"

type_synonym file_item = "(file_payload, file_payload) recv_ok"
type_synonym file_side = "(file_payload, file_payload) inner"

section \<open>Uploads\<close>

text \<open>The chunks that the loop of an upload sends from index \<open>i\<close> on.\<close>

function upload_chunks :: "u8 list \<Rightarrow> nat \<Rightarrow> u8 list list" where
  "upload_chunks file i =
     (if i < length file
      then let j = min (length file) (i + FILE_CHUNK_SIZE) in take (j - i) (drop i file) # upload_chunks file j
      else [])"
  by pat_completeness auto
termination
  by (relation "measure (\<lambda>(file, i). length file - i)") (auto simp: FILE_CHUNK_SIZE_def)

declare upload_chunks.simps [simp del]

datatype upload_wait = Running | ForRecv | ForReply

text \<open>An upload thread: the chunks it has not sent, and what its send waits for.\<close>

record upload =
  up_file :: string
  up_chunks :: "u8 list list"
  up_wait :: upload_wait

definition upload_start :: "filesystem \<Rightarrow> string \<Rightarrow> upload" where
  "upload_start fs f =
     \<lparr> up_file = f, up_chunks = (case fs f of Some v \<Rightarrow> upload_chunks (contents v) 0 | None \<Rightarrow> []),
       up_wait = Running \<rparr>"

text \<open>
  The thread runs until its next send returns or waits. A waiting thread may be woken at any time;
  the result of the send is ignored.
\<close>

definition upload_step ::
  "build \<Rightarrow> i64 \<Rightarrow> upload \<Rightarrow> file_side \<Rightarrow> (upload \<times> file_payload packet list \<times> file_side) option" where
  "upload_step b time u x =
     (case up_chunks u of
        [] \<Rightarrow> Some (u, [], x)
      | c # cs \<Rightarrow> do {
          let d = FileDownload (up_file u) c;
          (ret, _, ps, x) \<leftarrow>
            (case up_wait u of
               Running \<Rightarrow> sync_send b time True d x
             | ForRecv \<Rightarrow> send_woken_recv b (try_send b time True) d x
             | ForReply \<Rightarrow> send_if_open (try_send b time True) d x);
          Some (case ret of
                  Return _ \<Rightarrow> u\<lparr>up_chunks := cs, up_wait := Running\<rparr>
                | WaitRecv \<Rightarrow> u\<lparr>up_wait := ForRecv\<rparr>
                | WaitReply \<Rightarrow> u\<lparr>up_wait := ForReply\<rparr>, ps, x)
        })"

section \<open>Processing a packet\<close>

text \<open>What the two arms that download do to the filesystem.\<close>

definition fs_effect :: "(nat \<Rightarrow> nat) \<Rightarrow> file_item \<Rightarrow> filesystem \<Rightarrow> filesystem" where
  "fs_effect alloc item fs =
     (case recv_consume item of
        (Some (_, ConfirmRequestFile n), Some (RequestFile f)) \<Rightarrow>
          fs(f \<mapsto> \<lparr> contents = [], capacity = alloc (unat n) \<rparr>)
      | (Some (_, FileDownload f c), None) \<Rightarrow>
          (case fs f of
             Some v \<Rightarrow>
               if length (contents v) + length c \<le> capacity v
               then fs(f \<mapsto> v\<lparr>contents := contents v @ c\<rparr>) else fs
           | None \<Rightarrow> fs)
      | _ \<Rightarrow> fs)"

text \<open>The variables of a peer: its filesystem, its upload threads, and what it printed.\<close>

record file_vars =
  files :: filesystem
  uploads :: "upload list"
  unsolicited :: "file_item option list"

definition process ::
  "build \<Rightarrow> i64 \<Rightarrow> (nat \<Rightarrow> nat) \<Rightarrow> (file_payload, file_payload, file_vars) loop_body" where
  "process b time alloc item u x =
     (case recv_consume item of
        (Some (g, RequestFile f), None) \<Rightarrow> do {
          let u' = u\<lparr>uploads := uploads u @ [upload_start (files u) f]\<rparr>;
          case files u f of
            Some v \<Rightarrow> do {
              (_, ps, _, x) \<leftarrow>
                sync_guard_reply b time True (ConfirmRequestFile (of_nat (length (contents v)))) g x;
              Some (ps, u', x)
            }
          | None \<Rightarrow> do {
              (ps, _, x) \<leftarrow> sync_guard_drop b g x;
              Some (ps, u', x)
            }
        }
      | (Some (g, ConfirmRequestFile n), Some (RequestFile f)) \<Rightarrow> do {
          (ps, _, x) \<leftarrow> sync_guard_drop b g x;
          Some (ps, u\<lparr>files := fs_effect alloc item (files u)\<rparr>, x)
        }
      | (Some (g, FileDownload f c), None) \<Rightarrow> do {
          (ps, _, x) \<leftarrow> sync_guard_drop b g x;
          Some (ps, u\<lparr>files := fs_effect alloc item (files u)\<rparr>, x)
        }
      | (Some a, e) \<Rightarrow> do {
          (ps, _, x) \<leftarrow> sync_guard_drop b (fst a) x;
          Some (ps, u\<lparr>unsolicited := unsolicited u @ [recv_new (Some a) e]\<rparr>, x)
        }
      | _ \<Rightarrow> Some ([], u, x))"

section \<open>The transport layer and the receive loop\<close>

definition file_time :: "nat \<Rightarrow> nat \<Rightarrow> i64" where
  "file_time start now = of_nat ((now - start) div 10 ^ 6)"

definition file_send :: "('p packet \<Rightarrow> 'bytes option) \<Rightarrow> 'p packet \<Rightarrow> 'bytes channel \<Rightarrow> 'bytes channel" where
  "file_send encode p ch =
     (case encode p of Some bs \<Rightarrow> snd (channel_send bs ch) | None \<Rightarrow> ch)"

fun file_receive ::
  "build \<Rightarrow> i64 \<Rightarrow> (nat \<Rightarrow> nat) \<Rightarrow> ('bytes \<Rightarrow> file_payload packet option) \<Rightarrow> (nat \<Rightarrow> bool) \<Rightarrow>
   'bytes list \<Rightarrow> file_vars \<Rightarrow> file_side \<Rightarrow>
   (loop_end \<times> file_payload packet list \<times> file_vars \<times> file_side) option" where
  "file_receive b time alloc decode coin [] u x = Some (Done, [], u, x)"
| "file_receive b time alloc decode coin (bs # rest) u x =
     (if coin 0 then file_receive b time alloc decode (coin \<circ> Suc) rest u x
      else case decode bs of
          None \<Rightarrow> file_receive b time alloc decode (coin \<circ> Suc) rest u x
        | Some p \<Rightarrow> do {
            (r, ps, u, x) \<leftarrow> try_receive_all_loop b (process b time alloc) p u x;
            case r of
              Blocked \<Rightarrow> Some (Blocked, ps, u, x)
            | Done \<Rightarrow> do {
                (r, ps', u, x) \<leftarrow> file_receive b time alloc decode (coin \<circ> Suc) rest u x;
                Some (r, ps @ ps', u, x)
              }
          })"

section \<open>The program\<close>

record 'bytes file_peer =
  vars :: file_vars
  seqex :: file_side
  inbox :: "'bytes channel"

text \<open>The peers are \<open>False\<close> and \<open>True\<close>; what one sends goes to the inbox of the other.\<close>

type_synonym 'bytes file_net = "'bytes file_peer \<times> 'bytes file_peer"

definition peer_at :: "bool \<Rightarrow> 'bytes file_net \<Rightarrow> 'bytes file_peer" where
  "peer_at i st = (if i then snd st else fst st)"

definition put_peer ::
  "(file_payload packet \<Rightarrow> 'bytes option) \<Rightarrow> bool \<Rightarrow> 'bytes file_peer \<Rightarrow> file_payload packet list \<Rightarrow>
   'bytes file_net \<Rightarrow> 'bytes file_net" where
  "put_peer encode i p ps st =
     (let other = (peer_at (\<not> i) st)\<lparr>inbox := fold (file_send encode) ps (inbox (peer_at (\<not> i) st))\<rparr>
      in if i then (other, p) else (p, other))"

text \<open>One step of upload thread \<open>k\<close> of a peer.\<close>

definition run_upload ::
  "build \<Rightarrow> i64 \<Rightarrow> (file_payload packet \<Rightarrow> 'bytes option) \<Rightarrow> bool \<times> nat \<Rightarrow> 'bytes file_net \<Rightarrow>
   'bytes file_net option" where
  "run_upload b time encode who st = (case who of (i, k) \<Rightarrow>
     let p = peer_at i st in
     case arr_get (uploads (vars p)) k of
       None \<Rightarrow> Some st
     | Some u \<Rightarrow> do {
         (u, ps, x) \<leftarrow> upload_step b time u (seqex p);
         Some (put_peer encode i (p\<lparr>vars := (vars p)\<lparr>uploads := (uploads (vars p))[k := u]\<rparr>, seqex := x\<rparr>) ps st)
       })"

fun run_uploads ::
  "build \<Rightarrow> i64 \<Rightarrow> (file_payload packet \<Rightarrow> 'bytes option) \<Rightarrow> (bool \<times> nat) list \<Rightarrow> 'bytes file_net \<Rightarrow>
   'bytes file_net option" where
  "run_uploads b time encode [] st = Some st"
| "run_uploads b time encode (who # rest) st = do {
     st \<leftarrow> run_upload b time encode who st;
     run_uploads b time encode rest st
   }"

definition peer_receive ::
  "build \<Rightarrow> i64 \<Rightarrow> (nat \<Rightarrow> nat) \<Rightarrow> (file_payload packet \<Rightarrow> 'bytes option) \<Rightarrow>
   ('bytes \<Rightarrow> file_payload packet option) \<Rightarrow> (nat \<Rightarrow> bool) \<Rightarrow> bool \<Rightarrow> 'bytes file_net \<Rightarrow>
   (loop_end \<times> 'bytes file_net) option" where
  "peer_receive b time alloc encode decode coin i st = do {
     let p = peer_at i st;
     (r, ps, u, x) \<leftarrow> file_receive b time alloc decode coin (queue (inbox p)) (vars p) (seqex p);
     Some (r, put_peer encode i (p\<lparr>vars := u, seqex := x, inbox := (inbox p)\<lparr>queue := []\<rparr>\<rparr>) ps st)
   }"

definition peer_service ::
  "build \<Rightarrow> i64 \<Rightarrow> (file_payload packet \<Rightarrow> 'bytes option) \<Rightarrow> bool \<Rightarrow> 'bytes file_net \<Rightarrow> 'bytes file_net option" where
  "peer_service b time encode i st = do {
     let p = peer_at i st;
     (_, ps, x) \<leftarrow> sync_service b time (seqex p);
     Some (put_peer encode i (p\<lparr>seqex := x\<rparr>) ps st)
   }"

text \<open>
  One turn of the loop of \<^verbatim>\<open>main\<close>: the times of its four calls, the coins of the two
  receivers, and the steps the upload threads make after each call.
\<close>

record file_turn =
  clock :: "nat \<Rightarrow> i64"
  coins :: "bool \<Rightarrow> nat \<Rightarrow> bool"
  steps_after :: "nat \<Rightarrow> (bool \<times> nat) list"

definition file_round ::
  "build \<Rightarrow> (nat \<Rightarrow> nat) \<Rightarrow> (file_payload packet \<Rightarrow> 'bytes option) \<Rightarrow> ('bytes \<Rightarrow> file_payload packet option) \<Rightarrow>
   file_turn \<Rightarrow> 'bytes file_net \<Rightarrow> (loop_end \<times> 'bytes file_net) option" where
  "file_round b alloc encode decode env st = do {
     (r1, st) \<leftarrow> peer_receive b (clock env 0) alloc encode decode (coins env False) False st;
     st \<leftarrow> run_uploads b (clock env 0) encode (steps_after env 0) st;
     (r2, st) \<leftarrow> peer_receive b (clock env 1) alloc encode decode (coins env True) True st;
     st \<leftarrow> run_uploads b (clock env 1) encode (steps_after env 1) st;
     st \<leftarrow> peer_service b (clock env 2) encode False st;
     st \<leftarrow> run_uploads b (clock env 2) encode (steps_after env 2) st;
     st \<leftarrow> peer_service b (clock env 3) encode True st;
     st \<leftarrow> run_uploads b (clock env 3) encode (steps_after env 3) st;
     Some (if r1 = Done \<and> r2 = Done then Done else Blocked, st)
   }"

fun file_rounds ::
  "build \<Rightarrow> (nat \<Rightarrow> nat) \<Rightarrow> (file_payload packet \<Rightarrow> 'bytes option) \<Rightarrow> ('bytes \<Rightarrow> file_payload packet option) \<Rightarrow>
   file_turn list \<Rightarrow> 'bytes file_net \<Rightarrow> (loop_end \<times> 'bytes file_net) option" where
  "file_rounds b alloc encode decode [] st = Some (Done, st)"
| "file_rounds b alloc encode decode (env # envs) st = do {
     (r, st) \<leftarrow> file_round b alloc encode decode env st;
     case r of Done \<Rightarrow> file_rounds b alloc encode decode envs st | Blocked \<Rightarrow> Some (Blocked, st)
   }"

text \<open>The requests of \<^verbatim>\<open>main\<close>; an error or a wait ends the program.\<close>

fun file_requests ::
  "build \<Rightarrow> i64 \<Rightarrow> (file_payload packet \<Rightarrow> 'bytes option) \<Rightarrow> string list \<Rightarrow> 'bytes file_net \<Rightarrow>
   'bytes file_net option" where
  "file_requests b time encode [] st = Some st"
| "file_requests b time encode (f # fs) st = do {
     (ret, _, ps, x) \<leftarrow> sync_send b time False (RequestFile f) (seqex (fst st));
     case ret of
       Return (Inr _) \<Rightarrow> file_requests b time encode fs (put_peer encode False ((fst st)\<lparr>seqex := x\<rparr>) ps st)
     | _ \<Rightarrow> None
   }"

definition no_vars :: "filesystem \<Rightarrow> file_vars" where
  "no_vars fs = \<lparr> files = fs, uploads = [], unsolicited = [] \<rparr>"

definition file_main ::
  "build \<Rightarrow> (nat \<Rightarrow> nat) \<Rightarrow> (file_payload packet \<Rightarrow> 'bytes option) \<Rightarrow> ('bytes \<Rightarrow> file_payload packet option) \<Rightarrow>
   i64 \<Rightarrow> file_vec \<Rightarrow> file_vec \<Rightarrow> file_vec \<Rightarrow> file_turn list \<Rightarrow> (loop_end \<times> 'bytes file_net) option" where
  "file_main b alloc encode decode time file1 file2 file3 envs = do {
     let filesystem2 = [''File1'' \<mapsto> file1, ''File2'' \<mapsto> file2, ''File3'' \<mapsto> file3];
     x1 \<leftarrow> sync_new b DEFAULT_WINDOW_CAP 5 1;
     x2 \<leftarrow> sync_new b DEFAULT_WINDOW_CAP 5 1;
     let peer1 = \<lparr> vars = no_vars Map.empty, seqex = x1, inbox = new_channel \<rparr>;
     let peer2 = \<lparr> vars = no_vars filesystem2, seqex = x2, inbox = new_channel \<rparr>;
     st \<leftarrow> file_requests b time encode [''File1'', ''File3'', ''File2''] (peer1, peer2);
     file_rounds b alloc encode decode (take 400 envs) st
   }"

section \<open>Chunks\<close>

lemma upload_chunks_concat: "concat (upload_chunks file i) = drop i file"
proof (induction "file" i rule: upload_chunks.induct)
  case (1 bs i)
  show ?case
  proof (cases "i < length bs")
    case True
    let ?j = "min (length bs) (i + FILE_CHUNK_SIZE)"
    have "i \<le> ?j" using True by simp
    then have "take (?j - i) (drop i bs) @ drop ?j bs = drop i bs"
      by (metis append_take_drop_id drop_drop le_add_diff_inverse2)
    with 1 True show ?thesis by (simp add: upload_chunks.simps [of bs i] Let_def)
  qed (simp add: upload_chunks.simps [of bs i])
qed

lemma upload_chunks_sizes:
  "list_all (\<lambda>c. c \<noteq> [] \<and> length c \<le> FILE_CHUNK_SIZE) (upload_chunks file i)"
proof (induction "file" i rule: upload_chunks.induct)
  case (1 bs i)
  show ?case
  proof (cases "i < length bs")
    case True
    let ?c = "take (min (length bs) (i + FILE_CHUNK_SIZE) - i) (drop i bs)"
    have "0 < length ?c" and "length ?c \<le> FILE_CHUNK_SIZE" using True by (auto simp: FILE_CHUNK_SIZE_def)
    with 1 [OF True refl] True show ?thesis by (subst upload_chunks.simps) (simp add: Let_def)
  qed (subst upload_chunks.simps, simp)
qed

section \<open>Rebuilding a file\<close>

text \<open>What an item carries: the data received and the data it replies to.\<close>

definition carried :: "file_item \<Rightarrow> file_payload option \<times> file_payload option" where
  "carried item = (map_option snd (fst (recv_consume item)), snd (recv_consume item))"

text \<open>The items that download the file \<open>f\<close>, and those that a whole download of it consists of.\<close>

fun downloads :: "string \<Rightarrow> file_payload option \<times> file_payload option \<Rightarrow> bool" where
  "downloads f (Some (ConfirmRequestFile n), Some (RequestFile f')) = (f' = f)"
| "downloads f (Some (FileDownload f' c), None) = (f' = f)"
| "downloads f _ = False"

definition download_of :: "string \<Rightarrow> u8 list \<Rightarrow> (file_payload option \<times> file_payload option) list" where
  "download_of f file = (Some (ConfirmRequestFile (of_nat (length file))), Some (RequestFile f))
     # map (\<lambda>c. (Some (FileDownload f c), None)) (upload_chunks file 0)"

fun carried_effect ::
  "(nat \<Rightarrow> nat) \<Rightarrow> file_payload option \<times> file_payload option \<Rightarrow> file_vec option \<Rightarrow> file_vec option" where
  "carried_effect alloc (Some (ConfirmRequestFile n), Some (RequestFile f)) v =
     Some \<lparr> contents = [], capacity = alloc (unat n) \<rparr>"
| "carried_effect alloc (Some (FileDownload f c), None) v =
     map_option (\<lambda>v. if length (contents v) + length c \<le> capacity v then v\<lparr>contents := contents v @ c\<rparr> else v) v"
| "carried_effect alloc _ v = v"

text \<open>Only the items of a file change it.\<close>

lemma fs_effect_at:
  "fs_effect alloc item fs f = (if downloads f (carried item) then carried_effect alloc (carried item) (fs f) else fs f)"
  by (cases item; cases "(f, carried item)" rule: downloads.cases)
    (auto simp: fs_effect_def carried_def split: option.splits file_payload.splits)

lemma fs_effects_at:
  "fold (fs_effect alloc) items fs f
    = fold (carried_effect alloc) (filter (downloads f) (map carried items)) (fs f)"
  by (induction items arbitrary: fs) (simp_all add: fs_effect_at)

lemma chunks_append:
  assumes "length (contents v) + length (concat cs) \<le> capacity v"
  shows "fold (carried_effect alloc) (map (\<lambda>c. (Some (FileDownload f c), None)) cs) (Some v)
    = Some (v\<lparr>contents := contents v @ concat cs\<rparr>)"
  using assms by (induction cs arbitrary: v) simp_all

text \<open>
  C39. A download rebuilds the file. Let the items that concern file \<open>f\<close>, among all that the receiver
  processes, be the confirmation of the request and then the chunks of the upload in order; items of
  other files may come in between. Then the receiver ends with exactly the bytes of the file,
  whatever it had before: every chunk fits, as the vector holds at least the confirmed size.
\<close>

theorem download_rebuilds_file:
  assumes "filter (downloads f) (map carried items) = download_of f file"
    and "length file < 2 ^ 64" and "length file \<le> alloc (length file)"
  shows "map_option contents (fold (fs_effect alloc) items fs f) = Some file"
proof -
  let ?v = "\<lparr> contents = [], capacity = alloc (unat (of_nat (length file) :: u64)) \<rparr>"
  have size: "unat (of_nat (length file) :: u64) = length file"
    using assms(2) by (simp add: unat_of_nat)
  have "fold (fs_effect alloc) items fs f
      = fold (carried_effect alloc) (map (\<lambda>c. (Some (FileDownload f c), None)) (upload_chunks file 0)) (Some ?v)"
    by (simp add: fs_effects_at assms(1) download_of_def)
  also have "\<dots> = Some (?v\<lparr>contents := contents ?v @ concat (upload_chunks file 0)\<rparr>)"
    by (rule chunks_append) (use assms(3) in \<open>simp add: size upload_chunks_concat\<close>)
  finally show ?thesis by (simp add: upload_chunks_concat)
qed

text \<open>Two downloads interleaved.\<close>

definition guard_at :: "seq_no \<Rightarrow> reply_guard" where
  "guard_at n = guard_new n True"

definition two_downloads :: "file_item list" where
  "two_downloads =
     [RecvReply (guard_at 1) (ConfirmRequestFile 2) (RequestFile ''a''),
      RecvReply (guard_at 2) (ConfirmRequestFile 1) (RequestFile ''b''),
      RecvPayload (guard_at 3) (FileDownload ''b'' [9]), RecvPayload (guard_at 4) (FileDownload ''a'' [7, 8])]"

theorem download_rebuilds_file_witness:
  "map_option contents (fold (fs_effect id) two_downloads Map.empty ''a'') = Some [7, 8]"
proof (rule download_rebuilds_file)
  show "filter (downloads ''a'') (map carried two_downloads) = download_of ''a'' [7, 8]"
    by (simp add: two_downloads_def carried_def download_of_def upload_chunks.simps FILE_CHUNK_SIZE_def Let_def)
qed simp_all

section \<open>Runs of the program\<close>

text \<open>
  Small files, and packets as their own encoding. When nothing is dropped, two turns put the files of
  the second peer into the filesystem of the first. In the other run the first request is dropped
  twice and so are the replies to the two that overtook it: their repetitions are handed over again,
  two files are sent twice, and the second confirmation of each comes as an unsolicited packet.
\<close>

definition turn_at ::
  "i64 \<Rightarrow> (nat \<Rightarrow> bool) \<Rightarrow> (nat \<Rightarrow> bool) \<Rightarrow> (bool \<times> nat) list \<Rightarrow> file_turn" where
  "turn_at t coin1 coin2 steps =
     \<lparr> clock = (\<lambda>_. t), coins = (\<lambda>i. if i then coin2 else coin1), steps_after = (\<lambda>_. steps) \<rparr>"

definition small_file :: "u8 list \<Rightarrow> file_vec" where
  "small_file bs = \<lparr> contents = bs, capacity = length bs \<rparr>"

text \<open>The files of the first peer, and the numbers of its unsolicited packets and of upload threads.\<close>

definition file_outcome ::
  "build \<Rightarrow> file_turn list \<Rightarrow> (loop_end \<times> u8 list option list \<times> nat \<times> nat) option" where
  "file_outcome b envs = map_option (\<lambda>(r, p1, p2).
       (r, map (\<lambda>f. map_option contents (files (vars p1) f)) [''File1'', ''File2'', ''File3''],
        length (unsolicited (vars p1)), length (uploads (vars p2))))
     (file_main b id Some Some 0 (small_file [7, 8, 9]) (small_file []) (small_file [1]) envs)"

definition never :: "nat \<Rightarrow> bool" where
  "never = (\<lambda>_. False)"

definition uploads_run :: "(bool \<times> nat) list" where
  "uploads_run = map (Pair True) [0..<5]"

lemma file_runs:
  "file_outcome Debug (replicate 2 (turn_at 5 never never uploads_run))
    = Some (Done, [Some [7, 8, 9], Some [], Some [1]], 0, 3)"
  "file_outcome Release ([turn_at 5 never (\<lambda>k. k = 0) [], turn_at 5 (\<lambda>_. True) (\<lambda>k. k = 0) []]
      @ map (\<lambda>t. turn_at t never never uploads_run) [10, 15, 20])
    = Some (Done, [Some [7, 8, 9], Some [], Some [1]], 2, 5)"
  by code_simp+

end
