(* ===== verification/Iter_Mut.thy ===== *)
theory Iter_Mut
  imports Guards
begin

text \<open>
  The mutable iterator over the send window (\<^verbatim>\<open>IterMut\<close> of
  \<^verbatim>\<open>src/no_std.rs\<close>). It yields references to the data of the entries; a reference is
  the index of its slot, so that the caller writes through it to the window.
\<close>

section \<open>The iterator\<close>

text \<open>A mutable slice iterator is the range of indices it has still to yield.\<close>

type_synonym iter_mut_range = "nat \<times> nat"

definition iter_mut :: "('s, 'r) seqex \<Rightarrow> iter_mut_range" where
  "iter_mut s = (0, length (send_window s))"

function iter_mut_next :: "'s send_entry option list \<Rightarrow> iter_mut_range \<Rightarrow> nat option \<times> iter_mut_range" where
  "iter_mut_next w (i, j) =
     (if i < j then
        (case arr_get w i of
           Some (Some _) \<Rightarrow> (Some i, (Suc i, j))
         | _ \<Rightarrow> iter_mut_next w (Suc i, j))
      else (None, (i, j)))"
  by pat_completeness auto
termination
  by (relation "measure (\<lambda>(w, i, j). j - i)") auto

function iter_mut_next_back :: "'s send_entry option list \<Rightarrow> iter_mut_range \<Rightarrow> nat option \<times> iter_mut_range" where
  "iter_mut_next_back w (i, j) =
     (if i < j then
        (case arr_get w (j - 1) of
           Some (Some _) \<Rightarrow> (Some (j - 1), (i, j - 1))
         | _ \<Rightarrow> iter_mut_next_back w (i, j - 1))
      else (None, (i, j)))"
  by pat_completeness auto
termination
  by (relation "measure (\<lambda>(w, i, j). j - i)") auto

declare iter_mut_next.simps [simp del] iter_mut_next_back.simps [simp del]

text \<open>Writing through a reference.\<close>

definition write_data :: "nat \<Rightarrow> ('s \<Rightarrow> 's) \<Rightarrow> ('s, 'r) seqex \<Rightarrow> ('s, 'r) seqex" where
  "write_data i f s = s\<lparr>send_window := (send_window s)
     [i := map_option (\<lambda>e. e\<lparr>entry_data := f (entry_data e)\<rparr>) (send_window s ! i)]\<rparr>"

lemma iter_mut_next_range:
  assumes "iter_mut_next w (i, j) = (Some k, r)"
  shows "i \<le> k \<and> k < j \<and> r = (Suc k, j)"
  using assms
proof (induction "j - i" arbitrary: i)
  case 0
  then show ?case by (simp add: iter_mut_next.simps [of w i j])
next
  case (Suc n)
  from Suc.hyps(2) have "i < j" and "n = j - Suc i" by simp_all
  with Suc.hyps(1) [of "Suc i"] Suc.prems show ?case
    by (fastforce simp: iter_mut_next.simps [of w i j] split: option.splits)
qed

text \<open>The loop \<^verbatim>\<open>for data in seq.iter_mut()\<close> whose body replaces the data.\<close>

function iter_mut_for :: "('s \<Rightarrow> 's) \<Rightarrow> iter_mut_range \<Rightarrow> ('s, 'r) seqex \<Rightarrow> ('s, 'r) seqex" where
  "iter_mut_for f r s =
     (case iter_mut_next (send_window s) r of
        (None, _) \<Rightarrow> s
      | (Some k, r') \<Rightarrow> iter_mut_for f r' (write_data k f s))"
  by pat_completeness auto
termination
  by (relation "measure (\<lambda>(f, (i, j), s). j - i)") (auto dest!: iter_mut_next_range [OF sym])

declare iter_mut_for.simps [simp del]

section \<open>What the loop does\<close>

definition data_mapped :: "('s \<Rightarrow> 's) \<Rightarrow> 's send_entry option \<Rightarrow> 's send_entry option" where
  "data_mapped f = map_option (\<lambda>e. e\<lparr>entry_data := f (entry_data e)\<rparr>)"

lemma iter_mut_next_slot:
  "j \<le> i \<Longrightarrow> iter_mut_next w (i, j) = (None, (i, j))"
  "i < j \<Longrightarrow> j \<le> length w \<Longrightarrow> w ! i = None \<Longrightarrow> iter_mut_next w (i, j) = iter_mut_next w (Suc i, j)"
  "i < j \<Longrightarrow> j \<le> length w \<Longrightarrow> w ! i = Some e \<Longrightarrow> iter_mut_next w (i, j) = (Some i, (Suc i, j))"
  by (simp_all add: iter_mut_next.simps [of w i j] arr_get_def)

lemma iter_mut_for_slot:
  "cap_of s \<le> i \<Longrightarrow> iter_mut_for f (i, cap_of s) s = s"
  "i < cap_of s \<Longrightarrow> send_window s ! i = None \<Longrightarrow>
     iter_mut_for f (i, cap_of s) s = iter_mut_for f (Suc i, cap_of s) s"
  "i < cap_of s \<Longrightarrow> send_window s ! i = Some e \<Longrightarrow>
     iter_mut_for f (i, cap_of s) s = iter_mut_for f (Suc i, cap_of s) (write_data i f s)"
  using iter_mut_for.simps [of f "(i, cap_of s)" s] iter_mut_for.simps [of f "(Suc i, cap_of s)" s]
  by (simp_all add: iter_mut_next_slot)

lemma iter_mut_for_eq:
  "iter_mut_for f (i, cap_of s) s
    = s\<lparr>send_window := take i (send_window s) @ map (data_mapped f) (drop i (send_window s))\<rparr>"
proof (induction "cap_of s - i" arbitrary: i s)
  case 0
  then show ?case by (simp add: iter_mut_for_slot(1))
next
  case (Suc n)
  from Suc.hyps(2) have i: "i < cap_of s" and n: "n = cap_of s - Suc i" by simp_all
  let ?w = "send_window s"
  have split: "drop i ?w = ?w ! i # drop (Suc i) ?w" and "take (Suc i) ?w = take i ?w @ [?w ! i]"
    using i by (simp_all add: Cons_nth_drop_Suc take_Suc_conv_app_nth)
  show ?case
  proof (cases "?w ! i")
    case None
    with Suc.hyps(1) [OF n] i split show ?thesis
      by (simp add: iter_mut_for_slot(2) take_Suc_conv_app_nth data_mapped_def)
  next
    case (Some e)
    have "n = cap_of (write_data i f s) - Suc i" using n by (simp add: write_data_def)
    from Suc.hyps(1) [OF this] Some i split show ?thesis
      by (simp add: iter_mut_for_slot(3) write_data_def take_Suc_conv_app_nth data_mapped_def)
  qed
qed

text \<open>
  The loop changes the data of every entry, once, and nothing else: the sequence numbers, the timers
  and the invariant stay.
\<close>

lemma iter_mut_maps_data:
  "iter_mut_for f (iter_mut s) s = s\<lparr>send_window := map (data_mapped f) (send_window s)\<rparr>"
  using iter_mut_for_eq [of f 0 s] by (simp add: iter_mut_def)

lemma iter_mut_sent:
  "sent (iter_mut_for f (iter_mut s) s) m = (if cap_of s = 0 then sent s m else data_mapped f (sent s m))"
  by (cases "send_window s ! slot (cap_of s) m")
    (auto simp: iter_mut_maps_data sent_def data_mapped_def slot_def)

lemma iter_mut_keeps_inv:
  assumes "seq_inv s"
  shows "seq_inv (iter_mut_for f (iter_mut s) s)"
proof -
  note shape = wf_parts(1) [OF assms]
  have slot: "slot (cap_of s) n < cap_of s" for n by (rule window_ring.slot_less [OF shape_ring [OF shape]])
  show ?thesis
    using assms slot unfolding iter_mut_maps_data
    by (auto simp: seq_inv_def shape_def send_ok_def recv_ok_def head_ok_def recv_head_def reserved_ok_def
        data_mapped_def)
qed

section \<open>A double-ended queue\<close>

text \<open>The occupied slots that a range has still to yield, in order.\<close>

definition has_entry :: "'s send_entry option list \<Rightarrow> nat \<Rightarrow> bool" where
  "has_entry w k = (case arr_get w k of Some (Some _) \<Rightarrow> True | _ \<Rightarrow> False)"

fun left_over :: "'s send_entry option list \<Rightarrow> iter_mut_range \<Rightarrow> nat list" where
  "left_over w (i, j) = filter (has_entry w) [i..<j]"

lemma left_over_front:
  "left_over w (i, j) = (if i < j then (if has_entry w i then [i] else []) @ left_over w (Suc i, j) else [])"
  by (simp add: upt_conv_Cons)

lemma left_over_back:
  "left_over w (i, j)
    = (if i < j then left_over w (i, j - 1) @ (if has_entry w (j - 1) then [j - 1] else []) else [])"
proof (cases "i < j")
  case True
  then have "[i..<j] = [i..<j - 1] @ [j - 1]" using upt_Suc_append [of i "j - 1"] by simp
  then have "left_over w (i, j) = filter (has_entry w) ([i..<j - 1] @ [j - 1])" by simp
  with True show ?thesis by simp
qed simp

declare left_over.simps [simp del]

lemma next_takes_front:
  "fst (iter_mut_next w r) = (case left_over w r of [] \<Rightarrow> None | k # ks \<Rightarrow> Some k)
   \<and> left_over w (snd (iter_mut_next w r)) = drop 1 (left_over w r)"
proof (induction w r rule: iter_mut_next.induct)
  case (1 w i j)
  then show ?case
    by (cases "has_entry w i")
      (auto simp: iter_mut_next.simps [of w i j] left_over_front [of w i j] has_entry_def
        split: option.splits)
qed

lemma next_back_takes_back:
  "fst (iter_mut_next_back w r) = (if left_over w r = [] then None else Some (last (left_over w r)))
   \<and> left_over w (snd (iter_mut_next_back w r)) = butlast (left_over w r)"
proof (induction w r rule: iter_mut_next_back.induct)
  case (1 w i j)
  then show ?case
    by (cases "has_entry w (j - 1)")
      (auto simp: iter_mut_next_back.simps [of w i j] left_over_back [of w i j] has_entry_def
        split: option.splits)
qed

text \<open>
  C22. The mutable iterator is a double-ended queue of the entries. It starts with the indices of all
  occupied slots of the send window, in order; \<^verbatim>\<open>next\<close> takes the first one that is left
  and \<^verbatim>\<open>next_back\<close> the last, in any interleaving, so that each entry is lent exactly
  once; both answer \<^verbatim>\<open>None\<close> when nothing is left.
\<close>

theorem iter_mut_is_deque:
  "left_over (send_window s) (iter_mut s) = filter (\<lambda>k. send_window s ! k \<noteq> None) [0..<cap_of s]
    \<and> fst (iter_mut_next w r) = (case left_over w r of [] \<Rightarrow> None | k # ks \<Rightarrow> Some k)
    \<and> left_over w (snd (iter_mut_next w r)) = drop 1 (left_over w r)
    \<and> fst (iter_mut_next_back w r) = (if left_over w r = [] then None else Some (last (left_over w r)))
    \<and> left_over w (snd (iter_mut_next_back w r)) = butlast (left_over w r)"
proof -
  have "left_over (send_window s) (iter_mut s) = filter (\<lambda>k. send_window s ! k \<noteq> None) [0..<cap_of s]"
    by (auto simp: left_over.simps iter_mut_def has_entry_def intro!: filter_cong split: option.splits)
  then show ?thesis using next_takes_front [of w r] next_back_takes_back [of w r] by blast
qed

end
