(* ===== verification/Debug_Format.thy ===== *)
theory Debug_Format
  imports Sync
begin

text \<open>
  The implementations of \<^verbatim>\<open>Debug\<close> for reply guards and received packets, on one
  line as \<^verbatim>\<open>{:?}\<close> prints them. How the data prints is a parameter.
\<close>

section \<open>What the standard library prints\<close>

definition digit :: "nat \<Rightarrow> char" where
  "digit d = char_of (48 + d)"

fun decimal :: "nat \<Rightarrow> string" where
  "decimal n = (if n < 10 then [digit n] else decimal (n div 10) @ [digit (n mod 10)])"

declare decimal.simps [simp del]

definition debug_bool :: "bool \<Rightarrow> string" where
  "debug_bool b = (if b then ''true'' else ''false'')"

text \<open>\<^verbatim>\<open>debug_struct\<close> with its fields, up to \<^verbatim>\<open>finish\<close>.\<close>

fun debug_fields :: "(string \<times> string) list \<Rightarrow> string" where
  "debug_fields [] = []"
| "debug_fields [(name, v)] = name @ '': '' @ v"
| "debug_fields ((name, v) # fs) = name @ '': '' @ v @ '', '' @ debug_fields fs"

definition debug_struct :: "string \<Rightarrow> (string \<times> string) list \<Rightarrow> string" where
  "debug_struct name fs = (if fs = [] then name else name @ '' { '' @ debug_fields fs @ '' }'')"

section \<open>The implementations\<close>

definition debug_reply_guard :: "reply_guard \<Rightarrow> string" where
  "debug_reply_guard g = debug_struct ''ReplyGuard''
     [(''reply_no'', decimal (unat (guard_reply_no g))), (''is_holding_lock'', debug_bool (is_holding_lock g))]"

definition sync_debug_reply_guard :: "reply_guard \<Rightarrow> string" where
  "sync_debug_reply_guard g = debug_struct ''ReplyGuard''
     [(''reply_no'', decimal (unat (guard_reply_no g))), (''is_holding_lock'', debug_bool (is_holding_lock g))]"

definition async_debug_reply_guard :: "reply_guard \<Rightarrow> string" where
  "async_debug_reply_guard g = debug_struct ''ReplyGuard''
     [(''reply_no'', decimal (unat (guard_reply_no g))), (''is_holding_lock'', debug_bool (is_holding_lock g))]"

fun debug_recv_ok :: "(reply_guard \<Rightarrow> string) \<Rightarrow> ('r \<Rightarrow> string) \<Rightarrow> ('s \<Rightarrow> string) \<Rightarrow> ('s, 'r) recv_ok \<Rightarrow> string" where
  "debug_recv_ok dg dr ds (RecvPayload g d) =
     debug_struct ''Payload'' [(''reply_guard'', dg g), (''recv_data'', dr d)]"
| "debug_recv_ok dg dr ds (RecvReply g d e) =
     debug_struct ''Reply'' [(''reply_guard'', dg g), (''recv_data'', dr d), (''send_data'', ds e)]"
| "debug_recv_ok dg dr ds (RecvAck e) = debug_struct ''Ack'' [(''send_data'', ds e)]"

section \<open>A number can be read back\<close>

definition read_decimal :: "string \<Rightarrow> nat" where
  "read_decimal cs = foldl (\<lambda>n c. 10 * n + (of_char c - 48)) 0 cs"

lemma digit_value: "d < 10 \<Longrightarrow> of_char (digit d) - 48 = d"
  by (simp add: digit_def)

lemma read_decimal: "read_decimal (decimal n) = n"
proof (induction n rule: decimal.induct)
  case (1 n)
  show ?case
  proof (cases "n < 10")
    case False
    then have "decimal n = decimal (n div 10) @ [digit (n mod 10)]" by (simp add: decimal.simps [of n])
    with 1 [OF False] show ?thesis by (simp add: read_decimal_def digit_value)
  qed (simp add: decimal.simps [of n] read_decimal_def digit_value)
qed

lemma decimal_inj: "decimal m = decimal n \<longleftrightarrow> m = n"
  using read_decimal by metis

text \<open>Different guards print differently.\<close>

lemma digit_not_comma: "d < 10 \<Longrightarrow> digit d \<noteq> CHR '',''"
proof
  assume "d < 10" and "digit d = CHR '',''"
  then have "(of_char (digit d) :: nat) = of_char (CHR '','')" by simp
  with \<open>d < 10\<close> show False by (simp add: digit_def)
qed

lemma decimal_no_comma: "CHR '','' \<notin> set (decimal n)"
proof (induction n rule: decimal.induct)
  case (1 n)
  then show ?case
    using digit_not_comma [of n] digit_not_comma [of "n mod 10"]
    by (cases "n < 10") (auto simp: decimal.simps [of n])
qed

lemma before_comma: "CHR '','' \<notin> set xs \<Longrightarrow> takeWhile (\<lambda>c. c \<noteq> CHR '','') (xs @ CHR '','' # ys) = xs"
  by (induction xs) auto

theorem debug_reply_guard_inj: "debug_reply_guard g = debug_reply_guard h \<longleftrightarrow> g = h"
proof
  let ?rest = "\<lambda>g. '' is_holding_lock: '' @ debug_bool (is_holding_lock g) @ '' }''"
  let ?body = "\<lambda>g. decimal (unat (guard_reply_no g)) @ CHR '','' # ?rest g"
  have body: "debug_reply_guard g = ''ReplyGuard { reply_no: '' @ ?body g" for g
    by (simp add: debug_reply_guard_def debug_struct_def)
  assume "debug_reply_guard g = debug_reply_guard h"
  then have eq: "?body g = ?body h" by (simp add: body)
  have "decimal (unat (guard_reply_no g)) = decimal (unat (guard_reply_no h))"
    using arg_cong [OF eq, of "takeWhile (\<lambda>c. c \<noteq> CHR '','')"] by (simp only: before_comma [OF decimal_no_comma])
  then have "guard_reply_no g = guard_reply_no h" by (simp add: decimal_inj word_unat_eq_iff)
  moreover from this eq have "is_holding_lock g = is_holding_lock h"
    by (simp add: debug_bool_def split: if_splits)
  ultimately show "g = h" by simp
qed simp

end
