(* ===== verification/Hello_Tokio.thy ===== *)
theory Hello_Tokio
  imports Async_Timer Mpsc
begin

text \<open>
  \<^verbatim>\<open>examples/hello_world_tokio.rs\<close>: two instances of the async API exchange
  the words of a greeting. A task of tokio runs from one \<^verbatim>\<open>await\<close> that is not
  ready to the next: one step here is a poll of one task, and a schedule is the list of the polls the
  executor makes, in any order. The bounded channel of the tokio crate is a parameter; a oneshot
  channel is a number, as in the theory of the API.
\<close>

section \<open>One peer\<close>

datatype greeting = Hello | Space | World | Exclamation | NewLine

text \<open>What is printed; a failed assertion ends its task only.\<close>

datatype said = Say string | Unsolicited greeting

text \<open>
  The state of one peer: the instance, its service task, the queue of updates to it, the messages sent
  on oneshot channels so far, and the number of the next oneshot channel.
\<close>

record side =
  side_inner :: "(greeting, greeting) async_inner"
  side_service :: service_state
  side_updates :: "i64 list"
  side_told :: "greeting event list"
  side_chans :: chan

definition side_new :: "build \<Rightarrow> side option" where
  "side_new b = do {
     (x, service) \<leftarrow> async_new_default b DEFAULT_WINDOW_CAP;
     Some \<lparr> side_inner = x, side_service = service, side_updates = [], side_told = [], side_chans = 0 \<rparr>
   }"

text \<open>
  A oneshot channel is ready when a message was sent on it, or when its sending end is gone: it is not
  in the window any more.
\<close>

fun exchange_message :: "chan \<Rightarrow> greeting event list \<Rightarrow> (seq_no \<times> bool \<times> greeting) option option" where
  "exchange_message ch [] = None"
| "exchange_message ch (TellSender c m # es) = (if c = ch then Some m else exchange_message ch es)"
| "exchange_message ch (_ # es) = exchange_message ch es"

fun receive_message :: "chan \<Rightarrow> greeting event list \<Rightarrow> (seq_no \<times> bool \<times> greeting) option" where
  "receive_message ch [] = None"
| "receive_message ch (TellReceiver c m # es) = (if c = ch then Some m else receive_message ch es)"
| "receive_message ch (_ # es) = receive_message ch es"

definition sent_with :: "chan \<Rightarrow> ('s sender, 'r receiver) seqex \<Rightarrow> bool" where
  "sent_with ch s \<longleftrightarrow>
     list_ex (\<lambda>x. case x of Some e \<Rightarrow> fst (entry_data e) = ch | None \<Rightarrow> False) (send_window s)"

definition poll_exchange :: "chan \<Rightarrow> side \<Rightarrow> (async_error + (reply_guard \<times> greeting)) option" where
  "poll_exchange ch st =
     (case exchange_message ch (side_told st) of
        Some m \<Rightarrow> Some (exchange_answer (Some m))
      | None \<Rightarrow> if sent_with ch (async_seq (side_inner st)) then None else Some (exchange_answer None))"

definition poll_received :: "chan \<Rightarrow> side \<Rightarrow> (async_recv_error + (reply_guard \<times> greeting)) option" where
  "poll_received ch st =
     (case receive_message ch (side_told st) of
        Some m \<Rightarrow> Some (receive_answer (Some m))
      | None \<Rightarrow> if stored_with ch (async_seq (side_inner st)) then None else Some (receive_answer None))"

text \<open>
  \<^verbatim>\<open>reply\<close> up to the wait for its answer on the channel it returns, and the
  destructor of a guard.
\<close>

definition side_reply ::
  "build \<Rightarrow> i64 \<Rightarrow> greeting \<Rightarrow> reply_guard \<Rightarrow> side \<Rightarrow> (chan \<times> greeting packet list \<times> side) option" where
  "side_reply b time d g st = do {
     let ch = side_chans st;
     (update, ps, es, x) \<leftarrow> async_reply b time ch False d g (side_inner st);
     Some (ch, ps, st\<lparr>side_inner := x, side_updates := side_updates st @ queued update,
       side_told := side_told st @ es, side_chans := ch + 1\<rparr>)
   }"

definition side_drop :: "build \<Rightarrow> reply_guard \<Rightarrow> side \<Rightarrow> (greeting packet list \<times> side) option" where
  "side_drop b g st = do {
     (ps, es, x) \<leftarrow> async_drop b g (side_inner st);
     Some (ps, st\<lparr>side_inner := x, side_told := side_told st @ es\<rparr>)
   }"

section \<open>The task of a packet\<close>

text \<open>
  A task spawned for a packet waits, after its first poll, in \<^verbatim>\<open>receive\<close> of the
  instance for a stored packet, or in \<^verbatim>\<open>receive\<close> of the example for an answer.
\<close>

datatype job =
    Arrived "greeting packet"
  | AwaitPacket chan
  | AwaitWorld chan
  | AwaitNewLine chan

type_synonym job_result = "job option \<times> said list \<times> greeting packet list \<times> side"

definition job_drop :: "build \<Rightarrow> said list \<Rightarrow> reply_guard \<Rightarrow> side \<Rightarrow> job_result option" where
  "job_drop b out g st = do {
     (ps, st) \<leftarrow> side_drop b g st;
     Some (None, out, ps, st)
   }"

definition receive_start ::
  "build \<Rightarrow> i64 \<Rightarrow> reply_guard \<Rightarrow> greeting \<Rightarrow> side \<Rightarrow> job_result option" where
  "receive_start b time g d st =
     (case d of
        Hello \<Rightarrow> do {
          (ch, ps, st) \<leftarrow> side_reply b time Space g st;
          Some (Some (AwaitWorld ch), [Say ''Hello''], ps, st)
        }
      | _ \<Rightarrow> job_drop b [Unsolicited d] g st)"

definition receive_world ::
  "build \<Rightarrow> i64 \<Rightarrow> reply_guard \<Rightarrow> greeting \<Rightarrow> side \<Rightarrow> job_result option" where
  "receive_world b time g d st =
     (if d \<noteq> World then job_drop b [] g st
      else do {
        (ch, ps, st) \<leftarrow> side_reply b time Exclamation g st;
        Some (Some (AwaitNewLine ch), [Say ''World''], ps, st)
      })"

definition receive_new_line :: "build \<Rightarrow> reply_guard \<Rightarrow> greeting \<Rightarrow> side \<Rightarrow> job_result option" where
  "receive_new_line b g d st =
     (if d \<noteq> NewLine then job_drop b [] g st else job_drop b [Say ''\<newline>''] g st)"

fun poll_job :: "build \<Rightarrow> i64 \<Rightarrow> job \<Rightarrow> side \<Rightarrow> job_result option" where
  "poll_job b time (Arrived p) st = do {
     (res, ps, es, x) \<leftarrow> async_receive b (\<lambda>_. True) (side_chans st) p (side_inner st);
     let st = st\<lparr>side_inner := x, side_told := side_told st @ es\<rparr>;
     case res of
       Ready (Inr (g, d)) \<Rightarrow> do {
         (j, out, ps', st) \<leftarrow> receive_start b time g d st;
         Some (j, out, ps @ ps', st)
       }
     | Ready (Inl _) \<Rightarrow> Some (None, [], ps, st)
     | AwaitChan ch \<Rightarrow> Some (Some (AwaitPacket ch), [], ps, st\<lparr>side_chans := side_chans st + 1\<rparr>)
   }"
| "poll_job b time (AwaitPacket ch) st =
     (case poll_received ch st of
        None \<Rightarrow> Some (Some (AwaitPacket ch), [], [], st)
      | Some (Inl _) \<Rightarrow> Some (None, [], [], st)
      | Some (Inr (g, d)) \<Rightarrow> receive_start b time g d st)"
| "poll_job b time (AwaitWorld ch) st =
     (case poll_exchange ch st of
        None \<Rightarrow> Some (Some (AwaitWorld ch), [], [], st)
      | Some (Inl _) \<Rightarrow> Some (None, [], [], st)
      | Some (Inr (g, d)) \<Rightarrow> receive_world b time g d st)"
| "poll_job b time (AwaitNewLine ch) st =
     (case poll_exchange ch st of
        None \<Rightarrow> Some (Some (AwaitNewLine ch), [], [], st)
      | Some (Inl _) \<Rightarrow> Some (None, [], [], st)
      | Some (Inr (g, d)) \<Rightarrow> receive_new_line b g d st)"

section \<open>The task that says hello\<close>

text \<open>
  A send that was refused waits for a notification made after the first \<open>n\<close> events. \<open>Returned\<close> is
  what \<^verbatim>\<open>say_hello\<close> returns.
\<close>

datatype main_task =
    Begin
  | Refused send_turn nat
  | AwaitSpace chan
  | AwaitExclamation chan
  | AwaitEnd chan
  | Returned "unit option"

type_synonym main_result = "main_task \<times> said list \<times> greeting packet list \<times> side"

definition hello_send :: "build \<Rightarrow> i64 \<Rightarrow> side \<Rightarrow> main_result option" where
  "hello_send b time st = do {
     let ch = side_chans st;
     (turn, ps, x) \<leftarrow> async_send b time ch False Hello (side_inner st);
     let st = st\<lparr>side_inner := x\<rparr>;
     Some (case turn of
             AwaitAnswer ch update \<Rightarrow>
               (AwaitSpace ch, [], ps,
                st\<lparr>side_updates := side_updates st @ queued update, side_chans := ch + 1\<rparr>)
           | _ \<Rightarrow> (Refused turn (length (side_told st)), [], ps, st))
   }"

definition main_drop :: "build \<Rightarrow> reply_guard \<Rightarrow> side \<Rightarrow> main_result option" where
  "main_drop b g st = do {
     (ps, st) \<leftarrow> side_drop b g st;
     Some (Returned None, [], ps, st)
   }"

definition hello_space :: "build \<Rightarrow> i64 \<Rightarrow> reply_guard \<Rightarrow> greeting \<Rightarrow> side \<Rightarrow> main_result option" where
  "hello_space b time g d st =
     (if d \<noteq> Space then main_drop b g st
      else do {
        (ch, ps, st) \<leftarrow> side_reply b time World g st;
        Some (AwaitExclamation ch, [Say '' ''], ps, st)
      })"

definition hello_exclamation :: "build \<Rightarrow> i64 \<Rightarrow> reply_guard \<Rightarrow> greeting \<Rightarrow> side \<Rightarrow> main_result option" where
  "hello_exclamation b time g d st =
     (if d \<noteq> Exclamation then main_drop b g st
      else do {
        (ch, ps, st) \<leftarrow> side_reply b time NewLine g st;
        Some (AwaitEnd ch, [Say ''!''], ps, st)
      })"

definition awaited_notify :: "send_turn \<Rightarrow> greeting event" where
  "awaited_notify turn = (if turn = AwaitRecvNotify then NotifyRecvWaiter else NotifyReplyWaiters)"

fun poll_main :: "build \<Rightarrow> i64 \<Rightarrow> main_task \<Rightarrow> side \<Rightarrow> main_result option" where
  "poll_main b time Begin st = hello_send b time st"
| "poll_main b time (Refused turn n) st =
     (if List.member (drop n (side_told st)) (awaited_notify turn) then hello_send b time st
      else Some (Refused turn n, [], [], st))"
| "poll_main b time (AwaitSpace ch) st =
     (case poll_exchange ch st of
        None \<Rightarrow> Some (AwaitSpace ch, [], [], st)
      | Some (Inl _) \<Rightarrow> Some (Returned None, [], [], st)
      | Some (Inr (g, d)) \<Rightarrow> hello_space b time g d st)"
| "poll_main b time (AwaitExclamation ch) st =
     (case poll_exchange ch st of
        None \<Rightarrow> Some (AwaitExclamation ch, [], [], st)
      | Some (Inl _) \<Rightarrow> Some (Returned None, [], [], st)
      | Some (Inr (g, d)) \<Rightarrow> hello_exclamation b time g d st)"
| "poll_main b time (AwaitEnd ch) st =
     (case poll_exchange ch st of
        None \<Rightarrow> Some (AwaitEnd ch, [], [], st)
      | Some (Inl _) \<Rightarrow> Some (Returned (Some ()), [], [], st)
      | Some (Inr (g, _)) \<Rightarrow> do {
          (ps, st) \<leftarrow> side_drop b g st;
          Some (Returned (Some ()), [], ps, st)
        })"
| "poll_main b time (Returned r) st = Some (Returned r, [], [], st)"

section \<open>The program\<close>

text \<open>
  \<open>False\<close> is the first peer, \<open>True\<close> the second one. \<open>offer\<close> is \<^verbatim>\<open>try_send\<close> on a
  channel; \<open>poll_recv\<close> is a poll of \<^verbatim>\<open>recv\<close>, which gives nothing when it is not ready.
\<close>

record 'ch tokio_channel =
  channel :: "nat \<Rightarrow> 'ch"
  offer :: "greeting packet \<Rightarrow> 'ch \<Rightarrow> bool \<times> 'ch"
  poll_recv :: "'ch \<Rightarrow> greeting packet option \<times> 'ch"

record 'ch program =
  hello_task :: main_task
  sides :: "bool \<Rightarrow> side"
  inboxes :: "bool \<Rightarrow> 'ch"
  jobs :: "bool \<Rightarrow> job list"
  output_text :: "said list"

definition put_all :: "'ch tokio_channel \<Rightarrow> greeting packet list \<Rightarrow> 'ch \<Rightarrow> 'ch" where
  "put_all net ps ch = fold (async_mpsc_send (offer net) (\<lambda>d. d)) ps ch"

text \<open>What a poll on side \<open>i\<close> leaves: its new state, what it printed, and its packets at the other side.\<close>

definition after_poll ::
  "'ch tokio_channel \<Rightarrow> bool \<Rightarrow> said list \<Rightarrow> greeting packet list \<Rightarrow> side \<Rightarrow> 'ch program \<Rightarrow> 'ch program" where
  "after_poll net i out ps st w = w\<lparr>sides := (sides w)(i := st),
     inboxes := (inboxes w)(\<not> i := put_all net ps (inboxes w (\<not> i))), output_text := output_text w @ out\<rparr>"

text \<open>
  A turn of the service task: the wait begins at time \<open>t\<close>; \<open>elapsed\<close> says whether its time is up
  when it is polled, at time \<open>t'\<close>. \<open>None\<close> inside the option is a turn that is not ready.
\<close>

definition poll_service ::
  "build \<Rightarrow> i64 \<Rightarrow> bool \<Rightarrow> i64 \<Rightarrow> side \<Rightarrow> (greeting packet list \<times> side) option option" where
  "poll_service b t elapsed t' st = do {
     wait \<leftarrow> service_wait_for b t (side_service st);
     let due = (case wait of NoWait \<Rightarrow> True | WaitMillis _ \<Rightarrow> elapsed | WaitUpdate \<Rightarrow> False);
     case (wait, side_updates st) of
       (WaitMillis _, up # ups) \<Rightarrow> do {
         (ps, service, x) \<leftarrow> service_turn b t' (Some up) (side_service st) (side_inner st);
         Some (Some (ps, st\<lparr>side_inner := x, side_service := service, side_updates := ups\<rparr>))
       }
     | (WaitUpdate, up # ups) \<Rightarrow> do {
         (ps, service, x) \<leftarrow> service_turn b t' (Some up) (side_service st) (side_inner st);
         Some (Some (ps, st\<lparr>side_inner := x, side_service := service, side_updates := ups\<rparr>))
       }
     | _ \<Rightarrow>
       if due then do {
         (ps, service, x) \<leftarrow> service_turn b t' None (side_service st) (side_inner st);
         Some (Some (ps, st\<lparr>side_inner := x, side_service := service\<rparr>))
       }
       else Some None
   }"

datatype poll =
    PollMain i64
  | PollService bool i64 bool i64
  | PollInbox bool
  | PollJob bool nat i64

text \<open>When \<^verbatim>\<open>main\<close> has returned, the runtime is shut down and nothing is polled.\<close>

fun poll_live :: "build \<Rightarrow> 'ch tokio_channel \<Rightarrow> poll \<Rightarrow> 'ch program \<Rightarrow> 'ch program option" where
  "poll_live b net (PollMain t) w = do {
     (m, out, ps, st) \<leftarrow> poll_main b t (hello_task w) (sides w False);
     Some (after_poll net False out ps st (w\<lparr>hello_task := m\<rparr>))
   }"
| "poll_live b net (PollService i t elapsed t') w = do {
     r \<leftarrow> poll_service b t elapsed t' (sides w i);
     Some (case r of Some (ps, st) \<Rightarrow> after_poll net i [] ps st w | None \<Rightarrow> w)
   }"
| "poll_live b net (PollInbox i) w =
     (case poll_recv net (inboxes w i) of
        (p, ch) \<Rightarrow> Some (w\<lparr>inboxes := (inboxes w)(i := ch),
          jobs := (jobs w)(i := jobs w i @ (case p of Some p \<Rightarrow> [Arrived p] | None \<Rightarrow> []))\<rparr>))"
| "poll_live b net (PollJob i k t) w =
     (if k < length (jobs w i) then do {
        (j, out, ps, st) \<leftarrow> poll_job b t (jobs w i ! k) (sides w i);
        let rest = (case j of Some j \<Rightarrow> [j] | None \<Rightarrow> []);
        Some (after_poll net i out ps st
          (w\<lparr>jobs := (jobs w)(i := take k (jobs w i) @ rest @ drop (Suc k) (jobs w i))\<rparr>))
      }
      else Some w)"

definition poll_one :: "build \<Rightarrow> 'ch tokio_channel \<Rightarrow> poll \<Rightarrow> 'ch program \<Rightarrow> 'ch program option" where
  "poll_one b net a w = (case hello_task w of Returned _ \<Rightarrow> Some w | _ \<Rightarrow> poll_live b net a w)"

fun poll_list :: "build \<Rightarrow> 'ch tokio_channel \<Rightarrow> poll list \<Rightarrow> 'ch program \<Rightarrow> 'ch program option" where
  "poll_list b net [] w = Some w"
| "poll_list b net (a # as) w = do { w \<leftarrow> poll_one b net a w; poll_list b net as w }"

definition peers_new :: "build \<Rightarrow> 'ch tokio_channel \<Rightarrow> 'ch program option" where
  "peers_new b net = do {
     st1 \<leftarrow> side_new b;
     st2 \<leftarrow> side_new b;
     Some \<lparr> hello_task = Begin, sides = (\<lambda>i. if i then st2 else st1), inboxes = (\<lambda>_. channel net 32),
            jobs = (\<lambda>_. []), output_text = [] \<rparr>
   }"

definition async_hello_main ::
  "build \<Rightarrow> 'ch tokio_channel \<Rightarrow> poll list \<Rightarrow> (main_task \<times> said list) option" where
  "async_hello_main b net schedule = do {
     w \<leftarrow> peers_new b net;
     w \<leftarrow> poll_list b net schedule w;
     Some (hello_task w, output_text w)
   }"

end
