(* ===== verification/Untimed.thy ===== *)
theory Untimed
  imports Async_Safety
begin

text \<open>
  Times decide when a packet is resent and nothing else: an operation on an instance whose times are
  forgotten gives the same result, and the same instance with its times forgotten. A program without
  timeouts can then be followed through finitely many states.
\<close>

section \<open>Forgetting times\<close>

definition untimed_entry :: "'s send_entry \<Rightarrow> 's send_entry" where
  "untimed_entry e = e\<lparr>next_resend_time := 0\<rparr>"

definition untimed :: "('s, 'r) seqex \<Rightarrow> ('s, 'r) seqex" where
  "untimed s = s\<lparr>next_service_timestamp := 0,
     send_window := map (map_option untimed_entry) (send_window s)\<rparr>"

lemma untimed_entry_fields [simp]:
  "entry_seq_no (untimed_entry e) = entry_seq_no e" "entry_reply_no (untimed_entry e) = entry_reply_no e"
  "entry_seq_cst (untimed_entry e) = entry_seq_cst e" "entry_data (untimed_entry e) = entry_data e"
  "to_packet (untimed_entry e) = to_packet e"
  "untimed_entry (e\<lparr>next_resend_time := t\<rparr>) = untimed_entry e"
  "untimed_entry (untimed_entry e) = untimed_entry e"
  by (simp_all add: untimed_entry_def)

lemma untimed_fields [simp]:
  "resend_interval (untimed s) = resend_interval s" "next_send_seq_no (untimed s) = next_send_seq_no s"
  "next_recv_seq_no (untimed s) = next_recv_seq_no s" "recv_window (untimed s) = recv_window s"
  "send_window (untimed s) = map (map_option untimed_entry) (send_window s)"
  "concurrent_replies (untimed s) = concurrent_replies s"
  "concurrent_replies_total (untimed s) = concurrent_replies_total s" "is_locked (untimed s) = is_locked s"
  "send_window_slot (untimed s) n = send_window_slot s n" "seq_no_of (untimed s) = seq_no_of s"
  by (simp_all add: untimed_def send_window_slot_def seq_no_of_def)

text \<open>Updates of the other fields commute with forgetting.\<close>

lemma untimed_update [simp]:
  "(untimed s)\<lparr>next_send_seq_no := n\<rparr> = untimed (s\<lparr>next_send_seq_no := n\<rparr>)"
  "(untimed s)\<lparr>next_recv_seq_no := n\<rparr> = untimed (s\<lparr>next_recv_seq_no := n\<rparr>)"
  "(untimed s)\<lparr>recv_window := rw\<rparr> = untimed (s\<lparr>recv_window := rw\<rparr>)"
  "(untimed s)\<lparr>concurrent_replies := rs\<rparr> = untimed (s\<lparr>concurrent_replies := rs\<rparr>)"
  "(untimed s)\<lparr>concurrent_replies_total := k\<rparr> = untimed (s\<lparr>concurrent_replies_total := k\<rparr>)"
  "(untimed s)\<lparr>is_locked := l\<rparr> = untimed (s\<lparr>is_locked := l\<rparr>)"
  "untimed (s\<lparr>next_service_timestamp := t\<rparr>) = untimed s"
  "untimed (untimed s) = untimed s"
  by (simp_all add: untimed_def comp_def option.map_comp)

lemma untimed_set_slot:
  "(untimed s)\<lparr>send_window := (map (map_option untimed_entry) (send_window s))[i := map_option untimed_entry x]\<rparr>
     = untimed (s\<lparr>send_window := (send_window s)[i := x]\<rparr>)"
  by (simp add: untimed_def map_update)

lemma untimed_clear_slot [simp]:
  "(untimed s)\<lparr>send_window := (map (map_option untimed_entry) (send_window s))[i := None]\<rparr>
     = untimed (s\<lparr>send_window := (send_window s)[i := None]\<rparr>)"
  using untimed_set_slot [of s i None] by simp

lemma arr_get_map: "arr_get (map f xs) i = map_option f (arr_get xs i)"
  by (simp add: arr_get_def)

lemma untimed_lower [simp]: "untimed (lower_timestamp t s) = untimed s"
  by (simp add: lower_timestamp_def)

lemma untimed_lower_window [simp]: "send_window (lower_timestamp t s) = send_window s"
  by (simp add: lower_timestamp_def)

text \<open>The result of an operation, with the times of the instance forgotten; it moves into every branch.\<close>

definition forgot :: "('a \<times> ('s, 'r) seqex) option \<Rightarrow> ('a \<times> ('s, 'r) seqex) option" where
  "forgot = map_option (map_prod (\<lambda>a. a) untimed)"

named_theorems forgets \<open>how forgetting moves through operations\<close>

lemma forgot_branches [forgets]:
  "forgot None = None"
  "forgot (Some (a, s)) = Some (a, untimed s)"
  "forgot (Option.bind x f) = Option.bind x (\<lambda>v. forgot (f v))"
  "forgot (if c then u else v) = (if c then forgot u else forgot v)"
  "forgot (case_option n h y) = case_option (forgot n) (\<lambda>v. forgot (h v)) y"
  "forgot (case_sum l r z) = case_sum (\<lambda>v. forgot (l v)) (\<lambda>v. forgot (r v)) z"
  "forgot (case_prod k w) = (case w of (a, b) \<Rightarrow> forgot (k a b))"
  "Option.bind (forgot u) g = Option.bind u (\<lambda>(a, s). g (a, untimed s))"
  by (simp_all add: forgot_def split: option.split sum.split prod.split Option.bind_split)

lemma forgot_if [forgets]: "untimed (if c then s else s') = (if c then untimed s else untimed s')"
  by simp

lemma forgot_entry_case [forgets]:
  "forgot (case_recv_entry f g n e) = case_recv_entry (\<lambda>a b c d. forgot (f a b c d)) (\<lambda>v. forgot (g v)) (forgot n) e"
  by (simp split: recv_entry.split)

lemmas branch_cong = if_cong option.case_cong prod.case_cong sum.case_cong recv_entry.case_cong

section \<open>Receiving\<close>

lemma is_full_loop_untimed [simp]:
  "is_full_loop (map (map_option untimed_entry) w) ri n i k = is_full_loop w ri n i k"
proof (induction k arbitrary: ri i)
  case (Suc k)
  then show ?case by (simp add: Let_def arr_get_def del: Option.bind_eq_None_conv)
qed simp

lemma is_full_untimed [simp]: "is_full_inner b (untimed s) ro = is_full_inner b s ro"
  by (simp add: is_full_inner_def Let_def cong: branch_cong)

lemma take_send_untimed [forgets]: "take_send r (untimed s) = forgot (take_send r s)"
  by (simp add: take_send_def Let_def arr_get_map forgot_def split: Option.bind_split option.split)

lemma fast_forward_untimed [forgets]: "fast_forward b (untimed s) = forgot (fast_forward b s)"
proof (induction b s rule: fast_forward.induct)
  case (1 b s)
  show ?case
    using 1 by (subst (1 2) fast_forward.simps)
      (simp add: Let_def forgets split: option.split recv_entry.split)
qed

lemma deliver_untimed [forgets]: "deliver b n ro c d (untimed s) = forgot (deliver b n ro c d s)"
  unfolding deliver_def Let_def untimed_fields
  by (cases ro; cases c; simp add: forgets cong: branch_cong)

lemma entries_untimed: "entries (map (map_option untimed_entry) w) = map untimed_entry (entries w)"
  by (induction w) (auto simp: entries_def split: option.split)

lemma receive_data_untimed [forgets]:
  "receive_data b into c n ro d (untimed s) = forgot (receive_data b into c n ro d s)"
  by (simp add: receive_data_def Let_def entries_untimed forgets cong: branch_cong)

lemma receive_direct_untimed [forgets]:
  "try_receive_raw_and_direct b into p (untimed s) = forgot (try_receive_raw_and_direct b into p s)"
  by (cases p) (simp_all add: try_receive_raw_and_direct_def forgets cong: branch_cong)

lemma pump_raw_untimed [forgets]: "try_pump_raw b (untimed s) = forgot (try_pump_raw b s)"
  by (simp add: try_pump_raw_def Let_def forgets cong: branch_cong)

lemma remove_reservation_untimed [forgets]:
  "remove_reservation r (untimed s) = forgot (remove_reservation r s)"
  by (simp add: remove_reservation_def Let_def forgets cong: branch_cong)

lemma ack_direct_untimed [forgets]: "ack_raw_and_direct b r u (untimed s) = forgot (ack_raw_and_direct b r u s)"
  unfolding ack_raw_and_direct_def unlock_if_def by (cases u; simp add: forgets cong: branch_cong)

section \<open>Sending\<close>

text \<open>A release build does not panic on any time, so the time of a reply or a send is forgotten too.\<close>

lemma untimed_put:
  assumes "untimed s = untimed s'" and "untimed_entry e = untimed_entry e'"
  shows "untimed (s\<lparr>send_window := (send_window s)[i := Some e]\<rparr>)
    = untimed (s'\<lparr>send_window := (send_window s')[i := Some e']\<rparr>)"
proof -
  have "map (map_option untimed_entry) (send_window s) = map (map_option untimed_entry) (send_window s')"
    using arg_cong [OF assms(1), of send_window] by simp
  with assms show ?thesis
    using untimed_set_slot [of s i "Some e"] untimed_set_slot [of s' i "Some e'"] by simp
qed

lemma untimed_entry_eq:
  "untimed_entry \<lparr>entry_seq_no = n, entry_reply_no = ro, entry_seq_cst = c, next_resend_time = t, entry_data = d\<rparr>
    = untimed_entry \<lparr>entry_seq_no = n, entry_reply_no = ro, entry_seq_cst = c, next_resend_time = t', entry_data = d\<rparr>"
  by (simp add: untimed_entry_def)

lemma to_packet_untimed:
  "to_packet \<lparr>entry_seq_no = n, entry_reply_no = ro, entry_seq_cst = c, next_resend_time = t, entry_data = d\<rparr>
    = to_packet \<lparr>entry_seq_no = n, entry_reply_no = ro, entry_seq_cst = c, next_resend_time = 0, entry_data = d\<rparr>"
  by (cases ro) (simp_all add: to_packet_def)

text \<open>The end of a send and of a reply: an entry for the next number is put into the window.\<close>

lemma untimed_push:
  assumes "untimed s = untimed s'"
  shows "forgot (Option.bind (arr_get (send_window s) i) (\<lambda>x. Some (f (to_packet \<lparr>entry_seq_no = n, entry_reply_no = ro,
      entry_seq_cst = c, next_resend_time = t, entry_data = d\<rparr>), s\<lparr>send_window := (send_window s)[i := Some
      \<lparr>entry_seq_no = n, entry_reply_no = ro, entry_seq_cst = c, next_resend_time = t, entry_data = d\<rparr>]\<rparr>)))
    = forgot (Option.bind (arr_get (send_window s') i) (\<lambda>x. Some (f (to_packet \<lparr>entry_seq_no = n, entry_reply_no = ro,
      entry_seq_cst = c, next_resend_time = t', entry_data = d\<rparr>), s'\<lparr>send_window := (send_window s')[i := Some
      \<lparr>entry_seq_no = n, entry_reply_no = ro, entry_seq_cst = c, next_resend_time = t', entry_data = d\<rparr>]\<rparr>)))"
proof -
  have "map (map_option untimed_entry) (send_window s) = map (map_option untimed_entry) (send_window s')"
    using arg_cong [OF assms, of send_window] by simp
  then have "cap_of s = cap_of s'" by (metis length_map)
  then show ?thesis
    using untimed_put [OF assms untimed_entry_eq] to_packet_untimed [of n ro c t d] to_packet_untimed [of n ro c t' d]
    by (simp add: arr_get_def forgets)
qed

lemma send_slot_cong: "untimed s = untimed s' \<Longrightarrow> send_window_slot s n = send_window_slot s' n"
  by (metis untimed_fields(9))

lemma reply_direct_untimed:
  "forgot (reply_raw_and_direct Release t r u q d s)
    = forgot (reply_raw_and_direct Release t' r u q d (untimed s))"
proof (cases "remove_reservation r s")
  case None
  then show ?thesis by (simp add: reply_raw_and_direct_def forgets)
next
  case (Some a)
  obtain removed s1 where a: "a = (removed, s1)" by (cases a)
  let ?s = "\<lambda>t s :: ('a, 'b) seqex. if u
    then lower_timestamp (t + resend_interval s) (s\<lparr>next_send_seq_no := next_send_seq_no s + 1\<rparr>)\<lparr>is_locked := False\<rparr>
    else lower_timestamp (t + resend_interval s) (s\<lparr>next_send_seq_no := next_send_seq_no s + 1\<rparr>)"
  have eq: "untimed (?s t s1) = untimed (?s t' (untimed s1))"
    by (simp add: untimed_def lower_timestamp_def comp_def option.map_comp)
  from Some a show ?thesis
    using untimed_push [OF eq, where f = Some] send_slot_cong [OF eq]
    by (cases removed; cases u) (simp_all add: reply_raw_and_direct_def unlock_if_def forgets Let_def)
qed

lemma send_direct_untimed:
  "forgot (try_send_direct_with Release t q f s) = forgot (try_send_direct_with Release t' q f (untimed s))"
proof (cases "is_full_inner Release s None")
  case (Some full)
  let ?s = "\<lambda>t s :: ('a, 'b) seqex.
    lower_timestamp (t + resend_interval s) (s\<lparr>next_send_seq_no := next_send_seq_no s + 1\<rparr>)"
  have eq: "untimed (?s t s) = untimed (?s t' (untimed s))"
    by (simp add: untimed_def lower_timestamp_def comp_def option.map_comp)
  from Some show ?thesis
    using untimed_push [OF eq, where f = Inr] send_slot_cong [OF eq]
    by (cases full) (simp_all add: try_send_direct_with_def forgets Let_def)
qed (simp add: try_send_direct_with_def forgets)

section \<open>The wrappers\<close>

text \<open>Here the packets that were sent stand before the instance.\<close>

definition forgot_sent ::
  "('a \<times> 'p \<times> ('s, 'r) seqex) option \<Rightarrow> ('a \<times> 'p \<times> ('s, 'r) seqex) option" where
  "forgot_sent = map_option (map_prod (\<lambda>a. a) (map_prod (\<lambda>p. p) untimed))"

lemma forgot_sent_branches [forgets]:
  "forgot_sent None = None"
  "forgot_sent (Some (a, ps, s)) = Some (a, ps, untimed s)"
  "forgot_sent (Option.bind x f) = Option.bind x (\<lambda>v. forgot_sent (f v))"
  "forgot_sent (if c then u else v) = (if c then forgot_sent u else forgot_sent v)"
  "forgot_sent (case_option n h y) = case_option (forgot_sent n) (\<lambda>v. forgot_sent (h v)) y"
  "forgot_sent (case_sum l r z) = case_sum (\<lambda>v. forgot_sent (l v)) (\<lambda>v. forgot_sent (r v)) z"
  "forgot_sent (case_prod k w) = (case w of (a, b) \<Rightarrow> forgot_sent (k a b))"
  "Option.bind (forgot_sent u) g = Option.bind u (\<lambda>(a, ps, s). g (a, ps, untimed s))"
  by (simp_all add: forgot_sent_def split: option.split sum.split prod.split Option.bind_split)

lemma try_receive_raw_untimed [forgets]:
  "try_receive_raw b into p (untimed s) = forgot_sent (try_receive_raw b into p s)"
  unfolding try_receive_raw_def receive_direct_untimed
  by (simp add: forgets cong: branch_cong) (simp add: forgets split: Option.bind_split sum.split try_raw_recv_error.split)

lemma ack_raw_untimed [forgets]: "ack_raw b r u (untimed s) = forgot_sent (ack_raw b r u s)"
  unfolding ack_raw_def by (simp add: forgets cong: branch_cong)

lemma reply_raw_untimed:
  "forgot_sent (reply_raw Release t r u q d s) = forgot_sent (reply_raw Release t' r u q d (untimed s))"
  using reply_direct_untimed [of t r u q d s t']
  by (auto simp: reply_raw_def forgot_def forgot_sent_def map_option_case split: option.splits Option.bind_split)

lemma try_send_with_untimed:
  "forgot_sent (try_send_with Release t q f s) = forgot_sent (try_send_with Release t' q f (untimed s))"
  using send_direct_untimed [of t q f s t']
  by (auto simp: try_send_with_def forgot_def forgot_sent_def map_option_case split: option.splits sum.splits Option.bind_split)

section \<open>The async API\<close>

definition untimed_inner :: "('s, 'r) async_inner \<Rightarrow> ('s, 'r) async_inner" where
  "untimed_inner x = x\<lparr>async_seq := untimed (async_seq x)\<rparr>"

lemma untimed_inner_fields [simp]:
  "async_seq (untimed_inner x) = untimed (async_seq x)"
  "async_recv_waiters (untimed_inner x) = async_recv_waiters x"
  "async_reply_waiters (untimed_inner x) = async_reply_waiters x"
  by (simp_all add: untimed_inner_def)

text \<open>Here the packets and the events stand before the state.\<close>

definition forgot_all ::
  "('s \<Rightarrow> 's) \<Rightarrow> ('a \<times> 'p \<times> 'e \<times> 's) option \<Rightarrow> ('a \<times> 'p \<times> 'e \<times> 's) option" where
  "forgot_all u = map_option (map_prod (\<lambda>a. a) (map_prod (\<lambda>p. p) (map_prod (\<lambda>e. e) u)))"

lemma tell_or_ack_untimed: "tell_or_ack b alive ch ev n c (untimed s) = forgot_sent (tell_or_ack b alive ch ev n c s)"
  by (simp add: tell_or_ack_def forgets cong: branch_cong)

lemma hand_pumped_untimed: "hand_pumped b alive r (untimed s) = forgot_sent (hand_pumped b alive r s)"
  by (cases "(b, alive, r, s)" rule: hand_pumped.cases) (simp_all add: tell_or_ack_untimed forgets)

lemma hand_first_untimed: "hand_first b alive r (untimed s) = forgot_all untimed (hand_first b alive r s)"
  by (cases "(b, alive, r, s)" rule: hand_first.cases)
    (simp_all add: tell_or_ack_untimed forgot_sent_def forgot_all_def split: Option.bind_split)

lemma pump_all_untimed: "pump_all b alive (untimed s) = forgot_all untimed (pump_all b alive s)"
proof (induction b alive s rule: pump_all.induct)
  case (1 b alive s)
  show ?case
    using 1 by (subst (1 2) pump_all.simps)
      (auto simp: pump_raw_untimed hand_pumped_untimed forgot_def forgot_sent_def forgot_all_def split: option.split sum.split)
qed

lemma receive_inner_untimed:
  "receive_inner b alive ch p (untimed_inner x) = forgot_all untimed_inner (receive_inner b alive ch p x)"
  unfolding receive_inner_def
  by (auto simp: try_receive_raw_untimed pump_all_untimed hand_first_untimed forgot_sent_def forgot_all_def Let_def
      untimed_inner_def split: Option.bind_split sum.split)

lemma async_receive_untimed:
  "async_receive b alive ch p (untimed_inner x) = forgot_all untimed_inner (async_receive b alive ch p x)"
  unfolding async_receive_def
  by (auto simp: receive_inner_untimed forgot_all_def stored_with_def split: Option.bind_split sum.split option.split)

lemma async_drop_untimed:
  "async_drop b g (untimed_inner x) = map_option (map_prod (\<lambda>p. p) (map_prod (\<lambda>e. e) untimed_inner)) (async_drop b g x)"
  unfolding async_drop_def async_notify_reply_def
  by (auto simp: ack_raw_untimed forgot_sent_def untimed_inner_def split: Option.bind_split)

text \<open>A reply and a send return the new timestamp too, which is forgotten.\<close>

lemma async_reply_untimed:
  "map_option (\<lambda>(_, ps, es, x). (ps, es, untimed_inner x)) (async_reply Release t ch q d g x)
    = map_option (\<lambda>(_, ps, es, x). (ps, es, untimed_inner x)) (async_reply Release t' ch q d g (untimed_inner x))"
  using reply_raw_untimed [of t "guard_reply_no g" "is_holding_lock g" q "(ch, d)" "async_seq x" t']
  by (auto simp: async_reply_def async_reply_with_def try_reply_with_inner_def async_notify_reply_def forgot_sent_def
      untimed_inner_def Let_def map_option_case split: option.splits Option.bind_splits if_splits)

fun turn_kind :: "send_turn \<Rightarrow> send_turn" where
  "turn_kind (AwaitAnswer ch _) = AwaitAnswer ch None"
| "turn_kind turn = turn"

lemma async_send_untimed:
  "map_option (\<lambda>(r, ps, x). (turn_kind r, ps, untimed_inner x)) (async_send Release t ch q d x)
    = map_option (\<lambda>(r, ps, x). (turn_kind r, ps, untimed_inner x)) (async_send Release t' ch q d (untimed_inner x))"
  using try_send_with_untimed [of t q "\<lambda>_. (ch, d)" "async_seq x" t']
  by (auto simp: async_send_def async_send_with_def send_with_inner_def forgot_sent_def
      untimed_inner_def Let_def map_option_case split: option.splits Option.bind_splits sum.splits try_error.splits)

section \<open>Resending\<close>

text \<open>A service changes times only, and sends packets that are in the window.\<close>

lemma service_untimed:
  assumes "core_inv s"
  obtains ps s' u where "service Release t s = Some (u, ps, s')" and "untimed s' = untimed s"
    and "set ps \<subseteq> to_packet ` set (entries (send_window s))"
proof (cases "sint (next_service_timestamp s) \<le> sint t")
  case True
  note shape = core_parts(1) [OF assms]
  let ?is = "slots_from s (next_send_seq_no s - u32_of_usize (cap_of s))"
  have slots: "i < cap_of s" if "i \<in> set ?is" for i
    using that shape_bounds(4) [OF shape] by (auto simp: slots_from_def)
  have "map (map_option untimed_entry) (map (map_option (refresh t (resend_interval s))) (send_window s))
      = map (map_option untimed_entry) (send_window s)"
    by (simp add: option.map_comp comp_def refresh_def if_distrib cong: if_cong)
  then have "untimed (serviced t s) = untimed s"
    by (simp add: untimed_def serviced_def Let_def)
  moreover have "set (concat (map (\<lambda>i. due_packets t (send_window s ! i)) ?is)) \<subseteq> to_packet ` set (entries (send_window s))"
    using slots by (auto simp: due_packets_def set_entries split: option.splits if_splits)
  moreover have "service_loop Release t None s = Some (concat (map (\<lambda>i. due_packets t (send_window s ! i)) ?is), serviced t s)"
    by (rule service_loop_shape [OF shape _ True]) (simp add: time_ok_def)
  ultimately show thesis using that by (simp add: service_def)
next
  case False
  then have "service_loop Release t None s = Some ([], s)" by (simp add: service_loop_early)
  then show thesis using that by (simp add: service_def)
qed

lemma core_untimed: "core_inv (untimed s) \<longleftrightarrow> core_inv s"
  by (simp add: core_inv_def shape_def recv_ok_def head_ok_def recv_head_def)

lemma entries_packets_untimed:
  "to_packet ` set (entries (send_window (untimed s))) = to_packet ` set (entries (send_window s))"
  by (simp add: entries_untimed image_image)

end
