(* ===== verification/Hello_Tokio_Safety.thy ===== *)
theory Hello_Tokio_Safety
  imports Hello_Tokio Untimed
begin

text \<open>
  What \<^verbatim>\<open>examples/hello_world_tokio.rs\<close> prints, whatever order its tasks are polled
  in and whatever the channels lose. Without times each peer goes through few states. A table of them
  says for each state and each packet that can arrive in it what comes next; the table is checked by
  evaluation, and \<open>Untimed\<close> carries it over to states with times.
\<close>

section \<open>A peer without times\<close>

definition unclocked :: "side \<Rightarrow> side" where
  "unclocked st = st\<lparr>side_inner := untimed_inner (side_inner st), side_updates := [],
     side_service := \<lparr> task_next_service = 0 \<rparr>\<rparr>"

lemma unclocked_fields [simp]:
  "side_told (unclocked st) = side_told st" "side_chans (unclocked st) = side_chans st"
  "side_inner (unclocked st) = untimed_inner (side_inner st)"
  by (simp_all add: unclocked_def)

lemma untimed_inner_idem [simp]: "untimed_inner (untimed_inner x) = untimed_inner x"
  by (simp add: untimed_inner_def)

lemma unclocked_update [simp]:
  "unclocked (unclocked st) = unclocked st"
  "unclocked (st\<lparr>side_updates := us\<rparr>) = unclocked st"
  "unclocked (st\<lparr>side_service := sv\<rparr>) = unclocked st"
  by (simp_all add: unclocked_def)

lemma sent_with_untimed [simp]: "sent_with ch (untimed s) = sent_with ch s"
  by (simp add: sent_with_def list_ex_iff split: option.split)

lemma polls_unclocked [simp]:
  "poll_exchange ch (unclocked st) = poll_exchange ch st"
  "poll_received ch (unclocked st) = poll_received ch st"
  by (simp_all add: poll_exchange_def poll_received_def stored_with_def)

text \<open>The results of a poll, with the peer unclocked.\<close>

abbreviation drop_clock3 :: "('a \<times> 'b \<times> side) option \<Rightarrow> ('a \<times> 'b \<times> side) option" where
  "drop_clock3 \<equiv> map_option (\<lambda>(a, b, st). (a, b, unclocked st))"

abbreviation drop_clock :: "('a \<times> 'b \<times> 'c \<times> side) option \<Rightarrow> ('a \<times> 'b \<times> 'c \<times> side) option" where
  "drop_clock \<equiv> map_option (\<lambda>(a, b, c, st). (a, b, c, unclocked st))"

lemma side_reply_unclocked:
  "drop_clock3 (side_reply Release t d g st) = drop_clock3 (side_reply Release t' d g (unclocked st))"
  using async_reply_untimed [of t "side_chans st" False d g "side_inner st" t']
  by (auto simp: side_reply_def Let_def unclocked_def map_option_case split: option.splits Option.bind_splits)

lemma side_drop_unclocked:
  "map_option (map_prod (\<lambda>p. p) unclocked) (side_drop Release g st) =
     map_option (map_prod (\<lambda>p. p) unclocked) (side_drop Release g (unclocked st))"
  using async_drop_untimed [of Release g "side_inner st"]
  by (auto simp: side_drop_def unclocked_def map_option_case split: option.splits Option.bind_splits)

text \<open>A bind whose first part gives the same but for the clock.\<close>

lemma drop_clock_bind3:
  assumes "drop_clock3 u = drop_clock3 v" and "\<And>a b st st'. unclocked st = unclocked st' \<Longrightarrow> drop_clock (f (a, b, st)) = drop_clock (g (a, b, st'))"
  shows "drop_clock (Option.bind u f) = drop_clock (Option.bind v g)"
  using assms by (cases u; cases v) auto

lemma side_drop_bind:
  assumes "\<And>ps st st'. unclocked st = unclocked st' \<Longrightarrow> drop_clock (f (ps, st)) = drop_clock (g (ps, st'))"
  shows "drop_clock (Option.bind (side_drop Release g0 st) f) = drop_clock (Option.bind (side_drop Release g0 (unclocked st)) g)"
  using assms side_drop_unclocked [of g0 st]
  by (cases "side_drop Release g0 st"; cases "side_drop Release g0 (unclocked st)") auto

lemma job_drop_unclocked:
  "drop_clock (job_drop Release out g st) = drop_clock (job_drop Release out g (unclocked st))"
  unfolding job_drop_def by (rule side_drop_bind) simp

lemma receive_unclocked:
  "drop_clock (receive_start Release t g d st) = drop_clock (receive_start Release t' g d (unclocked st))"
  "drop_clock (receive_world Release t g d st) = drop_clock (receive_world Release t' g d (unclocked st))"
  "drop_clock (receive_new_line Release g d st) = drop_clock (receive_new_line Release g d (unclocked st))"
proof -
  show "drop_clock (receive_start Release t g d st) = drop_clock (receive_start Release t' g d (unclocked st))"
    using job_drop_unclocked [of _ g st]
    by (cases d) (auto simp: receive_start_def intro!: drop_clock_bind3 [OF side_reply_unclocked])
  show "drop_clock (receive_world Release t g d st) = drop_clock (receive_world Release t' g d (unclocked st))"
    using job_drop_unclocked [of _ g st]
    by (auto simp: receive_world_def intro!: drop_clock_bind3 [OF side_reply_unclocked])
  show "drop_clock (receive_new_line Release g d st) = drop_clock (receive_new_line Release g d (unclocked st))"
    using job_drop_unclocked [of _ g st] by (auto simp: receive_new_line_def)
qed

lemma unclocked_cong:
  assumes "unclocked st = unclocked st'" and "\<And>st. drop_clock (f t st) = drop_clock (f t' (unclocked st))"
    and "\<And>st. drop_clock (f t' st) = drop_clock (f t' (unclocked st))"
  shows "drop_clock (f t st) = drop_clock (f t' st')"
  using assms by metis

lemma prepend_clock:
  assumes "drop_clock u = drop_clock v"
  shows "drop_clock (Option.bind u (\<lambda>(j, out, ps', st). Some (j, out, ps @ ps', st)))
    = drop_clock (Option.bind v (\<lambda>(j, out, ps', st). Some (j, out, ps @ ps', st)))"
  using assms by (cases u; cases v) auto

lemma poll_job_unclocked:
  "drop_clock (poll_job Release t j st) = drop_clock (poll_job Release t' j (unclocked st))"
proof (cases j)
  case (Arrived p)
  have eq: "async_receive Release (\<lambda>_. True) (side_chans st) p (untimed_inner (side_inner st))
    = forgot_all untimed_inner (async_receive Release (\<lambda>_. True) (side_chans st) p (side_inner st))"
    by (rule async_receive_untimed)
  show ?thesis
  proof (cases "async_receive Release (\<lambda>_. True) (side_chans st) p (side_inner st)")
    case None
    with Arrived eq show ?thesis by (simp add: forgot_all_def)
  next
    case (Some a)
    obtain res ps es x where a: "a = (res, ps, es, x)" by (cases a)
    let ?st = "st\<lparr>side_inner := x, side_told := side_told st @ es\<rparr>"
    let ?st' = "(unclocked st)\<lparr>side_inner := untimed_inner x, side_told := side_told st @ es\<rparr>"
    have st: "unclocked ?st = unclocked ?st'" and "unclocked (?st\<lparr>side_chans := n\<rparr>) = unclocked (?st'\<lparr>side_chans := n\<rparr>)" for n
      by (simp_all add: unclocked_def)
    moreover have "drop_clock (receive_start Release t g d ?st) = drop_clock (receive_start Release t' g d ?st')" for g d
      by (rule unclocked_cong [OF st, of "\<lambda>t. receive_start Release t g d"]) (rule receive_unclocked)+
    ultimately show ?thesis
      using Arrived eq Some a
      by (auto simp: forgot_all_def Let_def intro!: prepend_clock split: awaiting.split sum.split)
  qed
qed (use receive_unclocked in \<open>auto split: option.split sum.split\<close>)

lemma main_drop_unclocked:
  "drop_clock (main_drop Release g st) = drop_clock (main_drop Release g (unclocked st))"
  unfolding main_drop_def by (rule side_drop_bind) simp

lemma hello_unclocked:
  "drop_clock (hello_space Release t g d st) = drop_clock (hello_space Release t' g d (unclocked st))"
  "drop_clock (hello_exclamation Release t g d st) = drop_clock (hello_exclamation Release t' g d (unclocked st))"
proof -
  show "drop_clock (hello_space Release t g d st) = drop_clock (hello_space Release t' g d (unclocked st))"
    using main_drop_unclocked [of g st]
    by (auto simp: hello_space_def intro!: drop_clock_bind3 [OF side_reply_unclocked])
  show "drop_clock (hello_exclamation Release t g d st) = drop_clock (hello_exclamation Release t' g d (unclocked st))"
    using main_drop_unclocked [of g st]
    by (auto simp: hello_exclamation_def intro!: drop_clock_bind3 [OF side_reply_unclocked])
qed

lemma end_unclocked:
  "drop_clock (Option.bind (side_drop Release g st) (\<lambda>(ps, st). Some (Returned (Some ()), [], ps, st)))
   = drop_clock (Option.bind (side_drop Release g (unclocked st)) (\<lambda>(ps, st). Some (Returned (Some ()), [], ps, st)))"
  by (rule side_drop_bind) simp

lemma hello_send_unclocked:
  "drop_clock (hello_send Release t st) = drop_clock (hello_send Release t' (unclocked st))"
  using async_send_untimed [of t "side_chans st" False Hello "side_inner st" t']
  by (auto simp: hello_send_def Let_def unclocked_def map_option_case split: option.splits Option.bind_splits send_turn.splits)

lemma poll_main_unclocked:
  "drop_clock (poll_main Release t m st) = drop_clock (poll_main Release t' m (unclocked st))"
  using hello_unclocked hello_send_unclocked [of t st t'] end_unclocked
  by (cases m) (auto split: option.split sum.split)

section \<open>The states of the peers\<close>

text \<open>
  An instance without times: the next numbers to be sent and received, the entry of the packet that is
  not answered, the last number that was issued, and how many are issued.
\<close>

definition exchange_seq ::
  "seq_no \<Rightarrow> seq_no \<Rightarrow> (seq_no \<times> seq_no option \<times> chan \<times> greeting) option \<Rightarrow> seq_no \<Rightarrow> nat \<Rightarrow>
   (greeting sender, greeting receiver) seqex" where
  "exchange_seq send_no recv_no entry last_no open_no =
     \<lparr> resend_interval = DEFAULT_RESEND_INTERVAL_MS, next_service_timestamp = 0,
       next_send_seq_no = send_no, next_recv_seq_no = recv_no,
       send_window = (case entry of
           None \<Rightarrow> replicate DEFAULT_WINDOW_CAP None
         | Some (n, ro, ch, d) \<Rightarrow> (replicate DEFAULT_WINDOW_CAP None)[slot DEFAULT_WINDOW_CAP n :=
             Some \<lparr>entry_seq_no = n, entry_reply_no = ro, entry_seq_cst = False,
                   next_resend_time = 0, entry_data = (ch, d)\<rparr>]),
       recv_window = replicate DEFAULT_WINDOW_CAP Empty,
       concurrent_replies = last_no # replicate (DEFAULT_WINDOW_CAP - 1) 0,
       concurrent_replies_total = open_no, is_locked = False \<rparr>"

definition exchange_side ::
  "seq_no \<Rightarrow> seq_no \<Rightarrow> (seq_no \<times> seq_no option \<times> chan \<times> greeting) option \<Rightarrow> seq_no \<Rightarrow> nat \<Rightarrow>
   greeting event list \<Rightarrow> chan \<Rightarrow> side" where
  "exchange_side send_no recv_no entry last_no open_no tells next_chan =
     \<lparr> side_inner = \<lparr> async_seq = exchange_seq send_no recv_no entry last_no open_no,
                     async_recv_waiters = 0, async_reply_waiters = False \<rparr>,
       side_service = \<lparr> task_next_service = 0 \<rparr>, side_updates = [], side_told = tells, side_chans = next_chan \<rparr>"

abbreviation told_a :: "nat \<Rightarrow> greeting event list" where
  "told_a k \<equiv> take k [TellSender 0 (Some (0, False, Space)), TellSender 1 (Some (1, False, Exclamation)), TellSender 2 None]"

abbreviation told_b :: "nat \<Rightarrow> greeting event list" where
  "told_b k \<equiv> take k [TellSender 0 (Some (1, False, World)), TellSender 1 (Some (2, False, NewLine))]"

text \<open>The first peer has seven states, the second one six.\<close>

definition side_at :: "bool \<Rightarrow> nat \<Rightarrow> side" where
  "side_at i k = (if i
     then [exchange_side 0 0 None 0 0 (told_b 0) 0,
           exchange_side 1 1 (Some (0, Some 0, 0, Space)) 0 0 (told_b 0) 1,
           exchange_side 1 2 None 1 1 (told_b 1) 1,
           exchange_side 2 2 (Some (1, Some 1, 1, Exclamation)) 1 0 (told_b 1) 2,
           exchange_side 2 3 None 2 1 (told_b 2) 2,
           exchange_side 2 3 None 2 0 (told_b 2) 2] ! k
     else [exchange_side 0 0 None 0 0 (told_a 0) 0,
           exchange_side 1 0 (Some (0, None, 0, Hello)) 0 0 (told_a 0) 1,
           exchange_side 1 1 None 0 1 (told_a 1) 1,
           exchange_side 2 1 (Some (1, Some 0, 1, World)) 0 0 (told_a 1) 2,
           exchange_side 2 2 None 1 1 (told_a 2) 2,
           exchange_side 3 2 (Some (2, Some 1, 2, NewLine)) 1 0 (told_a 2) 3,
           exchange_side 3 2 None 1 0 (told_a 3) 3] ! k)"

text \<open>The packets a peer has sent by the time it is in state \<open>k\<close>.\<close>

definition made_by_state :: "bool \<Rightarrow> (nat \<times> greeting packet) list" where
  "made_by_state i = (if i
     then [(1, Reply 0 0 Space), (2, Ack 0), (3, Reply 1 1 Exclamation), (4, Ack 1), (5, Ack 2)]
     else [(1, Payload 0 Hello), (3, Reply 1 0 World), (4, Ack 0), (5, Reply 2 1 NewLine), (6, Ack 1)])"

definition made_at_state :: "bool \<Rightarrow> nat \<Rightarrow> greeting packet list" where
  "made_at_state i k = map snd (filter (\<lambda>(m, _). m \<le> k) (made_by_state i))"

text \<open>What follows when a packet arrives: the next state, the task left and what it printed.\<close>

definition arrived :: "bool \<Rightarrow> nat \<Rightarrow> greeting packet \<Rightarrow> nat \<times> job option \<times> said list" where
  "arrived i k p = (if i
     then if k = 0 \<and> p = Payload 0 Hello then (1, Some (AwaitWorld 0), [Say ''Hello''])
          else if (k, p) = (1, Reply 1 0 World) \<or> (k, p) = (3, Reply 2 1 NewLine) then (k + 1, None, [])
          else (k, None, [])
     else if (k, p) = (1, Reply 0 0 Space) \<or> (k, p) = (3, Reply 1 1 Exclamation) \<or> (k, p) = (5, Ack 2)
          then (k + 1, None, []) else (k, None, []))"

text \<open>How far the other peer can be.\<close>

definition other_limit :: "bool \<Rightarrow> nat \<Rightarrow> nat" where
  "other_limit i k = (if i then [1, 3, 3, 5, 5, 6] ! k else [0, 1, 1, 3, 3, 5, 5] ! k)"

definition arrival_ok :: "bool \<Rightarrow> nat \<Rightarrow> bool" where
  "arrival_ok i k \<longleftrightarrow> list_all (\<lambda>p.
     (case poll_job Release 0 (Arrived p) (side_at i k) of
        None \<Rightarrow> False
      | Some (j, out, ps, st) \<Rightarrow>
          (case arrived i k p of (k', j', out') \<Rightarrow>
             j = j' \<and> out = out' \<and> unclocked st = side_at i k' \<and> list_all (List.member (made_at_state i k')) ps)))
     (made_at_state (\<not> i) (other_limit i k))"

lemma first_arrivals: "list_all (arrival_ok False) [0, 1, 2, 3, 4, 5, 6]"
  by code_simp

lemma second_arrivals: "list_all (arrival_ok True) [0, 1, 2, 3, 4, 5]"
  by code_simp

text \<open>The task that answers on the second peer, and the one that says hello.\<close>

definition responder :: "bool \<Rightarrow> nat \<Rightarrow> job list" where
  "responder i k = (if i
     then [[], [AwaitWorld 0], [AwaitWorld 0], [AwaitNewLine 1], [AwaitNewLine 1], []] ! k else [])"

definition answered :: "nat \<Rightarrow> nat \<times> job option \<times> said list" where
  "answered k = [(0, None, []), (1, Some (AwaitWorld 0), []), (3, Some (AwaitNewLine 1), [Say ''World'']),
     (3, Some (AwaitNewLine 1), []), (5, None, [Say ''\<newline>'']), (5, None, [])] ! k"

definition answer_ok :: "nat \<Rightarrow> bool" where
  "answer_ok k \<longleftrightarrow> list_all (\<lambda>j.
     (case poll_job Release 0 j (side_at True k) of
        None \<Rightarrow> False
      | Some (j', out, ps, st) \<Rightarrow> (j', out) = snd (answered k) \<and> unclocked st = side_at True (fst (answered k))
          \<and> list_all (List.member (made_at_state True (fst (answered k)))) ps)) (responder True k)"

lemma answers: "list_all answer_ok [0, 1, 2, 3, 4, 5]"
  by code_simp

definition main_at :: "nat \<Rightarrow> main_task" where
  "main_at k = [Begin, AwaitSpace 0, AwaitSpace 0, AwaitExclamation 1, AwaitExclamation 1, AwaitEnd 2, AwaitEnd 2] ! k"

definition went_on :: "nat \<Rightarrow> nat \<times> main_task \<times> said list" where
  "went_on k = [(1, AwaitSpace 0, []), (1, AwaitSpace 0, []), (3, AwaitExclamation 1, [Say '' '']),
     (3, AwaitExclamation 1, []), (5, AwaitEnd 2, [Say ''!'']), (5, AwaitEnd 2, []), (6, Returned (Some ()), [])] ! k"

definition main_ok :: "nat \<Rightarrow> bool" where
  "main_ok k \<longleftrightarrow>
     (case poll_main Release 0 (main_at k) (side_at False k) of
        None \<Rightarrow> False
      | Some (m, out, ps, st) \<Rightarrow> (m, out) = snd (went_on k) \<and> unclocked st = side_at False (fst (went_on k))
          \<and> list_all (List.member (made_at_state False (fst (went_on k)))) ps)"

lemma mains: "list_all main_ok [0, 1, 2, 3, 4, 5, 6]"
  by code_simp

section \<open>Both peers\<close>

text \<open>The pairs of states that occur, and what was printed by then.\<close>

definition joint :: "(nat \<times> nat) list" where
  "joint = [(0, 0), (1, 0), (1, 1), (2, 1), (3, 1), (3, 2), (3, 3), (4, 3), (5, 3), (5, 4), (5, 5), (6, 5)]"

definition script :: "said list" where
  "script = map Say [''Hello'', '' '', ''World'', ''!'', ''\<newline>'']"

definition printed_at :: "nat \<times> nat \<Rightarrow> said list" where
  "printed_at = (\<lambda>(a, b). take (of_bool (1 \<le> b) + of_bool (3 \<le> a) + of_bool (3 \<le> b) + of_bool (5 \<le> a) + of_bool (b = 5)) script)"

definition pair_set :: "bool \<Rightarrow> nat \<Rightarrow> nat \<times> nat \<Rightarrow> nat \<times> nat" where
  "pair_set i m k = (if i then (fst k, m) else (m, snd k))"

definition pair_get :: "bool \<Rightarrow> nat \<times> nat \<Rightarrow> nat" where
  "pair_get i k = (if i then snd k else fst k)"

lemma pair_get_set [simp]:
  "pair_get i (pair_set i m k) = m" "i \<noteq> j \<Longrightarrow> pair_get j (pair_set i m k) = pair_get j k"
  "pair_get False (a, b) = a" "pair_get True (a, b) = b"
  by (auto simp: pair_get_def pair_set_def)

text \<open>A step of side \<open>i\<close> to state \<open>m\<close> that prints \<open>out\<close> fits.\<close>

definition fits :: "bool \<Rightarrow> nat \<Rightarrow> said list \<Rightarrow> nat \<times> nat \<Rightarrow> bool" where
  "fits i m out k \<longleftrightarrow> List.member joint (pair_set i m k) \<and> pair_get i k \<le> m
     \<and> printed_at (pair_set i m k) = printed_at k @ out"

definition joint_ok :: "nat \<times> nat \<Rightarrow> bool" where
  "joint_ok k \<longleftrightarrow> list_all (\<lambda>i. pair_get (\<not> i) k \<le> other_limit i (pair_get i k)
       \<and> list_all (\<lambda>p. case arrived i (pair_get i k) p of (m, j, out) \<Rightarrow> fits i m out k
            \<and> responder i m = responder i (pair_get i k) @ (case j of Some j \<Rightarrow> [j] | None \<Rightarrow> []))
          (made_at_state (\<not> i) (pair_get (\<not> i) k))) [False, True]
     \<and> (responder True (snd k) = [] \<or> (case answered (snd k) of (m, j, out) \<Rightarrow> fits True m out k
          \<and> responder True m = (case j of Some j \<Rightarrow> [j] | None \<Rightarrow> [])))
     \<and> (case went_on (fst k) of (m, mt, out) \<Rightarrow> fits False m out k
          \<and> (mt = main_at m \<or> mt = Returned (Some ()) \<and> fst k = 6))"

text \<open>What a service resends was made.\<close>

definition resends_ok :: "bool \<Rightarrow> nat \<Rightarrow> bool" where
  "resends_ok i k \<longleftrightarrow> list_all (\<lambda>e. List.member (made_at_state i k) (wire (to_packet e)))
     (entries (send_window (async_seq (side_inner (side_at i k)))))"

lemma resends: "list_all (resends_ok False) [0, 1, 2, 3, 4, 5, 6]" "list_all (resends_ok True) [0, 1, 2, 3, 4, 5]"
  by code_simp+

lemma joint_all: "list_all joint_ok joint"
  by code_simp

section \<open>Every schedule\<close>

text \<open>
  What the program relies on of the channels: a new one is empty, and what is received was sent. They
  may lose packets. \<open>held\<close> is what a channel may still give.
\<close>

definition carries :: "'ch tokio_channel \<Rightarrow> ('ch \<Rightarrow> greeting packet set) \<Rightarrow> bool" where
  "carries net held \<longleftrightarrow> (\<forall>n. held (channel net n) = {})
     \<and> (\<forall>p ch. held (snd (offer net p ch)) \<subseteq> insert p (held ch))
     \<and> (\<forall>ch p. fst (poll_recv net ch) = Some p \<longrightarrow> p \<in> held ch)
     \<and> (\<forall>ch. held (snd (poll_recv net ch)) \<subseteq> held ch)"

lemma put_all_held:
  assumes "carries net held"
  shows "held (put_all net ps ch) \<subseteq> held ch \<union> set ps"
proof (induction ps arbitrary: ch)
  case (Cons p ps)
  have "held (async_mpsc_send (offer net) (\<lambda>d. d) p ch) \<subseteq> insert p (held ch)"
    using assms by (simp add: carries_def async_mpsc_send_def cloned_def packet_map_same)
  with Cons.IH [of "async_mpsc_send (offer net) (\<lambda>d. d) p ch"] show ?case
    by (auto simp: put_all_def)
qed (simp add: put_all_def)

text \<open>The invariant: the pair of states \<open>k\<close>, what is on its way, and what was printed.\<close>

definition data_inv :: "('ch \<Rightarrow> greeting packet set) \<Rightarrow> nat \<times> nat \<Rightarrow> 'ch program \<Rightarrow> bool" where
  "data_inv held k w \<longleftrightarrow> List.member joint k
     \<and> (\<forall>i. unclocked (sides w i) = side_at i (pair_get i k)
           \<and> held (inboxes w (\<not> i)) \<subseteq> set (made_at_state i (pair_get i k)))
     \<and> output_text w = printed_at k"

fun waits :: "job \<Rightarrow> bool" where
  "waits (Arrived _) = False"
| "waits _ = True"

definition jobs_inv :: "nat \<times> nat \<Rightarrow> (bool \<Rightarrow> job list) \<Rightarrow> bool" where
  "jobs_inv k js \<longleftrightarrow> (\<forall>i. mset (filter waits (js i)) = mset (responder i (pair_get i k))
     \<and> (\<forall>p. Arrived p \<in> set (js i) \<longrightarrow> p \<in> set (made_at_state (\<not> i) (pair_get (\<not> i) k))))"

definition main_inv :: "nat \<times> nat \<Rightarrow> main_task \<Rightarrow> bool" where
  "main_inv k mt \<longleftrightarrow> mt = main_at (fst k) \<or> mt = Returned (Some ()) \<and> fst k = 6"

lemma made_mono: "m \<le> m' \<Longrightarrow> set (made_at_state i m) \<subseteq> set (made_at_state i m')"
  by (auto simp: made_at_state_def)

lemma pair_get_mono: "m \<ge> pair_get i k \<Longrightarrow> pair_get j k \<le> pair_get j (pair_set i m k)"
  by (auto simp: pair_get_def pair_set_def)

lemma after_poll_inv:
  assumes inv: "data_inv held k w" and net: "carries net held" and st: "unclocked st = side_at i m"
    and ps: "set ps \<subseteq> set (made_at_state i m)" and fits: "fits i m out k"
  shows "data_inv held (pair_set i m k) (after_poll net i out ps st w)"
proof -
  have m: "pair_get i k \<le> m" using fits by (simp add: fits_def)
  have "held (inboxes w (\<not> i)) \<subseteq> set (made_at_state i (pair_get i k))" using inv by (simp add: data_inv_def)
  with put_all_held [OF net, of ps "inboxes w (\<not> i)"] ps made_mono [OF m, of i]
  have "held (put_all net ps (inboxes w (\<not> i))) \<subseteq> set (made_at_state i m)" by blast
  moreover have "held (inboxes w i) \<subseteq> set (made_at_state (\<not> i) (pair_get (\<not> i) k))"
    using inv [unfolded data_inv_def, THEN conjunct2, THEN conjunct1, THEN spec, of "\<not> i"] by simp
  moreover have "pair_get j (pair_set i m k) = (if j = i then m else pair_get j k)" for j by auto
  ultimately show ?thesis
    using inv st fits by (auto simp: data_inv_def after_poll_def fits_def)
qed

lemma jobs_inv_to:
  assumes "jobs_inv k js" and "pair_get i k \<le> m"
    and "mset (filter waits (js' i)) = mset (responder i m)" and "js' (\<not> i) = js (\<not> i)"
    and "\<And>p. Arrived p \<in> set (js' i) \<Longrightarrow> Arrived p \<in> set (js i)"
  shows "jobs_inv (pair_set i m k) js'"
  unfolding jobs_inv_def
proof (intro allI conjI impI)
  fix j
  show "mset (filter waits (js' j)) = mset (responder j (pair_get j (pair_set i m k)))"
    using assms(1,3,4) by (cases "j = i") (auto simp: jobs_inv_def)
  fix p
  assume "Arrived p \<in> set (js' j)"
  then have "Arrived p \<in> set (js j)" using assms(4,5) by (cases "j = i") auto
  with assms(1) have "p \<in> set (made_at_state (\<not> j) (pair_get (\<not> j) k))" by (simp add: jobs_inv_def)
  then show "p \<in> set (made_at_state (\<not> j) (pair_get (\<not> j) (pair_set i m k)))"
    using made_mono [OF pair_get_mono [OF assms(2)]] by blast
qed

text \<open>A task is polled: its place in the list has what is left of it.\<close>

lemma mset_replace:
  assumes "n < length js"
  shows "mset (filter P (take n js @ r @ drop (Suc n) js)) + mset (filter P [js ! n]) = mset (filter P js) + mset (filter P r)"
proof -
  have "js = take n js @ js ! n # drop (Suc n) js" using assms by (rule id_take_nth_drop)
  then have "filter P js = filter P (take n js) @ filter P [js ! n] @ filter P (drop (Suc n) js)"
    by (metis append_Cons append_Nil filter_append)
  then show ?thesis by simp
qed

lemma set_replace: "set (take n js @ r @ drop (Suc n) js) \<subseteq> set js \<union> set r"
  using set_take_subset [of n js] set_drop_subset [of "Suc n" js] by auto

lemma jobs_inv_replace:
  assumes "jobs_inv k js" and n: "n < length (js i)" and "pair_get i k \<le> m"
    and resp: "mset (responder i m) + mset (filter waits [js i ! n]) = mset (responder i (pair_get i k)) + mset r"
    and r: "\<forall>j \<in> set r. waits j"
  shows "jobs_inv (pair_set i m k) (js(i := take n (js i) @ r @ drop (Suc n) (js i)))"
proof -
  let ?js = "take n (js i) @ r @ drop (Suc n) (js i)"
  have "filter waits r = r" using r by (simp add: filter_id_conv)
  moreover have "mset (filter waits (js i)) = mset (responder i (pair_get i k))"
    using assms(1) by (simp add: jobs_inv_def)
  ultimately have "mset (filter waits ?js) = mset (responder i m)"
    using mset_replace [OF n, of waits r] resp by (metis add_right_cancel)
  moreover have "Arrived p \<in> set (js i)" if "Arrived p \<in> set ?js" for p
    using that set_replace [of n "js i" r] r by (metis UnE subsetD waits.simps(1))
  ultimately show ?thesis by (intro jobs_inv_to [OF assms(1,3)]) simp_all
qed

text \<open>What the tables say of a poll, with times.\<close>

lemma joint_bounds:
  assumes "List.member joint k"
  shows "joint_ok k" and "arrival_ok i (pair_get i k)" and "resends_ok i (pair_get i k)" and "answer_ok (snd k)" and "main_ok (fst k)"
    and "core_inv (async_seq (side_inner (side_at i (pair_get i k))))"
    and "length (responder i (pair_get i k)) \<le> 1"
proof -
  show "joint_ok k" using joint_all assms by (simp add: list_all_iff)
  have "fst k \<in> set [0, 1, 2, 3, 4, 5, 6] \<and> snd k \<in> set [0, 1, 2, 3, 4, 5]"
    using assms by (auto simp: joint_def)
  then show "arrival_ok i (pair_get i k)" and "resends_ok i (pair_get i k)" and "answer_ok (snd k)" and "main_ok (fst k)"
    using first_arrivals second_arrivals resends answers mains by (auto simp: list_all_iff pair_get_def)
  show "core_inv (async_seq (side_inner (side_at i (pair_get i k))))"
    using assms
    by (cases i) (auto simp: joint_def side_at_def exchange_side_def exchange_seq_def pair_get_def core_inv_def shape_def
        recv_ok_def head_ok_def recv_head_def DEFAULT_WINDOW_CAP_def window_ring_def slot_def nth_replicate
        numeral_3_eq_3 split: option.split)
  show "length (responder i (pair_get i k)) \<le> 1"
    using assms by (cases i) (auto simp: joint_def responder_def pair_get_def)
qed

lemma data_inv_side:
  "data_inv held k w \<Longrightarrow> List.member joint k" "data_inv held k w \<Longrightarrow> unclocked (sides w i) = side_at i (pair_get i k)"
  by (simp_all add: data_inv_def)

text \<open>No packet for the first peer takes it past a state in which \<^verbatim>\<open>main\<close> has to move.\<close>

lemma arrived_main:
  assumes "List.member joint k" and "p \<in> set (made_at_state True (snd k))" and "arrived False (fst k) p = (m, j, out)"
  shows "main_at m = main_at (fst k)"
  using assms by (auto simp: joint_def made_at_state_def made_by_state_def arrived_def main_at_def split: if_splits)

lemma poll_arrived:
  assumes inv: "data_inv held k w" and p: "p \<in> set (made_at_state (\<not> i) (pair_get (\<not> i) k))"
  obtains m j out ps st where "poll_job Release t (Arrived p) (sides w i) = Some (j, out, ps, st)"
    and "unclocked st = side_at i m" and "set ps \<subseteq> set (made_at_state i m)" and "fits i m out k"
    and "responder i m = responder i (pair_get i k) @ (case j of Some j \<Rightarrow> [j] | None \<Rightarrow> [])"
    and "main_at (fst (pair_set i m k)) = main_at (fst k)"
proof -
  note joint = joint_bounds [OF data_inv_side(1) [OF inv]]
  obtain m j out where go: "arrived i (pair_get i k) p = (m, j, out)" by (cases "arrived i (pair_get i k) p")
  have "i \<in> set [False, True]" by (cases i) simp_all
  with joint(1) p go have limit: "pair_get (\<not> i) k \<le> other_limit i (pair_get i k)" and fits: "fits i m out k"
    and resp: "responder i m = responder i (pair_get i k) @ (case j of Some j \<Rightarrow> [j] | None \<Rightarrow> [])"
    unfolding joint_ok_def list_all_iff by fastforce+
  from p made_mono [OF limit] have "p \<in> set (made_at_state (\<not> i) (other_limit i (pair_get i k)))" by blast
  with joint(2) [of i] go obtain ps st0 where table:
    "poll_job Release 0 (Arrived p) (side_at i (pair_get i k)) = Some (j, out, ps, st0)"
    "unclocked st0 = side_at i m" "set ps \<subseteq> set (made_at_state i m)"
    unfolding arrival_ok_def list_all_iff by (fastforce split: option.splits)
  have "drop_clock (poll_job Release t (Arrived p) (sides w i)) = Some (j, out, ps, side_at i m)"
    using poll_job_unclocked [of t "Arrived p" "sides w i" 0] table data_inv_side(2) [OF inv, of i] by simp
  then obtain st where st: "poll_job Release t (Arrived p) (sides w i) = Some (j, out, ps, st)" "unclocked st = side_at i m"
    by auto
  have "main_at (fst (pair_set i m k)) = main_at (fst k)"
    using arrived_main [OF data_inv_side(1) [OF inv], of p m j out] p go by (cases i) (simp_all add: pair_set_def pair_get_def)
  from that [OF st table(3) fits resp this] show thesis .
qed

lemma poll_waiting:
  assumes inv: "data_inv held k w" and j: "j \<in> set (responder i (pair_get i k))"
  obtains m j' out ps st where "poll_job Release t j (sides w i) = Some (j', out, ps, st)"
    and "unclocked st = side_at i m" and "set ps \<subseteq> set (made_at_state i m)" and "fits i m out k"
    and "responder i m = (case j' of Some j \<Rightarrow> [j] | None \<Rightarrow> [])"
proof -
  note joint = joint_bounds [OF data_inv_side(1) [OF inv]]
  have i: "i" using j by (cases i) (simp_all add: responder_def)
  obtain m j' out where go: "answered (snd k) = (m, j', out)" by (cases "answered (snd k)")
  have "responder True (snd k) \<noteq> []" using j i by (auto simp: pair_get_def)
  with joint(1) go have fits: "fits i m out k" and resp: "responder i m = (case j' of Some j \<Rightarrow> [j] | None \<Rightarrow> [])"
    using i unfolding joint_ok_def by auto
  have "pair_get i k = snd k" using i by (simp add: pair_get_def)
  then have "case poll_job Release 0 j (side_at i (pair_get i k)) of None \<Rightarrow> False | Some (j'', out', ps, st) \<Rightarrow>
      (j'', out') = (j', out) \<and> unclocked st = side_at i m \<and> list_all (List.member (made_at_state i m)) ps"
    using joint(4) j i go by (simp add: answer_ok_def list_all_iff cong: option.case_cong prod.case_cong)
  then obtain ps st0 where table:
    "poll_job Release 0 j (side_at i (pair_get i k)) = Some (j', out, ps, st0)"
    "unclocked st0 = side_at i m" "set ps \<subseteq> set (made_at_state i m)"
    by (cases "poll_job Release 0 j (side_at i (pair_get i k))") (auto simp: list_all_iff)
  have "drop_clock (poll_job Release t j (sides w i)) = Some (j', out, ps, side_at i m)"
    using poll_job_unclocked [of t j "sides w i" 0] table data_inv_side(2) [OF inv, of i] by simp
  then obtain st where "poll_job Release t j (sides w i) = Some (j', out, ps, st)" "unclocked st = side_at i m"
    by auto
  from that [OF this table(3) fits resp] show thesis .
qed

lemma poll_hello:
  assumes inv: "data_inv held k w"
  obtains m mt out ps st where "poll_main Release t (main_at (fst k)) (sides w False) = Some (mt, out, ps, st)"
    and "unclocked st = side_at False m" and "set ps \<subseteq> set (made_at_state False m)" and "fits False m out k"
    and "main_inv (pair_set False m k) mt"
proof -
  note joint = joint_bounds [OF data_inv_side(1) [OF inv]]
  obtain m mt out where go: "went_on (fst k) = (m, mt, out)" by (cases "went_on (fst k)")
  with joint(1) have fits: "fits False m out k" and mt: "mt = main_at m \<or> mt = Returned (Some ()) \<and> fst k = 6"
    unfolding joint_ok_def by auto
  from joint(5) go obtain ps st0 where table:
    "poll_main Release 0 (main_at (fst k)) (side_at False (fst k)) = Some (mt, out, ps, st0)"
    "unclocked st0 = side_at False m" "set ps \<subseteq> set (made_at_state False m)"
    unfolding main_ok_def list_all_iff by (fastforce split: option.splits)
  have "drop_clock (poll_main Release t (main_at (fst k)) (sides w False)) = Some (mt, out, ps, side_at False m)"
    using poll_main_unclocked [of t "main_at (fst k)" "sides w False" 0] table data_inv_side(2) [OF inv, of False]
    by (simp add: pair_get_def)
  then obtain st where st: "poll_main Release t (main_at (fst k)) (sides w False) = Some (mt, out, ps, st)"
    "unclocked st = side_at False m" by auto
  have "main_inv (pair_set False m k) mt"
    using mt fits by (auto simp: main_inv_def pair_set_def fits_def joint_def pair_get_def)
  from that [OF st table(3) fits this] show thesis .
qed

text \<open>The service task and the task that receives change no state of the table.\<close>

lemma poll_service_keeps:
  assumes inv: "data_inv held k w"
  shows "\<exists>r. poll_service Release t elapsed t' (sides w i) = Some r \<and> (case r of None \<Rightarrow> True | Some (ps, st) \<Rightarrow>
    unclocked st = side_at i (pair_get i k) \<and> set ps \<subseteq> set (made_at_state i (pair_get i k)))"
proof -
  note joint = joint_bounds [OF data_inv_side(1) [OF inv]]
  let ?st = "sides w i" and ?s = "async_seq (side_inner (sides w i))"
  note side = data_inv_side(2) [OF inv, of i]
  have untimed: "untimed ?s = async_seq (side_inner (side_at i (pair_get i k)))"
    unfolding side [symmetric] by simp
  have core: "core_inv ?s" using joint(6) [of i] untimed core_untimed [of ?s] by simp
  obtain ps s' u where run: "service Release t' ?s = Some (u, ps, s')" and s': "untimed s' = untimed ?s"
    and ps: "set ps \<subseteq> to_packet ` set (entries (send_window ?s))"
    by (rule service_untimed [OF core])
  have "to_packet ` set (entries (send_window ?s)) = to_packet ` set (entries (send_window (untimed ?s)))"
    by (rule entries_packets_untimed [symmetric])
  with ps untimed joint(3) [of i] have made: "wire ` set ps \<subseteq> set (made_at_state i (pair_get i k))"
    by (auto simp: resends_ok_def list_all_iff)
  have same: "unclocked (?st\<lparr>side_inner := side_inner ?st\<lparr>async_seq := s'\<rparr>, side_service := sv\<rparr>) = unclocked ?st" for sv
    using s' by (simp add: unclocked_def untimed_inner_def)
  obtain wt where "service_wait_for Release t (side_service ?st) = Some wt"
    by (cases "sint (task_next_service (side_service ?st)) < sint i64_max") (auto simp: service_wait_for_def)
  then show ?thesis
    using run made same side
    by (cases wt; cases "side_updates ?st"; cases elapsed)
      (simp_all add: poll_service_def service_turn_def Let_def)
qed

text \<open>The invariant holds after every poll.\<close>

definition greeting_inv :: "('ch \<Rightarrow> greeting packet set) \<Rightarrow> 'ch program \<Rightarrow> bool" where
  "greeting_inv held w \<longleftrightarrow> (\<exists>k. data_inv held k w \<and> jobs_inv k (jobs w) \<and> main_inv k (hello_task w))"

lemma greeting_invI:
  "data_inv held k w \<Longrightarrow> jobs_inv k (jobs w) \<Longrightarrow> main_inv k (hello_task w) \<Longrightarrow> greeting_inv held w"
  unfolding greeting_inv_def by blast

lemma main_invI: "mt = main_at (fst k) \<Longrightarrow> main_inv k mt"
  by (simp add: main_inv_def)

lemma data_inv_tasks [simp]:
  "data_inv held k (w\<lparr>hello_task := mt\<rparr>) = data_inv held k w"
  "data_inv held k (w\<lparr>jobs := js\<rparr>) = data_inv held k w"
  by (simp_all add: data_inv_def)

lemma after_poll_tasks [simp]:
  "jobs (after_poll net i out ps st w) = jobs w" "hello_task (after_poll net i out ps st w) = hello_task w"
  by (simp_all add: after_poll_def)

lemma main_inv_other: "main_inv k mt \<Longrightarrow> main_inv (pair_set True m k) mt"
  by (simp add: main_inv_def pair_set_def)

lemma same_pair [simp]: "pair_set i (pair_get i k) k = k"
  by (cases k) (simp add: pair_set_def pair_get_def)

lemma fits_same: "List.member joint k \<Longrightarrow> fits i (pair_get i k) [] k"
  by (simp add: fits_def)

lemma responder_waits: "List.member joint (pair_set i m k) \<Longrightarrow> j \<in> set (responder i m) \<Longrightarrow> waits j"
  by (cases i) (auto simp: joint_def pair_set_def responder_def)

lemma poll_any_job:
  assumes inv: "data_inv held k w" and jobs: "jobs_inv k (jobs w)" and mem: "j0 \<in> set (jobs w i)"
  obtains m j out ps st where "poll_job Release t j0 (sides w i) = Some (j, out, ps, st)"
    and "unclocked st = side_at i m" and "set ps \<subseteq> set (made_at_state i m)" and "fits i m out k"
    and "mset (responder i m) + mset (filter waits [j0])
        = mset (responder i (pair_get i k)) + mset (case j of Some j \<Rightarrow> [j] | None \<Rightarrow> [])"
    and "\<forall>j' \<in> set (case j of Some j \<Rightarrow> [j] | None \<Rightarrow> []). waits j'"
    and "main_at (fst (pair_set i m k)) = main_at (fst k)"
proof (cases "waits j0")
  case False
  then obtain p where p: "j0 = Arrived p" by (cases j0) simp_all
  with jobs mem have "p \<in> set (made_at_state (\<not> i) (pair_get (\<not> i) k))" by (auto simp: jobs_inv_def)
  from poll_arrived [OF inv this, of t] obtain m j out ps st where
    st: "poll_job Release t (Arrived p) (sides w i) = Some (j, out, ps, st)" "unclocked st = side_at i m"
      "set ps \<subseteq> set (made_at_state i m)" and fits: "fits i m out k"
    and resp: "responder i m = responder i (pair_get i k) @ (case j of Some j \<Rightarrow> [j] | None \<Rightarrow> [])"
    and main: "main_at (fst (pair_set i m k)) = main_at (fst k)" .
  have "\<forall>j' \<in> set (case j of Some j \<Rightarrow> [j] | None \<Rightarrow> []). waits j'"
    using responder_waits [of i m k] fits resp by (simp add: fits_def)
  with that st fits resp main p show thesis by simp
next
  case True
  have "j0 \<in> set (filter waits (jobs w i))" using True mem by simp
  moreover have "mset (filter waits (jobs w i)) = mset (responder i (pair_get i k))"
    using jobs by (simp add: jobs_inv_def)
  ultimately have resp0: "j0 \<in> set (responder i (pair_get i k))" by (metis set_mset_mset)
  with joint_bounds(7) [OF data_inv_side(1) [OF inv], of i] have one: "responder i (pair_get i k) = [j0]"
    by (cases "responder i (pair_get i k)") auto
  have i: "i" using resp0 by (cases i) (simp_all add: responder_def)
  from poll_waiting [OF inv resp0, of t] obtain m j out ps st where
    st: "poll_job Release t j0 (sides w i) = Some (j, out, ps, st)" "unclocked st = side_at i m"
      "set ps \<subseteq> set (made_at_state i m)" and fits: "fits i m out k"
    and resp: "responder i m = (case j of Some j \<Rightarrow> [j] | None \<Rightarrow> [])" .
  have "\<forall>j' \<in> set (case j of Some j \<Rightarrow> [j] | None \<Rightarrow> []). waits j'"
    using responder_waits [of i m k] fits resp by (simp add: fits_def)
  with that st fits resp one True i show thesis by (simp add: pair_set_def)
qed

lemma poll_live_inv:
  assumes net: "carries net held" and inv: "data_inv held k w" and jobs: "jobs_inv k (jobs w)"
    and main: "hello_task w = main_at (fst k)"
  shows "\<exists>w'. poll_live Release net a w = Some w' \<and> greeting_inv held w'"
proof (cases a)
  case (PollMain t)
  from poll_hello [OF inv, of t] obtain m mt out ps st where
    run: "poll_main Release t (main_at (fst k)) (sides w False) = Some (mt, out, ps, st)"
    and st: "unclocked st = side_at False m" "set ps \<subseteq> set (made_at_state False m)" "fits False m out k"
    and mt: "main_inv (pair_set False m k) mt" .
  let ?w = "w\<lparr>hello_task := mt\<rparr>"
  have "data_inv held (pair_set False m k) (after_poll net False out ps st ?w)"
    using after_poll_inv [OF _ net st, of ?w] inv by simp
  moreover have "jobs_inv (pair_set False m k) (jobs w)"
  proof (rule jobs_inv_to [OF jobs])
    show "mset (filter waits (jobs w False)) = mset (responder False m)"
      using jobs by (auto simp: jobs_inv_def responder_def)
  qed (use st(3) in \<open>simp_all add: fits_def\<close>)
  ultimately have "greeting_inv held (after_poll net False out ps st ?w)"
    using mt by (intro greeting_invI [of _ "pair_set False m k"]) simp_all
  with PollMain run main show ?thesis by simp
next
  case (PollService i t elapsed t')
  from poll_service_keeps [OF inv, of t elapsed t' i] obtain r where
    run: "poll_service Release t elapsed t' (sides w i) = Some r" and r: "case r of None \<Rightarrow> True | Some (ps, st) \<Rightarrow>
      unclocked st = side_at i (pair_get i k) \<and> set ps \<subseteq> set (made_at_state i (pair_get i k))" by blast
  have "data_inv held k (case r of Some (ps, st) \<Rightarrow> after_poll net i [] ps st w | None \<Rightarrow> w)"
    using after_poll_inv [OF inv net _ _ fits_same [OF data_inv_side(1) [OF inv]]] r inv
    by (auto split: option.splits)
  then have "greeting_inv held (case r of Some (ps, st) \<Rightarrow> after_poll net i [] ps st w | None \<Rightarrow> w)"
    by (rule greeting_invI) (use jobs main_invI [OF main] in \<open>simp_all split: option.split\<close>)
  with PollService run show ?thesis by simp
next
  case (PollInbox i)
  obtain p ch where recv: "poll_recv net (inboxes w i) = (p, ch)" by (cases "poll_recv net (inboxes w i)")
  let ?new = "case p of Some p \<Rightarrow> [Arrived p] | None \<Rightarrow> []"
  have "held (inboxes w i) \<subseteq> set (made_at_state (\<not> i) (pair_get (\<not> i) k))"
    using inv [unfolded data_inv_def, THEN conjunct2, THEN conjunct1, THEN spec, of "\<not> i"] by simp
  moreover have "held ch \<subseteq> held (inboxes w i)" and "p = Some q \<Longrightarrow> q \<in> held (inboxes w i)" for q
    using net recv unfolding carries_def by (metis fst_conv snd_conv)+
  ultimately have held: "held ch \<subseteq> set (made_at_state (\<not> i) (pair_get (\<not> i) k))"
    and new: "p = Some q \<Longrightarrow> q \<in> set (made_at_state (\<not> i) (pair_get (\<not> i) k))" for q by blast+
  have "data_inv held k (w\<lparr>inboxes := (inboxes w)(i := ch), jobs := (jobs w)(i := jobs w i @ ?new)\<rparr>)"
    using inv held by (auto simp: data_inv_def)
  moreover have "jobs_inv k ((jobs w)(i := jobs w i @ ?new))"
    unfolding jobs_inv_def
  proof (intro allI conjI impI)
    fix j
    show "mset (filter waits (((jobs w)(i := jobs w i @ ?new)) j)) = mset (responder j (pair_get j k))"
      using jobs by (auto simp: jobs_inv_def split: option.split)
    fix q
    assume q: "Arrived q \<in> set (((jobs w)(i := jobs w i @ ?new)) j)"
    show "q \<in> set (made_at_state (\<not> j) (pair_get (\<not> j) k))"
    proof (cases "Arrived q \<in> set (jobs w j)")
      case True
      with jobs show ?thesis by (simp add: jobs_inv_def)
    next
      case False
      with q have "j = i" and "p = Some q" by (auto split: if_splits option.splits)
      with new show ?thesis by simp
    qed
  qed
  ultimately show ?thesis
    using PollInbox recv main by (auto intro!: greeting_invI [of _ k] main_invI)
next
  case (PollJob i n t)
  show ?thesis
  proof (cases "n < length (jobs w i)")
    case False
    with PollJob greeting_invI [OF inv jobs main_invI [OF main]] show ?thesis by simp
  next
    case True
    have mem: "jobs w i ! n \<in> set (jobs w i)" using True by simp
    from poll_any_job [OF inv jobs mem, of t] obtain m j out ps st where
      run: "poll_job Release t (jobs w i ! n) (sides w i) = Some (j, out, ps, st)"
      and st: "unclocked st = side_at i m" "set ps \<subseteq> set (made_at_state i m)" and fits: "fits i m out k"
      and resp: "mset (responder i m) + mset (filter waits [jobs w i ! n])
        = mset (responder i (pair_get i k)) + mset (case j of Some j \<Rightarrow> [j] | None \<Rightarrow> [])"
        "\<forall>j' \<in> set (case j of Some j \<Rightarrow> [j] | None \<Rightarrow> []). waits j'"
      and mt: "main_at (fst (pair_set i m k)) = main_at (fst k)" .
    let ?js = "(jobs w)(i := take n (jobs w i) @ (case j of Some j \<Rightarrow> [j] | None \<Rightarrow> []) @ drop (Suc n) (jobs w i))"
    have "jobs_inv (pair_set i m k) ?js"
      using jobs_inv_replace [OF jobs True _ resp] fits by (simp add: fits_def)
    moreover have "data_inv held (pair_set i m k) (after_poll net i out ps st (w\<lparr>jobs := ?js\<rparr>))"
      using after_poll_inv [OF _ net st fits, of "w\<lparr>jobs := ?js\<rparr>"] inv by simp
    moreover have "main_inv (pair_set i m k) (hello_task w)" using main mt by (simp add: main_inv_def)
    ultimately have "greeting_inv held (after_poll net i out ps st (w\<lparr>jobs := ?js\<rparr>))"
      by (intro greeting_invI [of _ "pair_set i m k"]) simp_all
    with PollJob True run show ?thesis by simp
  qed
qed

lemma poll_one_inv:
  assumes net: "carries net held" and inv: "greeting_inv held w"
  shows "\<exists>w'. poll_one Release net a w = Some w' \<and> greeting_inv held w'"
proof -
  from inv obtain k where k: "data_inv held k w" "jobs_inv k (jobs w)" "main_inv k (hello_task w)"
    by (auto simp: greeting_inv_def)
  show ?thesis
  proof (cases "\<exists>r. hello_task w = Returned r")
    case True
    with inv show ?thesis by (auto simp: poll_one_def)
  next
    case False
    with k(3) have "hello_task w = main_at (fst k)" by (auto simp: main_inv_def)
    from poll_live_inv [OF net k(1,2) this, of a] False show ?thesis
      by (auto simp: poll_one_def split: main_task.split)
  qed
qed

lemma poll_list_inv:
  assumes "carries net held" and "greeting_inv held w"
  shows "\<exists>w'. poll_list Release net as w = Some w' \<and> greeting_inv held w'"
  using assms(2)
proof (induction as arbitrary: w)
  case (Cons a as)
  from poll_one_inv [OF assms(1) Cons.prems, of a] Cons.IH show ?case by fastforce
qed simp

lemma side_new_at: "map_option unclocked (side_new Release) = Some (side_at i 0)"
proof -
  have "map_option unclocked (side_new Release) = Some (side_at False 0)" by code_simp
  moreover have "side_at False 0 = side_at True 0" by code_simp
  ultimately show ?thesis by (cases i) simp_all
qed

lemma peers_new_inv:
  assumes "carries net held"
  shows "\<exists>w. peers_new Release net = Some w \<and> greeting_inv held w"
proof -
  obtain st where new: "side_new Release = Some st" using side_new_at [of False] by auto
  then have "unclocked st = side_at i 0" for i using side_new_at [of i] by simp
  moreover have "held (channel net 32) = {}" using assms by (simp add: carries_def)
  moreover have "printed_at (0, 0) = []" and "List.member joint (0, 0)" and "main_at 0 = Begin"
    by (simp_all add: printed_at_def joint_def main_at_def)
  ultimately show ?thesis
    using new
    by (auto simp: peers_new_def greeting_inv_def data_inv_def jobs_inv_def main_inv_def pair_get_def responder_def
        intro!: exI [of _ 0])
qed

lemma printed_prefix:
  assumes "List.member joint k"
  shows "\<exists>rest. script = printed_at k @ rest \<and> (fst k = 6 \<longrightarrow> rest = [])"
  using assms by (auto simp: joint_def printed_at_def script_def)

text \<open>
  C11. The async example is safe. Whatever order its tasks are polled in, however often and at whatever
  times, and whatever packets the channels lose, a release build has no panic, no assertion fails, what is
  printed is a prefix of the greeting, and if \<^verbatim>\<open>main\<close> returns the whole greeting is
  printed.
\<close>

theorem async_hello_prints:
  assumes "carries net held"
  shows "\<exists>mt out rest. async_hello_main Release net schedule = Some (mt, out)
    \<and> map Say [''Hello'', '' '', ''World'', ''!'', ''\<newline>''] = out @ rest
    \<and> (\<forall>r. mt = Returned r \<longrightarrow> r = Some () \<and> rest = [])"
proof -
  from peers_new_inv [OF assms] obtain w0 where new: "peers_new Release net = Some w0" "greeting_inv held w0" by blast
  from poll_list_inv [OF assms new(2)] obtain w where run: "poll_list Release net schedule w0 = Some w"
    and "greeting_inv held w" by blast
  then obtain k where k: "data_inv held k w" "main_inv k (hello_task w)" by (auto simp: greeting_inv_def)
  from printed_prefix [OF data_inv_side(1) [OF k(1)]] obtain rest where
    rest: "script = printed_at k @ rest" "fst k = 6 \<Longrightarrow> rest = []" by blast
  have "r = Some () \<and> fst k = 6" if "hello_task w = Returned r" for r
    using k(2) that data_inv_side(1) [OF k(1)] by (auto simp: main_inv_def main_at_def joint_def)
  with new run rest k(1) show ?thesis
    by (auto simp: async_hello_main_def data_inv_def script_def)
qed

section \<open>A run\<close>

text \<open>Bounded queues, and a schedule that polls every task when it is its turn.\<close>

definition bounded_net :: "greeting packet list tokio_channel" where
  "bounded_net = \<lparr> channel = (\<lambda>_. []),
     offer = (\<lambda>p ch. if length ch < 32 then (True, ch @ [p]) else (False, ch)),
     poll_recv = (\<lambda>ch. case ch of [] \<Rightarrow> (None, []) | p # ps \<Rightarrow> (Some p, ps)) \<rparr>"

definition fair_schedule :: "poll list" where
  "fair_schedule = [PollMain 0, PollInbox True, PollJob True 0 1, PollInbox False, PollJob False 0 2, PollMain 3,
     PollInbox True, PollJob True 1 4, PollJob True 0 4, PollInbox False, PollJob False 0 5, PollMain 6,
     PollInbox True, PollJob True 1 7, PollJob True 0 8, PollInbox False, PollJob False 0 9, PollMain 10]"

lemma bounded_net_carries: "carries bounded_net set"
  by (auto simp: carries_def bounded_net_def split: list.splits)

theorem async_hello_prints_witness:
  "carries bounded_net set
   \<and> async_hello_main Release bounded_net fair_schedule
       = Some (Returned (Some ()), map Say [''Hello'', '' '', ''World'', ''!'', ''\<newline>''])"
proof
  show "carries bounded_net set" by (rule bounded_net_carries)
  have run: "map_option fst (async_hello_main Release bounded_net fair_schedule) = Some (Returned (Some ()))"
    by code_simp
  from async_hello_prints [OF bounded_net_carries, of fair_schedule] obtain mt out rest where
    main: "async_hello_main Release bounded_net fair_schedule = Some (mt, out)"
    and out: "map Say [''Hello'', '' '', ''World'', ''!'', ''\<newline>''] = out @ rest"
    and ret: "\<forall>r. mt = Returned r \<longrightarrow> r = Some () \<and> rest = []" by metis
  have "mt = Returned (Some ())" using run unfolding main by (simp only: option.map option.inject fst_conv)
  with ret have "rest = []" by blast
  with out have "out = map Say [''Hello'', '' '', ''World'', ''!'', ''\<newline>'']" by (simp only: append_Nil2)
  with main \<open>mt = Returned (Some ())\<close> show "async_hello_main Release bounded_net fair_schedule
       = Some (Returned (Some ()), map Say [''Hello'', '' '', ''World'', ''!'', ''\<newline>''])" by (simp only:)
qed

end
