(* ===== verification/Spec2Isabelle.thy ===== *)
theory Spec2Isabelle
  imports Thread_Limits Async_Timer Hello_World Calculator_Safety Progress Deadlock
    File_Download Iter_Mut Debug_Format Hello_Tokio_Safety
begin

text \<open>
  \<^bold>\<open>SEQEX: reliable, ordered, exactly-once exchange of packets.\<close>

  The crate is a low-level instance (\<^verbatim>\<open>src/no_std.rs\<close>) with three interfaces on top
  of it: one for a single thread (\<^verbatim>\<open>src/single_thread.rs\<close>), one for threads behind a
  mutex (\<^verbatim>\<open>src/sync.rs\<close>) and one for tokio tasks (\<^verbatim>\<open>src/tokio.rs\<close>).
  An instance numbers the packets it sends, keeps them in a send window until a reply or an
  acknowledgement names them, and resends them on a timer. It keeps packets that cannot be processed
  yet in a receive window, issues a reply number for every packet it hands over, and has a lock that
  lets one SeqCst packet be processed at a time.

  \<^bold>\<open>Conventions.\<close> Sequence numbers are \<open>32 word\<close> and times \<open>64 word\<close> read with \<open>sint\<close>;
  both wrap as in the code. Every function that can panic returns an \<open>option\<close>, \<open>None\<close> for a panic;
  the parameter \<open>build\<close> says whether overflow checks and debug assertions are on (\<open>Debug\<close>) or off
  (\<open>Release\<close>). Errors are values of a sum type. A function that is given a \<^verbatim>\<open>TransportLayer\<close>
  takes the time that layer reports and returns the list of packets it sends. Loops are recursive
  functions with proofs of termination (\<open>fast_forward\<close>, \<open>is_full_loop\<close>, \<open>service_loop\<close>, \<open>pump_all\<close>);
  no fuel is used. A loop that blocks is cut at the waits: one function per critical section.

  \<^bold>\<open>Theories.\<close>

  \<^item> \<open>Prelude\<close>: machine integers with panics, arrays, runs of calls, and the locales: \<open>window_ring\<close>
    for the slots of a window, \<open>call_machine\<close> for an invariant kept by calls; each is interpreted on
    the model.

  \<^item> \<open>Transport_Layer\<close> (\<^verbatim>\<open>src/transport_layer.rs\<close>): packets.

  \<^item> \<open>Seq_Types\<close>, \<open>Send_Window\<close>, \<open>Recv_Window\<close>, \<open>Reply_Path\<close>, \<open>Service\<close> (\<^verbatim>\<open>src/no_std.rs\<close>):
    the instance, sending, receiving, replying, resending, one definition per method. \<open>Iter_Mut\<close>: the
    iterator that lends the data of the send window for writing, a double-ended queue of its entries. \<open>Window_Inv\<close>
    has the invariants and the send window as a finite map. The lemmas give every operation's result
    on every branch.

  \<^item> \<open>Machine\<close>: all low-level calls as a machine. No sequence of calls panics in a release build, no
    sequence of permitted calls in a debug build; what the builds return agrees.

  \<^item> \<open>Delivery\<close>: an abstract receiver with unbounded numbers; every call is a step of it. From it:
    order of SeqCst packets, exactly once, nothing skipped, mutual exclusion of the lock.

  \<^item> \<open>Exchange\<close>: an abstract exchange of packets between two parties, without windows or timers,
    and what the parties agree on after every step. \<open>Peers\<close>: two instances over a network that loses,
    delays, reorders and repeats packets; each call of either is a step of the exchange.
    \<open>Peer_Delivery\<close>: what follows end to end. Both peers start from the same number and make at most
    \<open>2 ^ 31\<close> packets each (\<open>young\<close>); the flag \<open>once\<close> forbids the network to repeat a packet processed
    out of order while its mark is in the window; a repeat then is handed over again, and a closed run
    shows what becomes of the two peers. \<open>Progress\<close>: with room
    on both sides everything can still be delivered and acknowledged. \<open>Deadlock\<close>: with both send
    windows full nothing ever can.

  \<^item> \<open>Limits\<close>: closed runs on which the instance does less than its documentation says.

  \<^item> \<open>Single_Thread\<close>, \<open>Guards\<close> (\<^verbatim>\<open>src/single_thread.rs\<close>): reply guards and the API that
    hands them out; sessions of calls through guards never panic and answer every packet once.

  \<^item> \<open>Sync\<close> (\<^verbatim>\<open>src/sync.rs\<close>): the state behind the mutex and every method as critical
    sections. \<open>Threads\<close>: any number of threads that interleave sections, with spurious wake-ups;
    notifications are delivered some time after the section that makes them. \<open>Wakeups\<close>: who waits is
    counted exactly, and who is woken when a reply number or the lock is released. \<open>Sync_Safety\<close>: every
    section is one call of a session. \<open>Sender_Wakeups\<close>: whatever makes room for a send wakes a sleeping
    one. \<open>Closing\<close>: invariants of a closed instance, which sends and receives nothing new, and who sleeps
    on. \<open>Timed_Send\<close>: the deadline of a send with a timeout through its wake-ups. \<open>Thread_Limits\<close>: runs
    that lose a wake-up, and the lock that \<^verbatim>\<open>close\<close> loses.

  \<^item> \<open>Pumping\<close>: loops that pump end, as each packet pumped leaves the window.

  \<^item> \<open>Tokio\<close>, \<open>Async_Safety\<close>, \<open>Async_Timer\<close> (\<^verbatim>\<open>src/tokio.rs\<close>): sections of the async
    methods, the receive loop, the service task. Channels are numbers, and what is sent on them or on a
    \<^verbatim>\<open>Notify\<close> are events; the answers awaited are arguments. No reply number is lost and
    the service task is never late.

  \<^item> \<open>Mpsc\<close>: \<^verbatim>\<open>MpscTransport\<close> of both files, over a queue for the channel of the standard
    library and a parameter for that of tokio. \<open>Receive_Loop\<close>: the loop over
    \<^verbatim>\<open>receive_all\<close> of a program with one thread per instance, a partial function, as its body
    is a parameter and might go on for ever. \<open>Hello_World\<close>, \<open>Calculator\<close>
    (\<^verbatim>\<open>examples/hello_world.rs\<close>, \<^verbatim>\<open>examples/calculator.rs\<close>): the
    programs, over any arithmetic in place of \<^verbatim>\<open>f32\<close>. \<open>Sections\<close>: the methods of the thread-safe
    API as calls of two peers. \<open>Calculator_Safety\<close>: the loops return, and the calculator computes
    what was sent. \<open>File_Download\<close> (\<^verbatim>\<open>examples/file_download.rs\<close>): its upload
    threads run one send at a time between the calls of \<^verbatim>\<open>main\<close>; the encoding of
    messages, the allocator, the coins and the clock are parameters.

  \<^item> \<open>Hello_Tokio\<close> (\<^verbatim>\<open>examples/hello_world_tokio.rs\<close>): the async program, one step per
    poll of a task, with the bounded channels as a parameter. \<open>Untimed\<close>: operations do the same on an
    instance whose times are forgotten. \<open>Hello_Tokio_Safety\<close>: so each peer goes through a table of a
    few states, which is checked by evaluation and holds for every schedule.

  \<^item> \<open>Debug_Format\<close>: what the hand-written \<^verbatim>\<open>Debug\<close> implementations print.

  \<^bold>\<open>Notes.\<close> In the thread-safe \<^verbatim>\<open>reply_with\<close> the two critical sections of a closed
    instance are one step, since \<^verbatim>\<open>closed\<close> never becomes false again. Counts of waiting
    threads are naturals, which do not reach \<^verbatim>\<open>usize::MAX\<close>. The queue of updates of the
    service task is a list; an update whose send waits for room in the queue is already on it, and the
    relation has no cancelled sends.

  \<^bold>\<open>Not modelled.\<close> Poisoning of the mutex (no section panics), derived
  \<^verbatim>\<open>Debug\<close> and the multi-line form of the others, and the getters that return a reference
  to the transport layer or the instance. \<^verbatim>\<open>src/lib.rs\<close> declares modules and
  documents them.
\<close>

end
